(* ===== verification/Prelude.thy ===== *)
theory Prelude
  imports Main "HOL-Library.Word"
begin

text \<open>
  Shared vocabulary of the development: the machine integers of the Rust sources, strings as
  lists of UTF-8 bytes (a HOL \<open>char\<close> is one byte, so \<open>length\<close> is Rust's \<open>String::len\<close>), the
  decimal rendering of unsigned integers that \<open>to_string\<close> and the \<open>ToRedisArgs\<close> conversions use,
  and the list and option facts that several components share.
\<close>

section \<open>Machine integers\<close>

type_synonym u8 = "8 word"
type_synonym u32 = "32 word"
type_synonym u64 = "64 word"
type_synonym i32 = "32 word"
type_synonym i64 = "64 word"

section \<open>Hint collections\<close>

named_theorems fp_mono \<open>monotonicity of the floating-point operations\<close>
named_theorems db_simps \<open>effects of the Redis commands on the data set\<close>

section \<open>Decimal numbers\<close>

text \<open>\<open>dec n\<close> is the text of an unsigned integer as Rust's \<open>Display\<close> prints it.\<close>

definition digit :: "nat \<Rightarrow> char" where
  "digit d = char_of (48 + d)"

fun dec :: "nat \<Rightarrow> string" where
  "dec n = (if n < 10 then [digit n] else dec (n div 10) @ [digit (n mod 10)])"

declare dec.simps [simp del]

definition digit_val :: "char \<Rightarrow> nat option" where
  "digit_val c = (let b = (of_char c :: nat) in if 48 \<le> b \<and> b \<le> 57 then Some (b - 48) else None)"

lemma of_char_digit: "d < 10 \<Longrightarrow> of_char (digit d) = (48 + d :: nat)"
  by (simp add: digit_def)

lemma digit_val_digit [simp]: "d < 10 \<Longrightarrow> digit_val (digit d) = Some d"
  by (simp add: digit_val_def of_char_digit)

lemma digit_val_bound: "digit_val c = Some d \<Longrightarrow> d < 10"
  by (auto simp: digit_val_def Let_def split: if_splits)

lemma dec_nonempty [simp]: "dec n \<noteq> []"
  by (subst dec.simps) simp

lemma dec_digits: "c \<in> set (dec n) \<Longrightarrow> digit_val c \<noteq> None"
proof (induction n rule: dec.induct)
  case (1 n)
  then show ?case by (subst (asm) dec.simps) (auto split: if_splits)
qed

text \<open>The value read off a digit string, most significant digit first.\<close>

fun nat_of_digits :: "nat \<Rightarrow> string \<Rightarrow> nat option" where
  "nat_of_digits acc [] = Some acc"
| "nat_of_digits acc (c # cs) =
     (case digit_val c of None \<Rightarrow> None | Some d \<Rightarrow> nat_of_digits (10 * acc + d) cs)"

lemma nat_of_digits_append:
  "nat_of_digits acc (xs @ ys) =
     (case nat_of_digits acc xs of None \<Rightarrow> None | Some a \<Rightarrow> nat_of_digits a ys)"
  by (induction acc xs rule: nat_of_digits.induct) (auto split: option.splits)

lemma nat_of_digits_dec [simp]: "nat_of_digits 0 (dec n) = Some n"
proof (induction n rule: dec.induct)
  case (1 n)
  then show ?case
    by (cases "n < 10") (simp_all add: dec.simps [of n] nat_of_digits_append)
qed

lemma dec_inject [simp]: "dec m = dec n \<longleftrightarrow> m = n"
proof
  assume "dec m = dec n"
  then have "nat_of_digits 0 (dec m) = nat_of_digits 0 (dec n)" by simp
  then show "m = n" by simp
qed simp

section \<open>Bytes of a string\<close>

abbreviation byte :: "char \<Rightarrow> nat" where
  "byte c \<equiv> of_char c"

definition ascii_upper :: "char \<Rightarrow> bool" where
  "ascii_upper c \<longleftrightarrow> 65 \<le> byte c \<and> byte c \<le> 90"

definition ascii_lower :: "char \<Rightarrow> bool" where
  "ascii_lower c \<longleftrightarrow> 97 \<le> byte c \<and> byte c \<le> 122"

definition ascii_digit :: "char \<Rightarrow> bool" where
  "ascii_digit c \<longleftrightarrow> 48 \<le> byte c \<and> byte c \<le> 57"

definition ascii_alphanumeric :: "char \<Rightarrow> bool" where
  "ascii_alphanumeric c \<longleftrightarrow> ascii_lower c \<or> ascii_upper c \<or> ascii_digit c"

section \<open>Lists and options\<close>

lemma filter_id_if_not_in: "i \<notin> fst ` set xs \<Longrightarrow> filter (\<lambda>p. fst p \<noteq> i) xs = xs"
  by (induction xs) auto

lemma those_map_length: "those (map f xs) = Some ys \<Longrightarrow> length ys = length xs"
  by (induction xs arbitrary: ys) (auto split: option.splits)

lemma those_map_nth:
  "those (map f xs) = Some ys \<Longrightarrow> i < length xs \<Longrightarrow> f (xs ! i) = Some (ys ! i)"
proof (induction xs arbitrary: ys i)
  case (Cons x xs)
  then show ?case by (cases i) (auto split: option.splits)
qed simp

lemma those_map_Some: "(\<And>x. x \<in> set xs \<Longrightarrow> f x \<noteq> None) \<Longrightarrow> \<exists>ys. those (map f xs) = Some ys"
  by (induction xs) fastforce+

lemma distinct_map_eq: "distinct (map f xs) \<Longrightarrow> a \<in> set xs \<Longrightarrow> b \<in> set xs \<Longrightarrow> f a = f b \<Longrightarrow> a = b"
  by (auto simp: distinct_map inj_on_def)

lemma zip_all_fst: "length xs = length ys \<Longrightarrow> (\<forall>x \<in> set (zip xs ys). P (fst x)) \<longleftrightarrow> (\<forall>a \<in> set xs. P a)"
  by (metis (no_types, lifting) list.set_map imageE imageI map_fst_zip)

lemma zip_ex_fst: "length xs = length ys \<Longrightarrow> (\<exists>x \<in> set (zip xs ys). P (fst x)) \<longleftrightarrow> (\<exists>a \<in> set xs. P a)"
  using zip_all_fst [of xs ys "\<lambda>a. \<not> P a"] by blast

end
