(* ===== verification/Float64.thy ===== *)
theory Float64
  imports Prelude Complex_Main "HOL-Library.Log_Nat"
begin

text \<open>
  The \<open>f64\<close> arithmetic of the Rust scoring code: IEEE 754 binary64 with round to nearest, ties to
  even. A finite value is the rational it denotes, so the two zeros are one value; no operation of
  the sources tells them apart. Every operation computes the exact rational result and rounds it
  once, as the standard prescribes, so the definitions evaluate.
\<close>

section \<open>Rounding a rational\<close>

definition ilog2 :: "rat \<Rightarrow> int" where
  "ilog2 q = (let (n, d) = quotient_of q; e = bitlen n - bitlen d
              in if 2 powi e \<le> q then e else e - 1)"

definition round_half_even :: "rat \<Rightarrow> int" where
  "round_half_even q =
     (let f = \<lfloor>q\<rfloor>; r = q - of_int f
      in if r < 1/2 then f else if 1/2 < r then f + 1 else if even f then f else f + 1)"

text \<open>The exponent of the last place: 53 significant bits, and no place below \<open>2 ^ -1074\<close>.\<close>

definition last_place :: "rat \<Rightarrow> int" where
  "last_place q = max (ilog2 \<bar>q\<bar> - 52) (-1074)"

definition round64 :: "rat \<Rightarrow> rat" where
  "round64 q =
     (if q = 0 then 0
      else let u = 2 powi last_place q in of_int (round_half_even (q / u)) * u)"

subsection \<open>The binary logarithm\<close>

lemma powi_mono: "m \<le> n \<Longrightarrow> (2::rat) powi m \<le> 2 powi n"
  by (rule power_int_increasing) auto

lemma powi_strict: "m < n \<Longrightarrow> (2::rat) powi m < 2 powi n"
  by (rule power_int_strict_increasing) auto

lemma powi_shift: "(2::rat) powi (e + numeral k) = 2 ^ numeral k * 2 powi e"
  by (simp add: power_int_add)

lemma bitlen_bracket:
  assumes "0 < n"
  shows "2 powi (bitlen n - 1) \<le> rat_of_int n" "rat_of_int n < 2 powi (bitlen n)"
proof -
  from assms have b: "2 ^ nat (bitlen n - 1) \<le> n" "n < 2 ^ nat (bitlen n)"
    using bitlen_bounds [OF assms] by auto
  then have "0 < bitlen n"
    using bitlen_nonneg [of n] bitlen_eq_zero_iff [of n] assms by linarith
  then have "2 powi (bitlen n - 1) = rat_of_int (2 ^ nat (bitlen n - 1))"
    and "2 powi (bitlen n) = rat_of_int (2 ^ nat (bitlen n))"
    by (auto simp: power_int_def)
  with b show "2 powi (bitlen n - 1) \<le> rat_of_int n" "rat_of_int n < 2 powi (bitlen n)"
    by (simp_all del: of_int_power)
qed

lemma ilog2_bracket:
  assumes "0 < q"
  shows "2 powi (ilog2 q) \<le> q" "q < 2 powi (ilog2 q + 1)"
proof -
  obtain n d where nd: "quotient_of q = (n, d)" by fastforce
  then have q: "q = of_int n / of_int d" and d: "0 < d"
    by (auto simp: quotient_of_div quotient_of_denom_pos)
  from assms q d have n: "0 < n" by (simp add: zero_less_divide_iff)
  define e where "e = bitlen n - bitlen d"
  have up: "q < 2 powi (e + 1)"
  proof -
    have "q < 2 powi (bitlen n) / 2 powi (bitlen d - 1)"
      unfolding q using bitlen_bracket [OF n] bitlen_bracket [OF d] n d
      by (intro frac_less) auto
    also have "\<dots> = 2 powi (e + 1)"
      by (simp add: e_def flip: power_int_diff) (simp add: algebra_simps)
    finally show ?thesis .
  qed
  have lo: "2 powi (e - 1) < q"
  proof -
    have "2 powi (e - 1) = 2 powi (bitlen n - 1) / (2 powi (bitlen d) :: rat)"
      by (simp add: e_def flip: power_int_diff) (simp add: algebra_simps)
    also have "\<dots> < q"
      unfolding q using bitlen_bracket [OF n] bitlen_bracket [OF d] n d
      by (intro frac_less2) auto
    finally show ?thesis .
  qed
  have il: "ilog2 q = (if 2 powi e \<le> q then e else e - 1)"
    by (simp add: ilog2_def nd e_def)
  show "2 powi (ilog2 q) \<le> q" "q < 2 powi (ilog2 q + 1)"
    using up lo by (auto simp: il)
qed

lemma ilog2_le:
  assumes "0 < q" "q < 2 powi (e + 1)"
  shows "ilog2 q \<le> e"
proof (rule ccontr)
  assume "\<not> ilog2 q \<le> e"
  then have "(2::rat) powi (e + 1) \<le> 2 powi (ilog2 q)" by (intro powi_mono) simp
  with ilog2_bracket(1) [OF assms(1)] assms(2) show False by simp
qed

lemma ilog2_ge:
  assumes "2 powi e \<le> q"
  shows "e \<le> ilog2 q"
proof (rule ccontr)
  have q: "0 < q" using assms by (meson less_le_trans zero_less_numeral zero_less_power_int)
  assume "\<not> e \<le> ilog2 q"
  then have "(2::rat) powi (ilog2 q + 1) \<le> 2 powi e" by (intro powi_mono) simp
  with ilog2_bracket(2) [OF q] assms show False by simp
qed

lemma ilog2_mono: "0 < x \<Longrightarrow> x \<le> y \<Longrightarrow> ilog2 x \<le> ilog2 y"
  by (intro ilog2_ge) (meson ilog2_bracket(1) order_trans)

subsection \<open>Rounding to an integer\<close>

lemma rhe_error: "\<bar>of_int (round_half_even q) - q\<bar> \<le> 1/2"
proof -
  have "of_int \<lfloor>q\<rfloor> \<le> q" "q < of_int \<lfloor>q\<rfloor> + 1" by linarith+
  then show ?thesis by (auto simp: round_half_even_def Let_def abs_le_iff)
qed

lemma rhe_floor: "\<lfloor>q\<rfloor> \<le> round_half_even q" "round_half_even q \<le> \<lfloor>q\<rfloor> + 1"
  by (auto simp: round_half_even_def Let_def)

lemma rhe_of_int [simp]: "round_half_even (of_int k) = k"
  by (simp add: round_half_even_def)

lemma rhe_mono:
  assumes "x \<le> y"
  shows "round_half_even x \<le> round_half_even y"
proof (cases "\<lfloor>x\<rfloor> = \<lfloor>y\<rfloor>")
  case True
  with assms show ?thesis by (auto simp: round_half_even_def Let_def)
next
  case False
  with assms have "\<lfloor>x\<rfloor> + 1 \<le> \<lfloor>y\<rfloor>" using floor_mono [OF assms] by linarith
  then show ?thesis using rhe_floor(2) [of x] rhe_floor(1) [of y] by linarith
qed

lemma rhe_minus: "round_half_even (- q) = - round_half_even q"
proof (cases "q = of_int \<lfloor>q\<rfloor>")
  case True
  then obtain k where "q = of_int k" by blast
  then show ?thesis using rhe_of_int [of "- k"] by simp
next
  case False
  then have "of_int \<lfloor>q\<rfloor> < q" by linarith
  then have "\<lfloor>- q\<rfloor> = - \<lfloor>q\<rfloor> - 1" by linarith
  then show ?thesis by (auto simp: round_half_even_def Let_def)
qed

subsection \<open>Rounding to 53 bits\<close>

lemma round64_zero [simp]: "round64 0 = 0"
  by (simp add: round64_def)

lemma round64_minus: "round64 (- q) = - round64 q"
  by (simp add: round64_def last_place_def Let_def rhe_minus flip: minus_divide_left)

lemma last_place_mono: "0 < x \<Longrightarrow> x \<le> y \<Longrightarrow> last_place x \<le> last_place y"
  using ilog2_mono [of x y] by (auto simp: last_place_def)

text \<open>A number with at most 53 significant bits is not changed by rounding.\<close>

lemma round64_exact:
  assumes "\<bar>m\<bar> < 2 ^ 53" "- 1074 \<le> e"
  shows "round64 (of_int m * 2 powi e) = of_int m * 2 powi e"
proof (cases "m = 0")
  case False
  define q where "q = rat_of_int m * 2 powi e"
  have q: "0 < \<bar>q\<bar>" using False by (simp add: q_def)
  have "\<bar>rat_of_int m\<bar> < 2 ^ 53" using assms(1) by (metis of_int_abs of_int_less_numeral_power_cancel_iff)
  then have "\<bar>q\<bar> < 2 ^ 53 * 2 powi e" by (simp add: q_def abs_mult)
  also have "\<dots> = 2 powi (e + 53)" by (rule powi_shift [symmetric])
  finally have "ilog2 \<bar>q\<bar> \<le> e + 52" by (intro ilog2_le [OF q]) (simp add: add.assoc)
  then have "last_place q \<le> e" using assms(2) by (simp add: last_place_def)
  then obtain k where k: "e - last_place q = int k"
    using zero_le_imp_eq_int [of "e - last_place q"] by auto
  have "q / 2 powi last_place q = of_int m * 2 powi (e - last_place q)"
    by (simp add: q_def power_int_diff)
  then have d: "q / 2 powi last_place q = of_int (m * 2 ^ k)" by (simp add: k)
  then have "round64 q = of_int (m * 2 ^ k) * 2 powi last_place q"
    using q unfolding round64_def Let_def d rhe_of_int by auto
  also have "\<dots> = q" unfolding d [symmetric] by simp
  finally show ?thesis by (simp add: q_def)
qed simp

lemma round64_of_int: "\<bar>m\<bar> < 2 ^ 53 \<Longrightarrow> round64 (of_int m) = of_int m"
  using round64_exact [of m 0] by simp

lemma round64_powi: "- 1074 \<le> e \<Longrightarrow> round64 (2 powi e) = 2 powi e"
  using round64_exact [of 1 e] by simp

lemma round64_pos_bracket:
  assumes "0 < q"
  shows "round64 q \<le> 2 powi (last_place q + 53)"
    and "last_place q = ilog2 q - 52 \<Longrightarrow> 2 powi (last_place q + 52) \<le> round64 q"
proof -
  let ?u = "(2::rat) powi last_place q"
  have r: "round64 q = of_int (round_half_even (q / ?u)) * ?u"
    using assms by (simp add: round64_def Let_def)
  have "q < 2 powi (ilog2 q + 1)" using ilog2_bracket [OF assms] by simp
  also have "\<dots> \<le> 2 powi (last_place q + 53)"
    using assms by (intro powi_mono) (simp add: last_place_def)
  also have "\<dots> = 2 ^ 53 * ?u" by (rule powi_shift)
  finally have "q / ?u \<le> of_int (2 ^ 53)" by (simp add: field_simps)
  from rhe_mono [OF this] have "rat_of_int (round_half_even (q / ?u)) \<le> of_int (2 ^ 53)"
    unfolding rhe_of_int by (simp only: of_int_le_iff)
  then have "round64 q \<le> 2 ^ 53 * ?u" unfolding r by (intro mult_right_mono) auto
  then show "round64 q \<le> 2 powi (last_place q + 53)" by (simp only: powi_shift)
  assume lp: "last_place q = ilog2 q - 52"
  have "2 ^ 52 * ?u = 2 powi (ilog2 q)"
    unfolding lp powi_shift [symmetric] by simp
  then have "of_int (2 ^ 52) \<le> q / ?u" using ilog2_bracket(1) [OF assms] by (simp add: field_simps)
  from rhe_mono [OF this] have "of_int (2 ^ 52) \<le> rat_of_int (round_half_even (q / ?u))"
    unfolding rhe_of_int by (simp only: of_int_le_iff)
  then have "2 ^ 52 * ?u \<le> round64 q" unfolding r by (intro mult_right_mono) auto
  then show "2 powi (last_place q + 52) \<le> round64 q" by (simp only: powi_shift)
qed

lemma round64_nonneg: "0 \<le> q \<Longrightarrow> 0 \<le> round64 q"
  using rhe_mono [of 0 "q / 2 powi last_place q"] rhe_of_int [of 0]
  by (auto simp: round64_def Let_def intro!: mult_nonneg_nonneg)

lemma round64_mono_pos:
  assumes "0 < x" "x \<le> y"
  shows "round64 x \<le> round64 y"
proof (cases "last_place x = last_place y")
  case True
  then show ?thesis using assms
    by (auto simp: round64_def Let_def intro!: mult_right_mono rhe_mono divide_right_mono)
next
  case False
  with last_place_mono [OF assms] have lt: "last_place x + 53 \<le> last_place y + 52" by simp
  with False last_place_mono [OF assms] have lp: "last_place y = ilog2 y - 52"
    using assms by (auto simp: last_place_def)
  have "round64 x \<le> 2 powi (last_place x + 53)" using assms(1) by (rule round64_pos_bracket(1))
  also have "\<dots> \<le> 2 powi (last_place y + 52)" using lt by (rule powi_mono)
  also have "\<dots> \<le> round64 y" using assms lp by (intro round64_pos_bracket) auto
  finally show ?thesis .
qed

lemma round64_mono [fp_mono]:
  assumes "x \<le> y"
  shows "round64 x \<le> round64 y"
proof -
  consider "0 < x" | "y < 0" | "x \<le> 0" "0 \<le> y" by linarith
  then show ?thesis
  proof cases
    case 2
    then have "round64 (- y) \<le> round64 (- x)" using assms by (intro round64_mono_pos) auto
    then show ?thesis by (simp add: round64_minus)
  next
    case 3
    then show ?thesis using round64_nonneg [of y] round64_nonneg [of "- x"]
      by (simp add: round64_minus)
  qed (use assms in \<open>auto intro: round64_mono_pos\<close>)
qed

text \<open>One rounding moves a value by at most half a unit in the last place.\<close>

lemma round64_error: "\<bar>round64 q - q\<bar> \<le> \<bar>q\<bar> * 2 powi (- 53) + 2 powi (- 1075)"
proof (cases "q = 0")
  case False
  let ?u = "(2::rat) powi last_place q"
  have "\<bar>round64 q - q\<bar> = \<bar>of_int (round_half_even (q / ?u)) - q / ?u\<bar> * ?u"
    using False by (simp add: round64_def Let_def abs_mult_pos field_simps flip: abs_mult)
  also have "\<dots> \<le> 1/2 * ?u" by (intro mult_right_mono rhe_error) simp
  also have "?u \<le> 2 powi (ilog2 \<bar>q\<bar> - 52) + 2 powi (- 1074)"
    by (auto simp: last_place_def max_def)
  also have "2 powi (ilog2 \<bar>q\<bar> - 52) \<le> \<bar>q\<bar> * 2 powi (- 52)"
    using ilog2_bracket(1) [of "\<bar>q\<bar>"] False by (simp add: power_int_diff power_int_minus field_simps)
  finally have "\<bar>round64 q - q\<bar> \<le> 1/2 * (\<bar>q\<bar> * 2 powi (- 52) + 2 powi (- 1074))" by simp
  also have "\<dots> = \<bar>q\<bar> * 2 powi (- 53) + 2 powi (- 1075)"
    by (simp add: power_int_minus field_simps)
  finally show ?thesis .
qed simp

section \<open>Values and operations\<close>

datatype f64 = Fin rat | PInf | NInf | NaN

definition f64_limit :: rat where
  "f64_limit = 2 powi 1024"

text \<open>The correctly rounded \<open>f64\<close> of an exact result, overflowing to an infinity.\<close>

definition to_f64 :: "rat \<Rightarrow> f64" where
  "to_f64 q = (let r = round64 q
               in if f64_limit \<le> r then PInf else if r \<le> - f64_limit then NInf else Fin r)"

text \<open>Rust's \<open>as f64\<close> on an integer.\<close>

definition f64_of_int :: "int \<Rightarrow> f64" where
  "f64_of_int i = to_f64 (of_int i)"

instantiation f64 :: "{ord, plus, times, uminus}"
begin

fun less_eq_f64 :: "f64 \<Rightarrow> f64 \<Rightarrow> bool" where
  "less_eq_f64 NaN y = False"
| "less_eq_f64 x NaN = False"
| "less_eq_f64 NInf y = True"
| "less_eq_f64 x PInf = True"
| "less_eq_f64 (Fin a) (Fin b) = (a \<le> b)"
| "less_eq_f64 x y = False"

definition less_f64 :: "f64 \<Rightarrow> f64 \<Rightarrow> bool" where
  "less_f64 x y = (x \<le> y \<and> \<not> y \<le> x)"

fun plus_f64 :: "f64 \<Rightarrow> f64 \<Rightarrow> f64" where
  "plus_f64 (Fin a) (Fin b) = to_f64 (a + b)"
| "plus_f64 NaN y = NaN"
| "plus_f64 x NaN = NaN"
| "plus_f64 PInf y = (if y = NInf then NaN else PInf)"
| "plus_f64 NInf y = (if y = PInf then NaN else NInf)"
| "plus_f64 x y = y"

text \<open>An infinity times \<open>Fin a\<close> has the sign of \<open>a\<close>; times zero it is not a number.\<close>

definition inf_with_sign :: "rat \<Rightarrow> f64" where
  "inf_with_sign s = (if s = 0 then NaN else if 0 < s then PInf else NInf)"

fun times_f64 :: "f64 \<Rightarrow> f64 \<Rightarrow> f64" where
  "times_f64 (Fin a) (Fin b) = to_f64 (a * b)"
| "times_f64 NaN y = NaN"
| "times_f64 x NaN = NaN"
| "times_f64 PInf y = (case y of Fin b \<Rightarrow> inf_with_sign b | _ \<Rightarrow> y)"
| "times_f64 NInf y =
     (case y of Fin b \<Rightarrow> inf_with_sign (- b) | PInf \<Rightarrow> NInf | NInf \<Rightarrow> PInf | NaN \<Rightarrow> NaN)"
| "times_f64 (Fin a) y = (if y = PInf then inf_with_sign a else inf_with_sign (- a))"

fun uminus_f64 :: "f64 \<Rightarrow> f64" where
  "uminus_f64 (Fin a) = Fin (- a)"
| "uminus_f64 PInf = NInf"
| "uminus_f64 NInf = PInf"
| "uminus_f64 NaN = NaN"

instance ..

end

text \<open>Division. A zero divisor counts as positive zero; the sources never divide by zero.\<close>

fun f_div :: "f64 \<Rightarrow> f64 \<Rightarrow> f64" where
  "f_div (Fin a) (Fin b) = (if b = 0 then inf_with_sign a else to_f64 (a / b))"
| "f_div NaN y = NaN"
| "f_div x NaN = NaN"
| "f_div (Fin a) y = Fin 0"
| "f_div PInf (Fin b) = (if b < 0 then NInf else PInf)"
| "f_div NInf (Fin b) = (if b < 0 then PInf else NInf)"
| "f_div x y = NaN"

fun is_finite :: "f64 \<Rightarrow> bool" where
  "is_finite (Fin q) = True"
| "is_finite x = False"

text \<open>\<open>f64::clamp\<close>, for a lower bound that is not above the upper one.\<close>

definition f_clamp :: "f64 \<Rightarrow> f64 \<Rightarrow> f64 \<Rightarrow> f64" where
  "f_clamp x lo hi = (let y = (if x < lo then lo else x) in if hi < y then hi else y)"

section \<open>Order facts\<close>

lemma f64_le_refl: "x \<noteq> NaN \<Longrightarrow> x \<le> (x::f64)"
  by (cases x) auto

lemma f64_le_trans: "x \<le> y \<Longrightarrow> y \<le> z \<Longrightarrow> x \<le> (z::f64)"
  by (cases x; cases y; cases z) auto

lemma f64_le_notNaN: "x \<le> y \<Longrightarrow> x \<noteq> NaN \<and> y \<noteq> (NaN::f64)"
  by (cases x; cases y) auto

lemma f64_le_linear: "x \<noteq> NaN \<Longrightarrow> y \<noteq> NaN \<Longrightarrow> x \<le> y \<or> y \<le> (x::f64)"
  by (cases x; cases y) auto

lemma to_f64_notNaN [simp]: "to_f64 q \<noteq> NaN"
  by (simp add: to_f64_def Let_def)

lemma f64_limit_pos: "0 < f64_limit"
  by (simp add: f64_limit_def)

lemma to_f64_mono [fp_mono]: "x \<le> y \<Longrightarrow> to_f64 x \<le> to_f64 y"
  using round64_mono [of x y] f64_limit_pos by (auto simp: to_f64_def Let_def)

lemma to_f64_le_PInf [simp]: "to_f64 q \<le> PInf" and NInf_le_to_f64 [simp]: "NInf \<le> to_f64 q"
  by (cases "to_f64 q"; simp)+

lemma f64_add_mono [fp_mono]:
  fixes x y :: f64
  shows "x \<le> x' \<Longrightarrow> y \<le> y' \<Longrightarrow> x + y \<noteq> NaN \<Longrightarrow> x' + y' \<noteq> NaN \<Longrightarrow> x + y \<le> x' + y'"
  by (cases x; cases x'; cases y; cases y') (auto intro: to_f64_mono simp: add_mono)

lemma f64_mul_mono [fp_mono]:
  fixes x w :: f64
  shows "x \<le> x' \<Longrightarrow> Fin 0 \<le> w \<Longrightarrow> x * w \<noteq> NaN \<Longrightarrow> x' * w \<noteq> NaN \<Longrightarrow> x * w \<le> x' * w"
  by (cases x; cases x'; cases w)
    (auto intro: to_f64_mono mult_right_mono simp: inf_with_sign_def split: if_splits)

lemma f64_div_mono [fp_mono]: "x \<le> x' \<Longrightarrow> 0 < d \<Longrightarrow> f_div x (Fin d) \<le> f_div x' (Fin d)"
  by (cases x; cases x') (auto intro!: to_f64_mono divide_right_mono)

lemma f64_neg_antimono: "x \<le> y \<Longrightarrow> - y \<le> - (x::f64)"
  by (cases x; cases y) auto

lemma f_clamp_mono [fp_mono]:
  "x \<le> x' \<Longrightarrow> f_clamp x (Fin l) (Fin h) \<le> f_clamp x' (Fin l) (Fin h)"
  by (cases x; cases x') (auto simp: f_clamp_def less_f64_def Let_def)

section \<open>Ranges\<close>

text \<open>A finite value between two bounds; the bounds that survive a rounding are the \<open>f64\<close> ones.\<close>

definition f_between :: "rat \<Rightarrow> f64 \<Rightarrow> rat \<Rightarrow> bool" where
  "f_between lo x hi \<longleftrightarrow> (case x of Fin q \<Rightarrow> lo \<le> q \<and> q \<le> hi | _ \<Rightarrow> False)"

definition is_double :: "rat \<Rightarrow> bool" where
  "is_double q \<longleftrightarrow> round64 q = q \<and> \<bar>q\<bar> < f64_limit"

lemma to_f64_double: "is_double q \<Longrightarrow> to_f64 q = Fin q"
  by (auto simp: is_double_def to_f64_def Let_def abs_less_iff)

lemma is_double_of_int: "\<bar>m\<bar> < 2 ^ 53 \<Longrightarrow> is_double (of_int m)"
proof -
  assume m: "\<bar>m\<bar> < 2 ^ 53"
  then have "\<bar>rat_of_int m\<bar> < 2 powi 53"
    by (metis of_int_abs of_int_less_numeral_power_cancel_iff power_int_numeral)
  also have "(2::rat) powi 53 \<le> f64_limit" unfolding f64_limit_def by (rule powi_mono) simp
  finally show ?thesis using m by (simp add: is_double_def round64_of_int)
qed

lemma is_double_numeral: "(numeral n :: int) < 2 ^ 53 \<Longrightarrow> is_double (numeral n)"
  and is_double_neg_numeral: "(numeral n :: int) < 2 ^ 53 \<Longrightarrow> is_double (- numeral n)"
  and is_double_zero: "is_double 0" and is_double_one: "is_double 1"
  using is_double_of_int [of "numeral n"] is_double_of_int [of "- numeral n"]
    is_double_of_int [of 0] is_double_of_int [of 1] by simp_all

lemmas double_literals = is_double_numeral is_double_neg_numeral is_double_zero is_double_one

lemma to_f64_between:
  assumes "is_double lo" "is_double hi" "lo \<le> q" "q \<le> hi"
  shows "f_between lo (to_f64 q) hi"
proof -
  have "lo \<le> round64 q" "round64 q \<le> hi"
    using round64_mono [OF assms(3)] round64_mono [OF assms(4)] assms(1,2) by (auto simp: is_double_def)
  then show ?thesis using assms(1,2) by (auto simp: to_f64_def f_between_def is_double_def Let_def)
qed

lemma to_f64_small:
  assumes "\<bar>q\<bar> \<le> 4503599627370496"
  shows "to_f64 q = Fin (round64 q)"
proof -
  have "f_between (- 4503599627370496) (to_f64 q) 4503599627370496"
    using assms by (intro to_f64_between) (auto simp: double_literals abs_le_iff)
  then show ?thesis by (auto simp: to_f64_def f_between_def Let_def split: if_splits)
qed

lemma f_between_nonneg: "f_between 0 x b \<Longrightarrow> Fin 0 \<le> x"
  by (cases x) (auto simp: f_between_def)

lemma f_between_finite: "f_between a x b \<Longrightarrow> is_finite x"
  by (cases x) (auto simp: f_between_def)

lemma is_double_half: "is_double (1/2)"
proof -
  have "(1/2 :: rat) < 2 powi 1" by simp
  also have "(2::rat) powi 1 \<le> f64_limit" unfolding f64_limit_def by (rule powi_mono) simp
  finally have "(1/2 :: rat) < f64_limit" .
  moreover have "(2::rat) powi (- 1) = 1/2" by (simp add: power_int_minus)
  then have "round64 (1/2) = 1/2" using round64_powi [of "- 1"] by simp
  ultimately show ?thesis by (simp add: is_double_def)
qed

lemma f_between_add:
  assumes "f_between a x b" "f_between c y d" "is_double lo" "is_double hi" "lo \<le> a + c" "b + d \<le> hi"
  shows "f_between lo (x + y) hi"
  using assms by (cases x; cases y) (auto simp: f_between_def [of a] f_between_def [of c] intro!: to_f64_between)

lemma f_between_mul:
  assumes "f_between 0 x b" "f_between 0 y d" "is_double hi" "b * d \<le> hi"
  shows "f_between 0 (x * y) hi"
proof -
  from assms(1,2) obtain p q where xy: "x = Fin p" "y = Fin q" "0 \<le> p" "p \<le> b" "0 \<le> q" "q \<le> d"
    by (auto simp: f_between_def split: f64.splits)
  then have "p * q \<le> b * d" by (intro mult_mono) auto
  then have "f_between 0 (to_f64 (p * q)) hi"
    using xy assms(3,4) by (intro to_f64_between is_double_zero) auto
  then show ?thesis using xy by simp
qed

lemma f_between_mul_abs:
  assumes "f_between (- b) x b" "f_between (- d) y d" "is_double hi" "is_double (- hi)" "b * d \<le> hi"
  shows "f_between (- hi) (x * y) hi"
proof -
  from assms(1,2) obtain p q where xy: "x = Fin p" "y = Fin q" "\<bar>p\<bar> \<le> b" "\<bar>q\<bar> \<le> d"
    by (auto simp: f_between_def abs_le_iff split: f64.splits)
  then have "\<bar>p\<bar> * \<bar>q\<bar> \<le> b * d" by (intro mult_mono) auto
  then have "\<bar>p * q\<bar> \<le> hi" using assms(5) by (simp add: abs_mult)
  then have "f_between (- hi) (to_f64 (p * q)) hi"
    using assms(3,4) by (intro to_f64_between) (auto simp: abs_le_iff)
  then show ?thesis using xy by simp
qed

lemma f_between_neg: "f_between a x b \<Longrightarrow> f_between (- b) (- x) (- a)"
  by (cases x) (auto simp: f_between_def)

lemma f_between_weaken: "f_between a x b \<Longrightarrow> c \<le> a \<Longrightarrow> b \<le> d \<Longrightarrow> f_between c x d"
  by (cases x) (auto simp: f_between_def)

lemma f_between_notNaN: "f_between a x b \<Longrightarrow> x \<noteq> NaN"
  by (auto simp: f_between_def)

lemma f_clamp_between:
  "x \<noteq> NaN \<Longrightarrow> l \<le> h \<Longrightarrow> f_between l (f_clamp x (Fin l) (Fin h)) h"
  by (cases x) (auto simp: f_clamp_def f_between_def less_f64_def Let_def)

end
