(* ===== verification/Event.thy ===== *)
theory Event
  imports Prelude
begin

text \<open>
  The payment event and its validation (\<open>apps/risk-worker/src/model.rs\<close>, \<open>PaymentEvent\<close>), the
  same checks as the Go gateway performs at ingress (\<open>apps/gateway/internal/model/event.go\<close>), and
  the proof that the two services accept the same events.
\<close>

section \<open>The worker's event\<close>

record payment_event =
  event_id :: string
  amount_cents :: i64
  currency :: string
  merchant_category :: i32
  country :: string
  card_present :: bool
  hour_utc :: i32
  velocity_5m :: i32
  velocity_1h :: i32
  prior_declines :: i32

definition id_byte :: "char \<Rightarrow> bool" where
  "id_byte c \<longleftrightarrow> ascii_alphanumeric c \<or> c \<in> set ''_-.:''"

definition valid :: "payment_event \<Rightarrow> bool" where
  "valid e \<longleftrightarrow>
     event_id e \<noteq> [] \<and>
     length (event_id e) \<le> 128 \<and>
     list_all id_byte (event_id e) \<and>
     0 \<le> sint (amount_cents e) \<and>
     length (currency e) = 3 \<and>
     list_all ascii_upper (currency e) \<and>
     length (country e) = 2 \<and>
     list_all ascii_upper (country e) \<and>
     (0 \<le> sint (merchant_category e) \<and> sint (merchant_category e) \<le> 9999) \<and>
     (0 \<le> sint (hour_utc e) \<and> sint (hour_utc e) \<le> 23) \<and>
     0 \<le> sint (velocity_5m e) \<and>
     0 \<le> sint (velocity_1h e) \<and>
     0 \<le> sint (prior_declines e)"

text \<open>The event that the unit tests of the crate and the smoke test send.\<close>

definition sample_event :: payment_event where
  "sample_event =
     \<lparr>event_id = ''test'', amount_cents = 2500, currency = ''USD'', merchant_category = 5812,
      country = ''US'', card_present = True, hour_utc = 12, velocity_5m = 1, velocity_1h = 2,
      prior_declines = 0\<rparr>"

lemma sample_event_valid: "valid sample_event"
  by code_simp

section \<open>The gateway's checks\<close>

text \<open>
  Go's \<open>range\<close> over a string yields code points: UTF-8 is decoded, and a byte that starts no valid
  encoding yields U+FFFD and is one byte wide.
\<close>

definition cont :: "nat \<Rightarrow> nat \<Rightarrow> char \<Rightarrow> bool" where
  "cont lo hi c \<longleftrightarrow> lo \<le> byte c \<and> byte c \<le> hi"

definition rune_error :: nat where
  "rune_error = 65533"

text \<open>The rune at the head of a string and its width, as \<open>utf8.DecodeRuneInString\<close> finds them.\<close>

definition decode_rune :: "char \<Rightarrow> string \<Rightarrow> nat \<times> nat" where
  "decode_rune c cs =
     (let b0 = byte c; x = (\<lambda>i. byte (cs ! i) - 128); has = (\<lambda>n. n \<le> length cs);
          low = (if b0 = 224 then 160 else if b0 = 240 then 144 else 128);
          high = (if b0 = 237 then 159 else if b0 = 244 then 143 else 191)
      in if b0 < 128 then (b0, 1)
         else if 194 \<le> b0 \<and> b0 \<le> 223 \<and> has 1 \<and> cont 128 191 (cs ! 0)
           then (64 * (b0 - 192) + x 0, 2)
         else if 224 \<le> b0 \<and> b0 \<le> 239 \<and> has 2 \<and> cont low high (cs ! 0) \<and> cont 128 191 (cs ! 1)
           then (4096 * (b0 - 224) + 64 * x 0 + x 1, 3)
         else if 240 \<le> b0 \<and> b0 \<le> 244 \<and> has 3 \<and> cont low high (cs ! 0) \<and> cont 128 191 (cs ! 1)
              \<and> cont 128 191 (cs ! 2)
           then (262144 * (b0 - 240) + 4096 * x 0 + 64 * x 1 + x 2, 4)
         else (rune_error, 1))"

lemma decode_rune_width: "0 < snd (decode_rune c cs)"
  by (simp add: decode_rune_def Let_def)

function runes :: "string \<Rightarrow> nat list" where
  "runes [] = []"
| "runes (c # cs) = (let (r, w) = decode_rune c cs in r # runes (drop (w - 1) cs))"
  by pat_completeness auto
termination by (relation "measure length") auto

definition rune_upper :: "nat \<Rightarrow> bool" where
  "rune_upper r \<longleftrightarrow> \<not> (r < 65 \<or> 90 < r)"

definition rune_id :: "nat \<Rightarrow> bool" where
  "rune_id r \<longleftrightarrow>
     97 \<le> r \<and> r \<le> 122 \<or> 65 \<le> r \<and> r \<le> 90 \<or> 48 \<le> r \<and> r \<le> 57 \<or>
     r = 95 \<or> r = 45 \<or> r = 46 \<or> r = 58"

definition upperASCII :: "string \<Rightarrow> nat \<Rightarrow> bool" where
  "upperASCII s n = (if length s \<noteq> n then False else list_all rune_upper (runes s))"

text \<open>The checks of \<open>Decode\<close> on the unmarshalled event, in its order, with its error texts.\<close>

definition go_validate :: "payment_event \<Rightarrow> string + payment_event" where
  "go_validate e =
     (if length (event_id e) = 0 \<or> 128 < length (event_id e)
        then Inl ''event_id must have 1 to 128 characters''
      else if \<not> list_all rune_id (runes (event_id e)) then Inl ''invalid event_id''
      else if sint (amount_cents e) < 0 then Inl ''amount_cents must be non-negative''
      else if \<not> upperASCII (currency e) 3 \<or> \<not> upperASCII (country e) 2
        then Inl ''currency and country require uppercase codes''
      else if sint (merchant_category e) < 0 \<or> 9999 < sint (merchant_category e)
        then Inl ''invalid merchant_category''
      else if sint (hour_utc e) < 0 \<or> 23 < sint (hour_utc e)
        then Inl ''hour_utc must be between 0 and 23''
      else if sint (velocity_5m e) < 0 \<or> sint (velocity_1h e) < 0 \<or> sint (prior_declines e) < 0
        then Inl ''counts must be non-negative''
      else Inr e)"

section \<open>Bytes against code points\<close>

lemma decode_rune_ascii: "byte c < 128 \<Longrightarrow> decode_rune c cs = (byte c, 1)"
  by (simp add: decode_rune_def Let_def)

lemma runes_ascii: "list_all (\<lambda>c. byte c < 128) s \<Longrightarrow> runes s = map byte s"
  by (induction s) (simp_all add: decode_rune_ascii)

lemma two_byte_high: "194 \<le> b \<Longrightarrow> 128 \<le> 64 * (b - 192) + (x::nat)"
  by linarith

lemma three_byte_high:
  "224 \<le> b \<Longrightarrow> (if b = 224 then 160 else n) \<le> y \<Longrightarrow> 128 \<le> 4096 * (b - 224) + 64 * (y - 128) + (x::nat)"
  by (cases "b = 224") auto

lemma four_byte_high:
  "240 \<le> b \<Longrightarrow> (if b = 240 then 144 else n) \<le> y \<Longrightarrow>
   128 \<le> 262144 * (b - 240) + 4096 * (y - 128) + 64 * z + (x::nat)"
  by (cases "b = 240") auto

lemma if_chain4:
  assumes "\<not> A" "B \<Longrightarrow> P x" "C \<Longrightarrow> P y" "D \<Longrightarrow> P z" "P w"
  shows "P (if A then v else if B then x else if C then y else if D then z else w)"
  using assms by simp

lemma decode_rune_high:
  assumes "128 \<le> byte c"
  shows "128 \<le> fst (decode_rune c cs)"
  unfolding decode_rune_def Let_def
proof (rule if_chain4 [where P = "\<lambda>p. 128 \<le> fst p"], goal_cases)
  case 1 show ?case using assms by simp
next
  case 2 then show ?case unfolding fst_conv by (intro two_byte_high) blast
next
  case 3
  then have "224 \<le> byte c" "(if byte c = 224 then 160 else 0) \<le> byte (cs ! 0)"
    by (auto simp: cont_def)
  then show ?case unfolding fst_conv by (rule three_byte_high)
next
  case 4
  then have "240 \<le> byte c" "(if byte c = 240 then 144 else 0) \<le> byte (cs ! 0)"
    by (auto simp: cont_def)
  then show ?case unfolding fst_conv by (rule four_byte_high)
next
  case 5 show ?case by (simp add: rune_error_def)
qed

text \<open>A rune below 128 is a one-byte encoding, so a string of such runes is the string of its bytes.\<close>

lemma runes_low: "list_all (\<lambda>r. r < 128) (runes s) \<Longrightarrow> list_all (\<lambda>c. byte c < 128) s"
proof (induction s rule: runes.induct)
  case (2 c cs)
  obtain r w where rw: "decode_rune c cs = (r, w)" by fastforce
  with "2.prems" have "r < 128" by simp
  with rw have c: "byte c < 128" using decode_rune_high [of c cs] by fastforce
  then have w: "w = 1" using rw by (simp add: decode_rune_def)
  with "2.IH" [OF rw [symmetric]] "2.prems" rw c show ?case by simp
qed simp

lemma runes_all_iff:
  assumes "\<And>r. P r \<Longrightarrow> r < 128"
  shows "list_all P (runes s) \<longleftrightarrow> list_all (\<lambda>c. P (byte c)) s"
proof
  assume P: "list_all P (runes s)"
  then have "list_all (\<lambda>r. r < 128) (runes s)" using assms by (auto simp: list_all_iff)
  then have "runes s = map byte s" by (intro runes_ascii runes_low)
  with P show "list_all (\<lambda>c. P (byte c)) s" by (simp add: list_all_iff)
next
  assume P: "list_all (\<lambda>c. P (byte c)) s"
  then have "list_all (\<lambda>c. byte c < 128) s" using assms by (auto simp: list_all_iff)
  with P show "list_all P (runes s)" by (simp add: runes_ascii list_all_iff)
qed

lemma byte_eq_iff: "byte c = byte d \<longleftrightarrow> c = d"
  by (metis char_of_char)

lemma id_byte_rune: "rune_id (byte c) \<longleftrightarrow> id_byte c"
proof -
  have "(95::nat) = byte (CHR ''_'')" "(45::nat) = byte (CHR ''-'')"
    "(46::nat) = byte (CHR ''.'')" "(58::nat) = byte (CHR '':'')" by simp_all
  then have "(byte c = 95 \<longleftrightarrow> c = CHR ''_'') \<and> (byte c = 45 \<longleftrightarrow> c = CHR ''-'')
    \<and> (byte c = 46 \<longleftrightarrow> c = CHR ''.'') \<and> (byte c = 58 \<longleftrightarrow> c = CHR '':'')"
    by (metis byte_eq_iff)
  then show ?thesis
    by (auto simp: rune_id_def id_byte_def ascii_alphanumeric_def ascii_lower_def ascii_upper_def
        ascii_digit_def)
qed

lemma runes_id_iff: "list_all rune_id (runes s) \<longleftrightarrow> list_all id_byte s"
proof -
  have "list_all rune_id (runes s) \<longleftrightarrow> list_all (\<lambda>c. rune_id (byte c)) s"
    by (rule runes_all_iff) (auto simp: rune_id_def)
  then show ?thesis by (simp add: id_byte_rune)
qed

lemma runes_upper_iff: "list_all rune_upper (runes s) \<longleftrightarrow> list_all ascii_upper s"
proof -
  have "list_all rune_upper (runes s) \<longleftrightarrow> list_all (\<lambda>c. rune_upper (byte c)) s"
    by (rule runes_all_iff) (auto simp: rune_upper_def)
  moreover have "(\<lambda>c. rune_upper (byte c)) = ascii_upper"
    by (auto simp: fun_eq_iff rune_upper_def ascii_upper_def)
  ultimately show ?thesis by simp
qed

section \<open>The two services agree\<close>

lemma go_validate_iff: "go_validate e = Inr e' \<longleftrightarrow> valid e \<and> e' = e"
  by (auto simp: go_validate_def valid_def upperASCII_def runes_id_iff runes_upper_iff not_less not_le)

text \<open>
  C25. The gateway and the worker accept the same events: the checks of the Go \<open>Decode\<close> succeed on an
  event exactly when the Rust \<open>valid\<close> holds of it, and then return the event unchanged, although the
  one ranges over code points and the other over bytes.
\<close>

theorem gateway_worker_same_events: "go_validate e = Inr e' \<longleftrightarrow> valid e \<and> e' = e"
  by (rule go_validate_iff)

end
