(* ===== verification/Scoring.thy ===== *)
theory Scoring
  imports Event Float64
begin

text \<open>
  The embedded logistic model (\<open>apps/risk-worker/src/model.rs\<close>): the artifact and its startup checks
  (\<open>parameters\<close>), the feature transform (\<open>features\<close>) and the calibrated score (\<open>score\<close>), all in
  binary64 arithmetic. Two things the crate takes from elsewhere are arguments: the parse of the
  artifact by \<open>serde_json\<close>, as an optional \<open>model\<close>, and the platform's exponential \<open>fexp\<close>.
\<close>

section \<open>Sums of products over an ordered arithmetic\<close>

text \<open>
  What the score needs from its arithmetic: addition, and multiplication by a factor that is not
  negative, keep the order wherever they yield a number, and an undefined term makes a sum undefined.
\<close>

locale ordered_arith =
  fixes le :: "'a \<Rightarrow> 'a \<Rightarrow> bool"
    and add :: "'a \<Rightarrow> 'a \<Rightarrow> 'a"
    and mul :: "'a \<Rightarrow> 'a \<Rightarrow> 'a"
    and zero :: 'a
    and undef :: 'a
  assumes add_mono: "le x x' \<Longrightarrow> le y y' \<Longrightarrow> add x y \<noteq> undef \<Longrightarrow> add x' y' \<noteq> undef \<Longrightarrow>
      le (add x y) (add x' y')"
    and mul_mono: "le x x' \<Longrightarrow> le zero w \<Longrightarrow> mul x w \<noteq> undef \<Longrightarrow> mul x' w \<noteq> undef \<Longrightarrow>
      le (mul x w) (mul x' w)"
    and add_undef: "add undef y = undef" "add x undef = undef"
begin

lemma sum_undef: "foldl add undef xs = undef"
  by (induction xs) (simp_all add: add_undef)

lemma sum_defined: "foldl add a xs \<noteq> undef \<Longrightarrow> a \<noteq> undef \<and> undef \<notin> set xs"
  by (induction xs arbitrary: a) (auto simp: sum_undef add_undef)

lemma sum_mono:
  "list_all2 le xs ys \<Longrightarrow> le a b \<Longrightarrow> foldl add a xs \<noteq> undef \<Longrightarrow> foldl add b ys \<noteq> undef \<Longrightarrow>
   le (foldl add a xs) (foldl add b ys)"
proof (induction xs ys arbitrary: a b rule: list_all2_induct)
  case (Cons x xs y ys)
  then have "add a x \<noteq> undef" "add b y \<noteq> undef" using sum_defined by fastforce+
  with Cons show ?case by (auto intro: add_mono)
qed simp

lemma dot_mono:
  assumes "list_all2 le xs ys" "list_all (le zero) ws" "le a a"
    and "foldl add a (map2 mul xs ws) \<noteq> undef" "foldl add a (map2 mul ys ws) \<noteq> undef"
  shows "le (foldl add a (map2 mul xs ws)) (foldl add a (map2 mul ys ws))"
proof (rule sum_mono [OF _ assms(3-5)])
  have d: "undef \<notin> set (map2 mul xs ws)" "undef \<notin> set (map2 mul ys ws)"
    using sum_defined [OF assms(4)] sum_defined [OF assms(5)] by blast+
  have len: "length xs = length ys" using assms(1) by (rule list_all2_lengthD)
  show "list_all2 le (map2 mul xs ws) (map2 mul ys ws)"
  proof (rule list_all2_all_nthI)
    fix n assume n: "n < length (map2 mul xs ws)"
    then have "mul (xs ! n) (ws ! n) \<in> set (map2 mul xs ws)" "mul (ys ! n) (ws ! n) \<in> set (map2 mul ys ws)"
      using len by (auto simp: set_zip image_iff)
    with d have "mul (xs ! n) (ws ! n) \<noteq> undef" "mul (ys ! n) (ws ! n) \<noteq> undef" by metis+
    then show "le (map2 mul xs ws ! n) (map2 mul ys ws ! n)"
      using n len assms(1,2) by (auto intro!: mul_mono simp: list_all2_conv_all_nth list_all_length)
  qed (use len in simp)
qed

end

interpretation fp: ordered_arith "(\<le>)" "(+)" "(*)" "Fin 0" NaN
proof unfold_locales
  fix y :: f64
  show "NaN + y = NaN" "y + NaN = NaN" by (cases y; simp)+
qed (auto intro: f64_add_mono f64_mul_mono)

section \<open>The model\<close>

record model =
  schema_version :: u32
  feature_version :: string
  feature_names :: "string list"
  model_version :: string
  weights :: "f64 list"
  intercept :: f64
  calibration_slope :: f64
  calibration_intercept :: f64
  threshold :: f64

text \<open>
  \<open>parameters\<close> receives the parsed artifact (\<open>None\<close> when \<open>serde_json\<close> rejects it) and returns it if
  every assertion holds; \<open>None\<close> is the panic.
\<close>

definition parameters :: "model option \<Rightarrow> model option" where
  "parameters parsed =
     (case parsed of
        None \<Rightarrow> None
      | Some m \<Rightarrow>
          if schema_version m \<noteq> 1 then None
          else if feature_version m \<noteq> ''payment-risk-v1'' then None
          else if feature_names m \<noteq>
            [''amount_100k'', ''night'', ''card_not_present'', ''non_us'', ''velocity_5m_10'',
             ''velocity_1h_30'', ''declines_5''] then None
          else if \<not> (list_all is_finite (weights m) \<and> is_finite (intercept m)) then None
          else if \<not> (is_finite (calibration_slope m) \<and> is_finite (calibration_intercept m)) then None
          else if \<not> (Fin 0 \<le> threshold m \<and> threshold m < Fin 1) then None
          else Some m)"

definition features :: "payment_event \<Rightarrow> f64 list" where
  "features e =
     [f_clamp (f_div (f64_of_int (sint (amount_cents e))) (Fin 100000)) (Fin 0) (Fin 10),
      if sint (hour_utc e) \<le> 5 \<or> 23 \<le> sint (hour_utc e) then Fin 1 else Fin 0,
      if card_present e then Fin 0 else Fin 1,
      if country e = ''US'' then Fin 0 else Fin 1,
      f_clamp (f_div (f64_of_int (sint (velocity_5m e))) (Fin 10)) (Fin 0) (Fin 10),
      f_clamp (f_div (f64_of_int (sint (velocity_1h e))) (Fin 30)) (Fin 0) (Fin 10),
      f_clamp (f_div (f64_of_int (sint (prior_declines e))) (Fin 5)) (Fin 0) (Fin 10)]"

record risk_decision =
  rd_event_id :: string
  rd_score :: f64
  rd_risky :: bool
  rd_model_version :: string

text \<open>The weighted sum \<open>z\<close> of \<open>score\<close>, and the calibrated logit inside the exponential.\<close>

definition raw_logit :: "model \<Rightarrow> payment_event \<Rightarrow> f64" where
  "raw_logit m e = intercept m + foldl (+) (Fin 0) (map2 (*) (features e) (weights m))"

definition logit :: "model \<Rightarrow> payment_event \<Rightarrow> f64" where
  "logit m e = raw_logit m e * calibration_slope m + calibration_intercept m"

definition score :: "(f64 \<Rightarrow> f64) \<Rightarrow> model \<Rightarrow> payment_event \<Rightarrow> risk_decision" where
  "score fexp m event =
     (let probability = f_div (Fin 1) (Fin 1 + fexp (- logit m event))
      in \<lparr>rd_event_id = event_id event, rd_score = probability,
          rd_risky = threshold m \<le> probability, rd_model_version = model_version m\<rparr>)"

section \<open>The exported artifact\<close>

text \<open>
  \<open>apps/risk-worker/model/model.json\<close>, with every decimal rounded to the nearest \<open>f64\<close>.
\<close>

definition artifact :: model where
  "artifact =
     \<lparr>schema_version = 1,
      feature_version = ''payment-risk-v1'',
      feature_names =
        [''amount_100k'', ''night'', ''card_not_present'', ''non_us'', ''velocity_5m_10'',
         ''velocity_1h_30'', ''declines_5''],
      model_version = ''logreg-calibrated-v2'',
      weights =
        [to_f64 (19520989945416278 / 10 ^ 16), to_f64 (10032294689549075 / 10 ^ 16),
         to_f64 (15015551911354097 / 10 ^ 16), to_f64 (12138027434282923 / 10 ^ 16),
         to_f64 (23241663320425854 / 10 ^ 16), to_f64 (8883783456280958 / 10 ^ 16),
         to_f64 (20913926772208615 / 10 ^ 16)],
      intercept = to_f64 (- 7936039213608149 / 10 ^ 15),
      calibration_slope = to_f64 (8986711543348067 / 10 ^ 16),
      calibration_intercept = to_f64 (- 3011111039811328 / 10 ^ 17),
      threshold = to_f64 (4739999999999999 / 10 ^ 16)\<rparr>"

section \<open>Features\<close>

lemma f64_of_int_mono [fp_mono]: "i \<le> j \<Longrightarrow> f64_of_int i \<le> f64_of_int j"
  by (simp add: f64_of_int_def to_f64_mono)

lemma f64_of_int_notNaN [simp]: "f64_of_int i \<noteq> NaN"
  by (simp add: f64_of_int_def)

text \<open>A count divided by its scale and saturated: the shape of the four numeric features.\<close>

definition saturated :: "int \<Rightarrow> rat \<Rightarrow> f64" where
  "saturated i d = f_clamp (f_div (f64_of_int i) (Fin d)) (Fin 0) (Fin 10)"

lemma features_saturated:
  "features e =
     [saturated (sint (amount_cents e)) 100000,
      if sint (hour_utc e) \<le> 5 \<or> 23 \<le> sint (hour_utc e) then Fin 1 else Fin 0,
      if card_present e then Fin 0 else Fin 1,
      if country e = ''US'' then Fin 0 else Fin 1,
      saturated (sint (velocity_5m e)) 10,
      saturated (sint (velocity_1h e)) 30,
      saturated (sint (prior_declines e)) 5]"
  by (simp add: features_def saturated_def)

lemma div_notNaN: "x \<noteq> NaN \<Longrightarrow> 0 < d \<Longrightarrow> f_div x (Fin d) \<noteq> NaN"
  by (cases x) auto

lemma saturated_between: "0 < d \<Longrightarrow> f_between 0 (saturated i d) 10"
  unfolding saturated_def by (intro f_clamp_between div_notNaN) auto

lemma saturated_mono: "i \<le> j \<Longrightarrow> 0 < d \<Longrightarrow> saturated i d \<le> saturated j d"
  unfolding saturated_def by (intro f_clamp_mono f64_div_mono f64_of_int_mono)

lemma saturated_refl: "0 < d \<Longrightarrow> saturated i d \<le> saturated i d"
  by (rule saturated_mono) simp

text \<open>From ten times the scale on, the feature is the cap itself.\<close>

lemma saturated_cap:
  assumes "k * 10 \<le> i" "0 < k" "k < 2 ^ 40"
  shows "saturated i (of_int k) = Fin 10"
proof -
  have "f64_of_int (k * 10) = Fin (of_int (k * 10))"
    unfolding f64_of_int_def using assms(2,3) by (intro to_f64_double is_double_of_int) auto
  moreover have "rat_of_int (k * 10) / of_int k = 10" using assms(2) by simp
  moreover have "to_f64 10 = Fin 10"
    by (intro to_f64_double is_double_numeral) simp
  ultimately have "f_div (f64_of_int (k * 10)) (Fin (of_int k)) = Fin 10"
    using assms(2) by (simp only: f_div.simps) simp
  moreover have "f_div (f64_of_int (k * 10)) (Fin (of_int k)) \<le> f_div (f64_of_int i) (Fin (of_int k))"
    using assms(1,2) by (intro f64_div_mono f64_of_int_mono) auto
  ultimately show ?thesis
    by (cases "f_div (f64_of_int i) (Fin (of_int k))")
      (auto simp: saturated_def f_clamp_def less_f64_def Let_def)
qed

lemma features_length [simp]: "length (features e) = 7"
  by (simp add: features_def)

lemma features_between: "x \<in> set (features e) \<Longrightarrow> f_between 0 x 10"
  by (auto simp: features_saturated f_between_def [of _ "Fin _"] intro: saturated_between split: if_splits)

section \<open>Ranges of the score\<close>

text \<open>
  The range of coefficients for which the bounds below are shown. It holds of the exported artifact
  with room to spare, so a retrained model of the same shape is covered too.
\<close>

definition serving_range :: "model \<Rightarrow> bool" where
  "serving_range m \<longleftrightarrow>
     length (weights m) = 7 \<and> list_all (\<lambda>w. f_between 0 w 4) (weights m) \<and>
     f_between (- 16) (intercept m) 16 \<and>
     f_between 0 (calibration_slope m) 2 \<and>
     f_between (- 4) (calibration_intercept m) 4"

lemma artifact_serving_range: "serving_range artifact"
  unfolding serving_range_def artifact_def by (simp add: to_f64_between double_literals)

lemma artifact_finite:
  "list_all is_finite (weights artifact)" "is_finite (intercept artifact)"
  "is_finite (calibration_slope artifact)" "is_finite (calibration_intercept artifact)"
  using artifact_serving_range by (auto simp: serving_range_def list_all_iff f_between_finite)

lemma artifact_threshold: "f_between 0 (threshold artifact) (1/2)"
  by (simp add: artifact_def to_f64_between is_double_zero is_double_half)

lemma artifact_accepted: "parameters (Some artifact) = Some artifact"
  using artifact_finite artifact_threshold
  by (simp add: parameters_def) (auto simp: artifact_def f_between_def less_f64_def split: f64.splits)

lemma sum_between:
  assumes "list_all (\<lambda>x. f_between 0 x 40) xs" "f_between 0 a (of_nat k * 40)" "k + length xs \<le> 1000"
  shows "f_between 0 (foldl (+) a xs) (of_nat (k + length xs) * 40)"
  using assms
proof (induction xs arbitrary: a k)
  case (Cons x xs)
  have "is_double (of_int (int (Suc k) * 40))" using Cons.prems(3) by (intro is_double_of_int) auto
  then have "f_between 0 (a + x) (of_nat (Suc k) * 40)"
    using Cons.prems by (intro f_between_add [of 0 a "of_nat k * 40" 0 x 40]) (auto simp: double_literals algebra_simps)
  from Cons.IH [OF _ this] Cons.prems show ?case by simp
qed simp

lemma products_between:
  assumes "list_all (\<lambda>w. f_between 0 w 4) ws"
  shows "list_all (\<lambda>x. f_between 0 x 40) (map2 (*) (features e) ws)"
  using assms features_between [of _ e]
  by (auto simp: list_all_iff double_literals dest: set_zip_leftD set_zip_rightD intro!: f_between_mul [of _ 10 _ 4])

lemma raw_logit_between:
  assumes "serving_range m"
  shows "f_between (- 296) (raw_logit m e) 296"
proof -
  have z: "f_between 0 (Fin 0) (of_nat 0 * 40)" by (simp add: f_between_def)
  have "f_between 0 (foldl (+) (Fin 0) (map2 (*) (features e) (weights m))) 280"
    using sum_between [OF products_between z, of "weights m" e] assms by (simp add: serving_range_def)
  then show ?thesis unfolding raw_logit_def using assms
    by (intro f_between_add [of "- 16" _ 16 0 _ 280]) (auto simp: serving_range_def double_literals)
qed

lemma logit_between:
  assumes "serving_range m"
  shows "f_between (- 596) (logit m e) 596"
proof -
  have "f_between (- 592) (raw_logit m e * calibration_slope m) 592"
    using raw_logit_between [OF assms] assms
    by (intro f_between_mul_abs [of 296 _ 2])
      (auto simp: serving_range_def double_literals intro: f_between_weaken)
  then show ?thesis unfolding logit_def using assms
    by (intro f_between_add [of "- 592" _ 592 "- 4" _ 4]) (auto simp: serving_range_def double_literals)
qed

lemma logit_Fin: "serving_range m \<Longrightarrow> \<exists>q. logit m e = Fin q \<and> \<bar>q\<bar> \<le> 596"
  using logit_between [of m e] by (auto simp: f_between_def abs_le_iff split: f64.splits)

text \<open>The exponential never returns a negative value or a non-number for a finite argument.\<close>

definition exp_nonneg :: "(f64 \<Rightarrow> f64) \<Rightarrow> bool" where
  "exp_nonneg fexp \<longleftrightarrow> (\<forall>q. Fin 0 \<le> fexp (Fin q))"

text \<open>A reference exponential: the exact value, truncated at the 1100th binary place.\<close>

definition exp_ref :: "f64 \<Rightarrow> f64" where
  "exp_ref x =
     (case x of
        Fin q \<Rightarrow>
          if \<bar>q\<bar> \<le> 600 then Fin (of_int \<lfloor>exp (real_of_rat q) * 2 ^ 1100\<rfloor> / 2 ^ 1100)
          else if 0 < q then PInf else Fin 0
      | PInf \<Rightarrow> PInf
      | NInf \<Rightarrow> Fin 0
      | NaN \<Rightarrow> NaN)"

lemma exp_ref_nonneg: "exp_nonneg exp_ref"
  by (auto simp: exp_nonneg_def exp_ref_def)

lemma sigmoid_range:
  assumes "Fin 0 \<le> x"
  shows "f_between 0 (f_div (Fin 1) (Fin 1 + x)) 1"
proof (cases "Fin 1 + x")
  case (Fin d)
  have "Fin 1 + Fin 0 \<le> Fin 1 + x"
    using assms by (intro f64_add_mono) (cases x; simp)+
  moreover have "Fin 1 + Fin 0 = Fin 1" by (simp add: to_f64_double double_literals)
  ultimately have "1 \<le> d" by (simp add: Fin)
  then have "f_between 0 (to_f64 (1 / d)) 1"
    by (intro to_f64_between) (auto simp: double_literals)
  then show ?thesis using \<open>1 \<le> d\<close> by (simp add: Fin)
next
  case NInf
  have "round64 (1 + q) \<le> - f64_limit \<Longrightarrow> \<not> 0 \<le> q" for q
    using round64_nonneg [of "1 + q"] f64_limit_pos by linarith
  with NInf show ?thesis using assms by (cases x) (auto simp: to_f64_def Let_def split: if_splits)
next
  case NaN
  then show ?thesis using assms by (cases x) auto
qed (simp add: f_between_def)

lemma score_range:
  assumes "serving_range m" "exp_nonneg fexp"
  shows "f_between 0 (rd_score (score fexp m e)) 1"
proof -
  obtain q where "logit m e = Fin q" using logit_Fin [OF assms(1)] by blast
  then have "Fin 0 \<le> fexp (- logit m e)" using assms(2) by (simp add: exp_nonneg_def)
  then have "f_between 0 (f_div (Fin 1) (Fin 1 + fexp (- logit m e))) 1" by (rule sigmoid_range)
  then show ?thesis by (simp add: score_def Let_def)
qed

text \<open>
  C22. Scoring is total and its result is a probability: for every event and every model in the
  serving range, with an exponential that is never negative, the score is a finite number between
  zero and one, the flag \<open>risky\<close> says whether it reaches the threshold, and the decision carries the
  event's identifier and the model's version.
\<close>

theorem score_is_probability:
  assumes "serving_range m" "exp_nonneg fexp"
  shows "\<exists>p. rd_score (score fexp m e) = Fin p \<and> 0 \<le> p \<and> p \<le> 1 \<and>
           rd_risky (score fexp m e) = (threshold m \<le> Fin p) \<and>
           rd_event_id (score fexp m e) = event_id e \<and>
           rd_model_version (score fexp m e) = model_version m"
  using score_range [OF assms, of e] by (auto simp: score_def Let_def f_between_def split: f64.splits)

theorem score_is_probability_witness:
  "\<exists>p. rd_score (score exp_ref artifact sample_event) = Fin p \<and> 0 \<le> p \<and> p \<le> 1 \<and>
     rd_risky (score exp_ref artifact sample_event) = (threshold artifact \<le> Fin p) \<and>
     rd_event_id (score exp_ref artifact sample_event) = event_id sample_event \<and>
     rd_model_version (score exp_ref artifact sample_event) = model_version artifact"
  by (rule score_is_probability [OF artifact_serving_range exp_ref_nonneg])

section \<open>The response to stronger risk features\<close>

definition night :: "payment_event \<Rightarrow> bool" where
  "night e \<longleftrightarrow> sint (hour_utc e) \<le> 5 \<or> 23 \<le> sint (hour_utc e)"

text \<open>One event shows at least the risk features of another; the other fields do not matter.\<close>

definition riskier :: "payment_event \<Rightarrow> payment_event \<Rightarrow> bool" where
  "riskier e e' \<longleftrightarrow>
     sint (amount_cents e) \<le> sint (amount_cents e') \<and> (night e \<longrightarrow> night e') \<and>
     (card_present e' \<longrightarrow> card_present e) \<and> (country e' = ''US'' \<longrightarrow> country e = ''US'') \<and>
     sint (velocity_5m e) \<le> sint (velocity_5m e') \<and> sint (velocity_1h e) \<le> sint (velocity_1h e') \<and>
     sint (prior_declines e) \<le> sint (prior_declines e')"

lemma features_mono: "riskier e e' \<Longrightarrow> list_all2 (\<le>) (features e) (features e')"
  unfolding riskier_def features_saturated night_def [symmetric] by (simp add: saturated_mono)

text \<open>
  C38. The rounded score is monotone: an event with at least the risk features of another has at
  least its calibrated logit, in \<open>f64\<close> arithmetic and without any slack for rounding. Fields the
  model does not use (currency, merchant category, identifier) have no influence.
\<close>

theorem logit_monotone:
  assumes "serving_range m" "riskier e e'"
  shows "logit m e \<le> logit m e'"
proof -
  have nn: "list_all ((\<le>) (Fin 0)) (weights m)" "Fin 0 \<le> calibration_slope m"
    using assms(1) by (auto simp: serving_range_def list_all_iff intro: f_between_nonneg)
  have def: "logit m x \<noteq> NaN" "raw_logit m x \<noteq> NaN" "raw_logit m x * calibration_slope m \<noteq> NaN" for x
  proof -
    show "logit m x \<noteq> NaN" using logit_Fin [OF assms(1)] by (metis f64.distinct(5))
    then show "raw_logit m x * calibration_slope m \<noteq> NaN" unfolding logit_def using fp.add_undef(1) by metis
    show "raw_logit m x \<noteq> NaN" using raw_logit_between [OF assms(1)] by (rule f_between_notNaN)
  qed
  have fold: "foldl (+) (Fin 0) (map2 (*) (features x) (weights m)) \<noteq> NaN" for x
    using def(2) [of x] unfolding raw_logit_def using fp.add_undef(2) by metis
  have i: "intercept m \<le> intercept m" "calibration_intercept m \<le> calibration_intercept m"
    using assms(1) by (auto simp: serving_range_def intro!: f64_le_refl f_between_notNaN)
  have "foldl (+) (Fin 0) (map2 (*) (features e) (weights m))
      \<le> foldl (+) (Fin 0) (map2 (*) (features e') (weights m))"
    by (rule fp.dot_mono [OF features_mono [OF assms(2)] nn(1)]) (simp_all add: fold)
  then have "raw_logit m e \<le> raw_logit m e'"
    unfolding raw_logit_def using def(2) i by (intro f64_add_mono) (auto simp: raw_logit_def)
  then have "raw_logit m e * calibration_slope m \<le> raw_logit m e' * calibration_slope m"
    by (rule f64_mul_mono) (rule nn(2) def(3))+
  then show ?thesis
    unfolding logit_def using def(1) i by (intro f64_add_mono) (auto simp: logit_def)
qed

theorem logit_monotone_witness:
  "logit artifact sample_event \<le> logit artifact (sample_event\<lparr>amount_cents := 900000, prior_declines := 5\<rparr>)"
proof (rule logit_monotone [OF artifact_serving_range])
  show "riskier sample_event (sample_event\<lparr>amount_cents := 900000, prior_declines := 5\<rparr>)"
    by (simp add: riskier_def sample_event_def night_def)
qed

text \<open>
  The transform saturates: from 1,000,000 cents on, the amount no longer changes the score, so
  a huge amount cannot overflow or dominate it.
\<close>

theorem score_saturates:
  assumes "1000000 \<le> sint a" "1000000 \<le> sint b"
  shows "score fexp m (e\<lparr>amount_cents := a\<rparr>) = score fexp m (e\<lparr>amount_cents := b\<rparr>)"
proof -
  have "saturated (sint x) (of_int 100000) = Fin 10" if "1000000 \<le> sint (x :: i64)" for x
    using that by (intro saturated_cap) auto
  then have "features (e\<lparr>amount_cents := a\<rparr>) = features (e\<lparr>amount_cents := b\<rparr>)"
    using assms by (simp add: features_saturated)
  then show ?thesis by (simp add: score_def logit_def raw_logit_def)
qed

theorem score_saturates_witness:
  "score exp_ref artifact (sample_event\<lparr>amount_cents := 1000000\<rparr>) =
   score exp_ref artifact (sample_event\<lparr>amount_cents := 9223372036854775807\<rparr>)"
  by (rule score_saturates) simp_all

end
