(* ===== verification/Accuracy.thy ===== *)
theory Accuracy
  imports Scoring
begin

text \<open>
  The rounded score against the exact one. \<open>ideal_score\<close> is the calibrated logistic model over the
  real numbers, with the same coefficients; the theorem bounds the distance of the served \<open>f64\<close>
  score from it. The bound is the tolerance \<open>1e-12\<close> that \<open>evals/risk_eval.py\<close> demands between the
  Rust score and its Python recomputation. Errors are counted in units \<open>u = 2 ^ -53\<close>.
\<close>

section \<open>The exact model\<close>

fun val :: "f64 \<Rightarrow> real" where
  "val (Fin q) = of_rat q"
| "val x = 0"

definition clipped :: "int \<Rightarrow> int \<Rightarrow> real" where
  "clipped i k = max 0 (min 10 (real_of_int i / real_of_int k))"

definition ideal_features :: "payment_event \<Rightarrow> real list" where
  "ideal_features e =
     [clipped (sint (amount_cents e)) 100000,
      if sint (hour_utc e) \<le> 5 \<or> 23 \<le> sint (hour_utc e) then 1 else 0,
      if card_present e then 0 else 1,
      if country e = ''US'' then 0 else 1,
      clipped (sint (velocity_5m e)) 10,
      clipped (sint (velocity_1h e)) 30,
      clipped (sint (prior_declines e)) 5]"

definition ideal_logit :: "model \<Rightarrow> payment_event \<Rightarrow> real" where
  "ideal_logit m e =
     (val (intercept m) + sum_list (map2 (*) (ideal_features e) (map val (weights m))))
       * val (calibration_slope m) + val (calibration_intercept m)"

definition sigmoid :: "real \<Rightarrow> real" where
  "sigmoid x = 1 / (1 + exp (- x))"

definition ideal_score :: "model \<Rightarrow> payment_event \<Rightarrow> real" where
  "ideal_score m e = sigmoid (ideal_logit m e)"

text \<open>
  The platform's exponential is accurate to 16 units in the last place on the range in which the
  score calls it. Rust leaves the precision of \<open>f64::exp\<close> to the platform's library.
\<close>

definition exp_accurate :: "(f64 \<Rightarrow> f64) \<Rightarrow> bool" where
  "exp_accurate fexp \<longleftrightarrow>
     (\<forall>q. \<bar>q\<bar> \<le> 600 \<longrightarrow>
        (\<exists>r. fexp (Fin q) = Fin r \<and>
             \<bar>real_of_rat r - exp (real_of_rat q)\<bar> \<le> exp (real_of_rat q) / 2 ^ 48))"

section \<open>Error propagation\<close>

definition u53 :: real where
  "u53 = 1 / 2 ^ 53"

lemma u53_pos [simp]: "0 < u53" "0 \<le> u53"
  by (simp_all add: u53_def)

definition near :: "f64 \<Rightarrow> real \<Rightarrow> real \<Rightarrow> bool" where
  "near x r E \<longleftrightarrow> (\<exists>q. x = Fin q \<and> \<bar>real_of_rat q - r\<bar> \<le> E)"

lemma near_Fin: "near (Fin q) (of_rat q) 0"
  by (simp add: near_def)

lemma near_weaken: "near x r E \<Longrightarrow> E \<le> F \<Longrightarrow> near x r F"
  by (auto simp: near_def)

lemma near_trans: "near x r E \<Longrightarrow> \<bar>r - s\<bar> \<le> F \<Longrightarrow> near x s (E + F)"
  by (auto simp: near_def)

lemma near_zero: "near (Fin 0) 0 (n * u53)" and near_one: "near (Fin 1) 1 (n * u53)" if "0 \<le> n"
  using that by (simp_all add: near_def)

lemma round64_error_real:
  "\<bar>real_of_rat (round64 q) - real_of_rat q\<bar> \<le> (\<bar>real_of_rat q\<bar> + 1) * u53"
proof -
  have p: "(2::rat) powi (- 53) = 1 / 2 ^ 53" by (simp add: power_int_minus)
  have "(2::rat) powi (- 1075) \<le> 2 powi (- 53)" by (rule powi_mono) simp
  with round64_error [of q] have "\<bar>round64 q - q\<bar> \<le> \<bar>q\<bar> * 2 powi (- 53) + 2 powi (- 53)" by linarith
  also have "\<dots> = (\<bar>q\<bar> + 1) * (1 / 2 ^ 53)" unfolding p by (simp add: algebra_simps)
  finally have "real_of_rat \<bar>round64 q - q\<bar> \<le> of_rat ((\<bar>q\<bar> + 1) * (1 / 2 ^ 53))"
    unfolding of_rat_less_eq .
  also have "\<dots> = (\<bar>real_of_rat q\<bar> + 1) * u53"
    by (simp add: u53_def of_rat_mult of_rat_add of_rat_divide of_rat_power)
  finally show ?thesis by (simp flip: of_rat_diff)
qed

lemma to_f64_near:
  assumes "\<bar>real_of_rat q\<bar> \<le> B" "B \<le> 1000000"
  shows "near (to_f64 q) (of_rat q) ((B + 1) * u53)"
proof -
  have "real_of_rat \<bar>q\<bar> \<le> real_of_rat 1000000" using assms by simp
  then have "\<bar>q\<bar> \<le> 1000000" unfolding of_rat_less_eq .
  then have "to_f64 q = Fin (round64 q)" by (intro to_f64_small) simp
  moreover have "(\<bar>real_of_rat q\<bar> + 1) * u53 \<le> (B + 1) * u53"
    using assms(1) by (intro mult_right_mono) auto
  then have "\<bar>real_of_rat (round64 q) - real_of_rat q\<bar> \<le> (B + 1) * u53"
    using round64_error_real [of q] by linarith
  ultimately show ?thesis by (simp add: near_def)
qed

lemma near_add:
  assumes "near x a E" "near y b F" "f_between (- B1) x B1" "f_between (- B2) y B2"
    and "B1 + B2 \<le> B" "B \<le> 1000000"
  shows "near (x + y) (a + b) (E + F + (of_rat B + 1) * u53)"
proof -
  from assms(1-4) obtain p q where pq: "x = Fin p" "y = Fin q" "\<bar>p\<bar> \<le> B1" "\<bar>q\<bar> \<le> B2"
    and e: "\<bar>of_rat p - a\<bar> \<le> E" "\<bar>of_rat q - b\<bar> \<le> F"
    by (auto simp: near_def f_between_def abs_le_iff)
  have "\<bar>p + q\<bar> \<le> B" using pq assms(5) by linarith
  then have "real_of_rat \<bar>p + q\<bar> \<le> of_rat B" unfolding of_rat_less_eq .
  moreover have "real_of_rat B \<le> of_rat 1000000" using assms(6) unfolding of_rat_less_eq .
  ultimately have "near (to_f64 (p + q)) (of_rat (p + q)) ((of_rat B + 1) * u53)"
    by (intro to_f64_near) simp_all
  moreover have "\<bar>real_of_rat (p + q) - (a + b)\<bar> \<le> E + F" using e by (simp add: of_rat_add abs_le_iff)
  ultimately show ?thesis using near_trans by (fastforce simp: pq algebra_simps)
qed

lemma near_mul:
  assumes "near x a E" "f_between (- B1) x B1" "f_between 0 w W" "B1 * W \<le> B" "B \<le> 1000000"
  shows "near (x * w) (a * val w) (E * of_rat W + (of_rat B + 1) * u53)"
proof -
  from assms(1-3) obtain p q where pq: "x = Fin p" "w = Fin q" "\<bar>p\<bar> \<le> B1" "0 \<le> q" "q \<le> W"
    and e: "\<bar>of_rat p - a\<bar> \<le> E"
    by (auto simp: near_def f_between_def abs_le_iff split: f64.splits)
  have "\<bar>p * q\<bar> \<le> B1 * W" using pq mult_mono [of "\<bar>p\<bar>" B1 q W] by (simp add: abs_mult)
  then have "real_of_rat \<bar>p * q\<bar> \<le> of_rat B" using assms(4) unfolding of_rat_less_eq by simp
  moreover have "real_of_rat B \<le> of_rat 1000000" using assms(5) unfolding of_rat_less_eq .
  ultimately have n: "near (to_f64 (p * q)) (of_rat (p * q)) ((of_rat B + 1) * u53)"
    by (intro to_f64_near) simp_all
  have "real_of_rat q \<le> of_rat W" using pq(5) unfolding of_rat_less_eq .
  then have "\<bar>of_rat p - a\<bar> * real_of_rat q \<le> E * of_rat W" using e pq(4) by (intro mult_mono) auto
  then have "\<bar>real_of_rat (p * q) - a * real_of_rat q\<bar> \<le> E * of_rat W"
    using pq(4) by (simp add: of_rat_mult abs_mult flip: left_diff_distrib)
  with n have "near (to_f64 (p * q)) (a * real_of_rat q) ((of_rat B + 1) * u53 + E * of_rat W)"
    by (rule near_trans)
  then show ?thesis by (simp add: pq add.commute)
qed

lemma saturated_near:
  assumes "0 \<le> i" "0 < k" "k < 2 ^ 40"
  shows "near (saturated i (of_int k)) (clipped i k) (11 * u53)"
proof (cases "k * 10 \<le> i")
  case True
  then have "real_of_int (k * 10) \<le> real_of_int i" by (simp only: of_int_le_iff)
  then have "10 \<le> real_of_int i / real_of_int k" using assms(2) by (simp add: field_simps)
  then show ?thesis using True assms by (simp add: saturated_cap near_def clipped_def)
next
  case False
  have "f64_of_int i = Fin (of_int i)"
    unfolding f64_of_int_def using False assms by (intro to_f64_double is_double_of_int) auto
  moreover have b: "0 \<le> rat_of_int i / of_int k" "rat_of_int i / of_int k \<le> 10"
  proof -
    have "rat_of_int i \<le> of_int (k * 10)" using False unfolding of_int_le_iff by simp
    then show "rat_of_int i / of_int k \<le> 10" using assms(2) by (simp add: field_simps)
  qed (use assms in simp)
  then have "f_between 0 (to_f64 (of_int i / of_int k)) 10"
    by (intro to_f64_between) (auto simp: double_literals)
  ultimately have s: "saturated i (of_int k) = to_f64 (of_int i / of_int k)"
    using assms(2)
    by (auto simp: saturated_def f_clamp_def f_between_def less_f64_def Let_def split: f64.splits)
  have r: "real_of_rat (of_int i / of_int k) = real_of_int i / real_of_int k"
    by (simp add: of_rat_divide)
  have "0 \<le> real_of_int i / real_of_int k" using assms by simp
  moreover have "real_of_int i \<le> real_of_int (k * 10)" using False unfolding of_int_le_iff by simp
  then have "real_of_int i / real_of_int k \<le> 10" using assms(2) by (simp add: field_simps)
  ultimately have "clipped i k = of_rat (of_int i / of_int k)"
    and "\<bar>real_of_rat (of_int i / of_int k)\<bar> \<le> 10"
    by (simp_all add: clipped_def r)
  then show ?thesis unfolding s using to_f64_near [of "of_int i / of_int k" 10] by simp
qed

lemma features_near:
  assumes "valid e"
  shows "list_all2 (\<lambda>x r. near x r (11 * u53)) (features e) (ideal_features e)"
proof -
  have "near (saturated (sint (amount_cents e)) 100000) (clipped (sint (amount_cents e)) 100000) (11 * u53)"
    "near (saturated (sint (velocity_5m e)) 10) (clipped (sint (velocity_5m e)) 10) (11 * u53)"
    "near (saturated (sint (velocity_1h e)) 30) (clipped (sint (velocity_1h e)) 30) (11 * u53)"
    "near (saturated (sint (prior_declines e)) 5) (clipped (sint (prior_declines e)) 5) (11 * u53)"
    using saturated_near [of "sint (amount_cents e)" 100000] saturated_near [of "sint (velocity_5m e)" 10]
      saturated_near [of "sint (velocity_1h e)" 30] saturated_near [of "sint (prior_declines e)" 5] assms
    by (auto simp: valid_def)
  then show ?thesis unfolding features_saturated ideal_features_def by (simp add: near_zero near_one)
qed

lemma sum_near:
  assumes "list_all2 (\<lambda>x r. near x r E \<and> f_between 0 x 40) xs rs" "near a s A"
    and "f_between 0 a (of_nat k * 40)" "k + length xs \<le> 7"
  shows "near (foldl (+) a xs) (s + sum_list rs) (A + of_nat (length xs) * (E + 281 * u53))"
  using assms
proof (induction xs rs arbitrary: a s A k rule: list_all2_induct)
  case (Cons x xs r rs)
  have k: "rat_of_nat (Suc k) * 40 \<le> 280"
  proof -
    have "rat_of_nat (Suc k * 40) \<le> of_nat 280" using Cons.prems(3) by (intro of_nat_mono) simp
    then show ?thesis by simp
  qed
  have "is_double (of_int (int (Suc k) * 40))" using Cons.prems(3) by (intro is_double_of_int) auto
  then have b: "f_between 0 (a + x) (of_nat (Suc k) * 40)"
    using Cons by (intro f_between_add [of 0 a "of_nat k * 40" 0 x 40]) (auto simp: double_literals algebra_simps)
  have "near (a + x) (s + r) (A + E + (of_rat 280 + 1) * u53)"
    using Cons k by (intro near_add [of _ _ _ _ _ _ "of_nat k * 40" 40])
      (auto intro: f_between_weaken simp: algebra_simps)
  from Cons.IH [OF this b] Cons.prems(3)
  have "near (foldl (+) (a + x) xs) (s + r + sum_list rs)
      (A + E + (of_rat 280 + 1) * u53 + real (length xs) * (E + 281 * u53))" by simp
  then show ?case by (simp add: algebra_simps)
qed simp

section \<open>The logit\<close>

lemma map2_list_all2:
  "list_all2 P xs rs \<Longrightarrow> list_all Q ws \<Longrightarrow> (\<And>x r w. P x r \<Longrightarrow> Q w \<Longrightarrow> R (f x w) (g r (h w))) \<Longrightarrow>
   list_all2 R (map2 f xs ws) (map2 g rs (map h ws))"
proof (induction xs rs arbitrary: ws rule: list_all2_induct)
  case (Cons x xs r rs)
  then show ?case by (cases ws) auto
qed simp

lemma f_between_sym: "f_between 0 x b \<Longrightarrow> f_between (- b) x b"
  by (cases x) (auto simp: f_between_def)

lemma products_near:
  assumes "valid e" "list_all (\<lambda>w. f_between 0 w 4) ws"
  shows "list_all2 (\<lambda>x r. near x r (85 * u53) \<and> f_between 0 x 40)
           (map2 (*) (features e) ws) (map2 (*) (ideal_features e) (map val ws))"
proof (rule map2_list_all2 [where Q = "\<lambda>w. f_between 0 w 4"])
  show "list_all2 (\<lambda>x r. near x r (11 * u53) \<and> f_between 0 x 10) (features e) (ideal_features e)"
    using features_near [OF assms(1)] features_between [of _ e]
    by (auto simp: list_all2_conv_all_nth)
next
  fix x r w assume x: "near x r (11 * u53) \<and> f_between 0 x 10" and w: "f_between 0 w 4"
  then have "near (x * w) (r * val w) (11 * u53 * of_rat 4 + (of_rat 40 + 1) * u53)"
    by (intro near_mul [where ?B1.0 = 10]) (auto intro: f_between_sym)
  moreover have "f_between 0 (x * w) 40"
    using x w by (intro f_between_mul [of _ 10 _ 4]) (auto simp: double_literals)
  ultimately show "near (x * w) (r * val w) (85 * u53) \<and> f_between 0 (x * w) 40" by simp
qed (use assms in auto)

lemma logit_near:
  assumes "valid e" "serving_range m"
  shows "near (logit m e) (ideal_logit m e) (6908 * u53)"
proof -
  let ?ps = "map2 (*) (features e) (weights m)"
  let ?rs = "map2 (*) (ideal_features e) (map val (weights m))"
  from assms(2) have m: "length (weights m) = 7" "list_all (\<lambda>w. f_between 0 w 4) (weights m)"
    "f_between (- 16) (intercept m) 16" "f_between 0 (calibration_slope m) 2"
    "f_between (- 4) (calibration_intercept m) 4" by (auto simp: serving_range_def)
  have val: "near x (val x) 0" if "f_between a x b" for a x b
    using that by (cases x) (auto simp: f_between_def near_Fin)
  have z: "f_between 0 (Fin 0) (of_nat 0 * 40)" by (simp add: f_between_def)
  have "near (foldl (+) (Fin 0) ?ps) (0 + sum_list ?rs) (0 + of_nat (length ?ps) * (85 * u53 + 281 * u53))"
    using m by (intro sum_near [OF products_near [OF assms(1)] _ z]) (auto simp: near_def)
  then have "near (foldl (+) (Fin 0) ?ps) (sum_list ?rs) (2562 * u53)" using m by simp
  moreover have "f_between 0 (foldl (+) (Fin 0) ?ps) 280"
    using sum_between [OF products_between z, of "weights m" e] m by simp
  ultimately have raw: "near (raw_logit m e) (val (intercept m) + sum_list ?rs) (2859 * u53)"
    unfolding raw_logit_def using m
    by (intro near_weaken [OF near_add [OF val, where ?B1.0 = 16 and ?B2.0 = 280 and B = 296]])
      (auto intro: f_between_sym)
  have "near (raw_logit m e * calibration_slope m)
      ((val (intercept m) + sum_list ?rs) * val (calibration_slope m))
      (2859 * u53 * of_rat 2 + (of_rat 592 + 1) * u53)"
    using raw raw_logit_between [OF assms(2)] m(4) by (intro near_mul [where ?B1.0 = 296]) auto
  moreover have "f_between (- 592) (raw_logit m e * calibration_slope m) 592"
    using raw_logit_between [OF assms(2)] m
    by (intro f_between_mul_abs [of 296 _ 2]) (auto simp: double_literals intro: f_between_sym)
  ultimately show ?thesis
    unfolding logit_def ideal_logit_def using m
    by (intro near_weaken [OF near_add [OF _ val, where ?B1.0 = 592 and ?B2.0 = 4 and B = 596]]) auto
qed

section \<open>The sigmoid\<close>

lemma sigmoid_lipschitz_ordered: "a \<le> b \<Longrightarrow> \<bar>sigmoid a - sigmoid b\<bar> \<le> b - a"
proof -
  assume "a \<le> b"
  let ?x = "exp (- a)" and ?y = "exp (- b)"
  have xy: "0 < ?x" "0 < ?y" "?y \<le> ?x" using \<open>a \<le> b\<close> by simp_all
  have "?y = ?x * exp (a - b)" by (simp flip: exp_add)
  moreover have "1 + (a - b) \<le> exp (a - b)" by (rule exp_ge_add_one_self)
  ultimately have d: "?x - ?y \<le> ?x * (b - a)"
    using mult_left_mono [of "1 + (a - b)" "exp (a - b)" ?x] xy by (simp add: algebra_simps)
  have "\<bar>sigmoid a - sigmoid b\<bar> = (?x - ?y) / ((1 + ?x) * (1 + ?y))"
  proof -
    have "1 / (1 + ?x) \<le> 1 / (1 + ?y)" using xy by (intro frac_le) (auto intro: add_pos_pos)
    moreover have "1 / (1 + ?y) - 1 / (1 + ?x) = (?x - ?y) / ((1 + ?x) * (1 + ?y))"
    proof (subst diff_frac_eq)
      show "1 + ?x \<noteq> 0" "1 + ?y \<noteq> 0" using xy by linarith+
    qed (simp add: mult.commute)
    ultimately show ?thesis by (simp add: sigmoid_def)
  qed
  also have "\<dots> \<le> (?x - ?y) / ((1 + ?x) * 1)"
    using xy by (intro divide_left_mono mult_left_mono mult_pos_pos) (auto intro: add_pos_pos)
  also have "\<dots> \<le> ?x * (b - a) / (1 + ?x)" using d xy by (simp add: divide_right_mono)
  also have "\<dots> \<le> b - a"
  proof (subst pos_divide_le_eq)
    show "0 < 1 + ?x" using xy by linarith
    show "?x * (b - a) \<le> (b - a) * (1 + ?x)" using \<open>a \<le> b\<close> by (simp add: algebra_simps)
  qed
  finally show ?thesis .
qed

lemma sigmoid_lipschitz: "\<bar>sigmoid a - sigmoid b\<bar> \<le> \<bar>a - b\<bar>"
  using sigmoid_lipschitz_ordered [of a b] sigmoid_lipschitz_ordered [of b a] by linarith

lemma quotient_error:
  fixes E d r v :: real
  assumes "0 \<le> E" "1 \<le> d" "\<bar>r - E\<bar> \<le> E * v" "\<bar>d - (1 + r)\<bar> \<le> (1 + r) * w" "0 \<le> v" "v \<le> 1" "0 \<le> w"
  shows "\<bar>1 / d - 1 / (1 + E)\<bar> \<le> v + 2 * w"
proof -
  have "E * v \<le> E * 1" using assms(1,6) by (intro mult_left_mono)
  moreover have "r - E \<le> E * v" using assms(3) by (rule abs_le_D1)
  ultimately have r: "1 + r \<le> 2 * (1 + E)" using assms(1) by (simp add: algebra_simps)
  have "\<bar>(1 + E) - d\<bar> \<le> E * v + (1 + r) * w" using assms(3,4) by linarith
  also have "\<dots> \<le> (1 + E) * v + 2 * (1 + E) * w"
    using r assms by (intro add_mono mult_right_mono) auto
  also have "\<dots> = (1 + E) * (v + 2 * w)" by (simp add: algebra_simps)
  finally have n: "\<bar>(1 + E) - d\<bar> / (1 + E) \<le> v + 2 * w"
    using assms(1) by (simp add: divide_le_eq mult.commute)
  have "\<bar>1 / d - 1 / (1 + E)\<bar> = \<bar>(1 + E) - d\<bar> / (1 + E) / d"
  proof -
    have "1 / d - 1 / (1 + E) = ((1 + E) - d) / (d * (1 + E))"
      using assms(1,2) by (subst diff_frac_eq) auto
    then show ?thesis using assms(1,2) by (simp add: abs_mult mult.commute)
  qed
  also have "\<dots> \<le> \<bar>(1 + E) - d\<bar> / (1 + E)"
    using assms(1,2) divide_left_mono [of 1 d "\<bar>(1 + E) - d\<bar> / (1 + E)"] by simp
  finally show ?thesis using n by linarith
qed

lemma exp_600: "exp (600::real) \<le> 2 ^ 1000"
proof -
  have "exp (600::real) = exp 1 ^ 600" by (simp flip: exp_of_nat_mult)
  also have "\<dots> \<le> 3 ^ 600" using exp_le by (intro power_mono) auto
  also have "(3::real) ^ 600 \<le> 2 ^ 1000" by simp
  finally show ?thesis .
qed

section \<open>The score\<close>

lemma sigmoid_stage:
  assumes "exp_accurate fexp" "\<bar>l\<bar> \<le> 596"
  shows "\<exists>p. f_div (Fin 1) (Fin 1 + fexp (- Fin l)) = Fin p \<and>
           \<bar>real_of_rat p - sigmoid (of_rat l)\<bar> \<le> 38 * u53"
proof -
  let ?E = "exp (- real_of_rat l)"
  obtain r where r: "fexp (Fin (- l)) = Fin r" "\<bar>real_of_rat r - ?E\<bar> \<le> ?E * (32 * u53)"
    using assms unfolding exp_accurate_def
    by (force simp: of_rat_minus u53_def)
  have v: "32 * u53 \<le> 1" by (simp add: u53_def)
  have rE: "0 \<le> real_of_rat r" "real_of_rat r \<le> 2 * ?E"
  proof -
    have "?E * (32 * u53) \<le> ?E * 1" by (rule mult_left_mono [OF v]) simp
    with r(2) show "0 \<le> real_of_rat r" "real_of_rat r \<le> 2 * ?E"
      by (simp_all only: abs_le_iff) linarith+
  qed
  have "- real_of_rat l \<le> of_rat 600"
    using assms(2) unfolding of_rat_minus [symmetric] of_rat_less_eq by linarith
  then have "?E \<le> exp 600" by simp
  then have "real_of_rat r \<le> 2 * 2 ^ 1000" using rE(2) exp_600 by linarith
  then have big: "real_of_rat (1 + r) \<le> of_rat (2 powi 1002)"
    by (simp add: of_rat_add of_rat_power)
  then have "1 + r \<le> 2 powi 1002" unfolding of_rat_less_eq .
  moreover have "is_double (2 powi 1002)"
    using round64_powi [of 1002] powi_strict [of 1002 1024] by (simp add: is_double_def f64_limit_def)
  moreover have r0: "0 \<le> r" using rE(1) by simp
  ultimately have "f_between 1 (to_f64 (1 + r)) (2 powi 1002)"
    by (intro to_f64_between) (auto simp: double_literals)
  then obtain d where d: "to_f64 (1 + r) = Fin d" "1 \<le> d" and dr: "d = round64 (1 + r)"
    by (auto simp: f_between_def to_f64_def Let_def split: f64.splits if_splits)
  have "\<bar>real_of_rat d - (1 + real_of_rat r)\<bar> \<le> (1 + real_of_rat r + 1) * u53"
    using round64_error_real [of "1 + r"] rE(1) by (simp add: dr of_rat_add abs_of_nonneg r0)
  also have "\<dots> \<le> (1 + real_of_rat r) * (2 * u53)"
    using rE(1) mult_right_mono [of 0 "real_of_rat r" u53] by (simp add: algebra_simps)
  finally have dd: "\<bar>real_of_rat d - (1 + real_of_rat r)\<bar> \<le> (1 + real_of_rat r) * (2 * u53)" .
  have d1: "1 \<le> real_of_rat d" using d(2) by simp
  from quotient_error [OF _ d1 r(2) dd _ v]
  have q: "\<bar>1 / real_of_rat d - sigmoid (of_rat l)\<bar> \<le> 36 * u53"
    by (simp add: sigmoid_def)
  have "\<bar>real_of_rat (1 / d)\<bar> \<le> 1" using d1 by (simp add: of_rat_divide)
  then have "near (to_f64 (1 / d)) (of_rat (1 / d)) ((1 + 1) * u53)" by (intro to_f64_near) auto
  then have "near (to_f64 (1 / d)) (sigmoid (of_rat l)) (38 * u53)"
    using near_trans q by (fastforce simp: of_rat_divide)
  then show ?thesis using r(1) d by (auto simp: near_def)
qed

lemma score_close:
  assumes "valid e" "serving_range m" "exp_accurate fexp"
  shows "\<exists>p. rd_score (score fexp m e) = Fin p \<and> \<bar>real_of_rat p - ideal_score m e\<bar> \<le> 1 / 10 ^ 12"
proof -
  obtain l where l: "logit m e = Fin l" "\<bar>l\<bar> \<le> 596" using logit_Fin [OF assms(2)] by blast
  obtain p where p: "f_div (Fin 1) (Fin 1 + fexp (- Fin l)) = Fin p"
    "\<bar>real_of_rat p - sigmoid (of_rat l)\<bar> \<le> 38 * u53"
    using sigmoid_stage [OF assms(3) l(2)] by blast
  have "\<bar>sigmoid (of_rat l) - ideal_score m e\<bar> \<le> 6908 * u53"
    using logit_near [OF assms(1,2)] sigmoid_lipschitz [of "of_rat l" "ideal_logit m e"]
    by (auto simp: near_def l(1) ideal_score_def)
  then have "\<bar>real_of_rat p - ideal_score m e\<bar> \<le> 6946 * u53" using p(2) by linarith
  also have "6946 * u53 \<le> 1 / 10 ^ 12" by (simp add: u53_def)
  finally show ?thesis using p(1) l(1) by (simp add: score_def Let_def)
qed

text \<open>
  C23. The served score is the exact calibrated logistic score up to \<open>10 ^ -12\<close>: for every valid
  event, every model in the serving range and any exponential accurate to 16 ulp, all the roundings
  of the transform, the dot product, the calibration and the sigmoid together stay within the
  tolerance that the repository's evaluation demands. Hence \<open>risky\<close> is the exact decision whenever
  the exact score is not within that tolerance of the threshold.
\<close>

theorem score_accuracy:
  assumes "valid e" "serving_range m" "exp_accurate fexp" "threshold m = Fin t"
  shows "\<exists>p. rd_score (score fexp m e) = Fin p \<and>
           \<bar>real_of_rat p - ideal_score m e\<bar> \<le> 1 / 10 ^ 12 \<and>
           (1 / 10 ^ 12 < \<bar>ideal_score m e - of_rat t\<bar> \<longrightarrow>
              (rd_risky (score fexp m e) \<longleftrightarrow> of_rat t \<le> ideal_score m e))"
proof -
  obtain p where p: "rd_score (score fexp m e) = Fin p" "\<bar>real_of_rat p - ideal_score m e\<bar> \<le> 1 / 10 ^ 12"
    using score_close [OF assms(1-3)] by blast
  have "rd_risky (score fexp m e) \<longleftrightarrow> real_of_rat t \<le> of_rat p"
    using p(1) assms(4) by (simp add: score_def Let_def of_rat_less_eq)
  with p show ?thesis by (intro exI [of _ p]) (auto simp: abs_if split: if_splits)
qed

lemma exp_ref_accurate: "exp_accurate exp_ref"
  unfolding exp_accurate_def
proof (intro allI impI)
  fix q :: rat
  assume q: "\<bar>q\<bar> \<le> 600"
  let ?E = "exp (real_of_rat q)"
  define t where "t = rat_of_int \<lfloor>?E * 2 ^ 1100\<rfloor> / 2 ^ 1100"
  have "- 600 \<le> q" using q by linarith
  then have "real_of_rat (- 600) \<le> of_rat q" unfolding of_rat_less_eq .
  then have "exp (- 600) \<le> ?E" by (simp add: of_rat_minus)
  then have "1 / exp 600 \<le> ?E" unfolding exp_minus by (simp add: inverse_eq_divide)
  moreover have "1 / 2 ^ 1000 \<le> 1 / exp (600 :: real)"
    by (rule divide_left_mono [OF exp_600]) auto
  ultimately have E: "1 / 2 ^ 1000 \<le> ?E" by (rule order_trans [rotated])
  have t: "real_of_rat t = real_of_int \<lfloor>?E * 2 ^ 1100\<rfloor> / 2 ^ 1100"
    by (simp add: t_def of_rat_divide of_rat_power)
  have "?E * 2 ^ 1100 - 1 \<le> real_of_int \<lfloor>?E * 2 ^ 1100\<rfloor>" by linarith
  then have "(?E * 2 ^ 1100 - 1) / 2 ^ 1100 \<le> real_of_rat t"
    unfolding t by (intro divide_right_mono) auto
  then have "?E - 1 / 2 ^ 1100 \<le> real_of_rat t" by (simp add: diff_divide_distrib)
  moreover have "real_of_rat t \<le> ?E" unfolding t by (simp add: divide_le_eq)
  moreover have "(1::real) / 2 ^ 1100 \<le> (1 / 2 ^ 1000) / 2 ^ 48" by simp
  moreover have "(1 / 2 ^ 1000) / 2 ^ 48 \<le> ?E / 2 ^ 48" using E by (intro divide_right_mono) auto
  ultimately have "\<bar>real_of_rat t - ?E\<bar> \<le> ?E / 2 ^ 48" by linarith
  moreover have "exp_ref (Fin q) = Fin t" unfolding exp_ref_def t_def f64.case using q by (rule if_P)
  ultimately show "\<exists>r. exp_ref (Fin q) = Fin r \<and> \<bar>real_of_rat r - ?E\<bar> \<le> ?E / 2 ^ 48"
    by (intro exI conjI)
qed

theorem score_accuracy_witness:
  "\<exists>t p. threshold artifact = Fin t \<and> rd_score (score exp_ref artifact sample_event) = Fin p \<and>
     \<bar>real_of_rat p - ideal_score artifact sample_event\<bar> \<le> 1 / 10 ^ 12"
proof -
  obtain t where t: "threshold artifact = Fin t"
    using artifact_threshold by (auto simp: f_between_def split: f64.splits)
  from score_accuracy [OF sample_event_valid artifact_serving_range exp_ref_accurate t] t
  show ?thesis by blast
qed

end
