(* ===== verification/UnitTests.thy ===== *)
theory UnitTests
  imports Accuracy
begin

text \<open>
  The unit tests at the end of \<open>model.rs\<close>, over the model: each test is a boolean that is true when every
  assertion of it holds. They tie the definitions to what the authors expect of the code.
\<close>

definition schema_test :: bool where
  "schema_test \<longleftrightarrow>
     valid sample_event \<and>
     \<not> valid (sample_event\<lparr>velocity_5m := - 1\<rparr>) \<and>
     \<not> valid (sample_event\<lparr>country := ''uS''\<rparr>)"

definition monotonic_test :: "(f64 \<Rightarrow> f64) \<Rightarrow> bool" where
  "monotonic_test fexp \<longleftrightarrow>
     (let normal = score fexp artifact sample_event;
          risk = sample_event\<lparr>amount_cents := 900000, prior_declines := 5\<rparr>
      in rd_score normal < rd_score (score fexp artifact risk))"

definition finite_extremes_test :: "(f64 \<Rightarrow> f64) \<Rightarrow> bool" where
  "finite_extremes_test fexp \<longleftrightarrow>
     (let e = sample_event\<lparr>amount_cents := 2 ^ 63 - 1, velocity_5m := 2 ^ 31 - 1\<rparr>;
          p = rd_score (score fexp artifact e)
      in is_finite p \<and> Fin 0 \<le> p \<and> p \<le> Fin 1)"

definition exported_parameters_test :: bool where
  "exported_parameters_test \<longleftrightarrow>
     (case parameters (Some artifact) of
        None \<Rightarrow> False
      | Some m \<Rightarrow>
          list_all is_finite (weights m) \<and> (Fin 0 \<le> threshold m \<and> threshold m < Fin 1) \<and>
          Fin 0 < calibration_slope m)"

section \<open>The exact model on the two events of the monotonicity test\<close>

lemma literal_near:
  assumes "\<bar>real_of_rat q\<bar> \<le> 100"
  shows "\<bar>val (to_f64 q) - of_rat q\<bar> \<le> 1 / 1000"
proof -
  have "near (to_f64 q) (of_rat q) ((100 + 1) * u53)" by (rule to_f64_near [OF assms]) simp
  moreover have "(100 + 1) * u53 \<le> 1 / 1000" by (simp add: u53_def)
  ultimately show ?thesis by (auto simp: near_def)
qed

lemma literal_ge: "\<bar>real_of_rat q\<bar> \<le> 100 \<Longrightarrow> c + 1 / 1000 \<le> of_rat q \<Longrightarrow> c \<le> val (to_f64 q)"
  and literal_le: "\<bar>real_of_rat q\<bar> \<le> 100 \<Longrightarrow> of_rat q + 1 / 1000 \<le> c \<Longrightarrow> val (to_f64 q) \<le> c"
  using literal_near [of q] by linarith+

lemma artifact_numbers:
  "weights artifact ! 0 = to_f64 (19520989945416278 / 10 ^ 16)"
  "weights artifact ! 4 = to_f64 (23241663320425854 / 10 ^ 16)"
  "weights artifact ! 5 = to_f64 (8883783456280958 / 10 ^ 16)"
  "weights artifact ! 6 = to_f64 (20913926772208615 / 10 ^ 16)"
  "intercept artifact = to_f64 (- 7936039213608149 / 10 ^ 15)"
  "calibration_slope artifact = to_f64 (8986711543348067 / 10 ^ 16)"
  "calibration_intercept artifact = to_f64 (- 3011111039811328 / 10 ^ 17)"
  by (simp_all add: artifact_def)

lemma artifact_bounds:
  "1 \<le> val (weights artifact ! 0)" "val (weights artifact ! 0) \<le> 2"
  "0 \<le> val (weights artifact ! 4)" "val (weights artifact ! 4) \<le> 3"
  "0 \<le> val (weights artifact ! 5)" "val (weights artifact ! 5) \<le> 1"
  "2 \<le> val (weights artifact ! 6)"
  "- 8 \<le> val (intercept artifact)" "val (intercept artifact) \<le> - 7"
  "4 / 5 \<le> val (calibration_slope artifact)"
  "- 1 \<le> val (calibration_intercept artifact)" "val (calibration_intercept artifact) \<le> 0"
  unfolding artifact_numbers
  by ((rule literal_ge literal_le; simp add: of_rat_divide of_rat_minus)+)

lemma artifact_weights:
  "map val (weights artifact) =
     [val (weights artifact ! 0), val (weights artifact ! 1), val (weights artifact ! 2), val (weights artifact ! 3),
      val (weights artifact ! 4), val (weights artifact ! 5), val (weights artifact ! 6)]"
  by (simp add: artifact_def)

lemma normal_logit: "ideal_logit artifact sample_event \<le> - 1"
proof -
  let ?w = "\<lambda>i. val (weights artifact ! i)"
  have sum: "sum_list (map2 (*) (ideal_features sample_event) (map val (weights artifact))) = ?w 0 / 40 + ?w 4 / 10 + ?w 5 / 15"
    unfolding artifact_weights by (simp add: ideal_features_def clipped_def sample_event_def)
  let ?r = "val (intercept artifact) + (?w 0 / 40 + ?w 4 / 10 + ?w 5 / 15)"
  have "?r \<le> - 6" using artifact_bounds by linarith
  then have "?r * val (calibration_slope artifact) \<le> - 6 * (4 / 5)"
    using artifact_bounds(10) by (intro order_trans [OF mult_right_mono [of ?r "- 6"]]) linarith+
  then show ?thesis unfolding ideal_logit_def sum using artifact_bounds by linarith
qed

lemma risky_logit: "0 \<le> ideal_logit artifact (sample_event\<lparr>amount_cents := 900000, prior_declines := 5\<rparr>)"
proof -
  let ?w = "\<lambda>i. val (weights artifact ! i)"
  have sum: "sum_list (map2 (*) (ideal_features (sample_event\<lparr>amount_cents := 900000, prior_declines := 5\<rparr>))
      (map val (weights artifact))) = 9 * ?w 0 + ?w 4 / 10 + ?w 5 / 15 + ?w 6"
    unfolding artifact_weights by (simp add: ideal_features_def clipped_def sample_event_def)
  let ?r = "val (intercept artifact) + (9 * ?w 0 + ?w 4 / 10 + ?w 5 / 15 + ?w 6)"
  have "3 \<le> ?r" using artifact_bounds by linarith
  then have "3 * (4 / 5) \<le> ?r * val (calibration_slope artifact)"
    using artifact_bounds(10) by (intro mult_mono) linarith+
  then show ?thesis unfolding ideal_logit_def sum using artifact_bounds by linarith
qed

lemma sigmoid_low: "x \<le> - 1 \<Longrightarrow> sigmoid x \<le> 1 / 3"
  and sigmoid_high: "0 \<le> x \<Longrightarrow> 1 / 2 \<le> sigmoid x"
proof -
  assume "x \<le> - 1"
  then have "2 \<le> exp (- x)" using exp_ge_add_one_self [of "- x"] by linarith
  then show "sigmoid x \<le> 1 / 3" by (simp add: sigmoid_def field_simps)
next
  assume "0 \<le> x"
  then have "exp (- x) \<le> 1" by simp
  moreover have "0 < 2 + 2 * exp (- x)" using exp_gt_zero [of "- x"] by linarith
  ultimately have "1 / 2 \<le> 1 / (1 + exp (- x))" by (intro divide_left_mono) auto
  then show "1 / 2 \<le> sigmoid x" by (simp add: sigmoid_def)
qed

section \<open>The tests\<close>

lemma schema_passes: "schema_test"
  unfolding schema_test_def by code_simp

lemma score_near:
  assumes "valid e" "exp_accurate fexp"
  shows "\<exists>p. rd_score (score fexp artifact e) = Fin p \<and> \<bar>real_of_rat p - ideal_score artifact e\<bar> \<le> 1 / 100"
proof -
  obtain p where "rd_score (score fexp artifact e) = Fin p" "\<bar>real_of_rat p - ideal_score artifact e\<bar> \<le> 1 / 10 ^ 12"
    using score_close [OF assms(1) artifact_serving_range assms(2)] by blast
  moreover have "(1::real) / 10 ^ 12 \<le> 1 / 100" by simp
  ultimately show ?thesis by (meson order_trans)
qed

lemma monotonic_passes:
  assumes "exp_accurate fexp"
  shows "monotonic_test fexp"
proof -
  let ?risk = "sample_event\<lparr>amount_cents := 900000, prior_declines := 5\<rparr>"
  have "valid ?risk" by code_simp
  obtain p q where pq: "rd_score (score fexp artifact sample_event) = Fin p" "rd_score (score fexp artifact ?risk) = Fin q"
    "\<bar>real_of_rat p - ideal_score artifact sample_event\<bar> \<le> 1 / 100" "\<bar>real_of_rat q - ideal_score artifact ?risk\<bar> \<le> 1 / 100"
    using score_near [OF sample_event_valid assms] score_near [OF \<open>valid ?risk\<close> assms] by blast
  have "ideal_score artifact sample_event \<le> 1 / 3" "1 / 2 \<le> ideal_score artifact ?risk"
    unfolding ideal_score_def using sigmoid_low [OF normal_logit] sigmoid_high [OF risky_logit] by blast+
  with pq(3,4) have "real_of_rat p < of_rat q" by linarith
  then have "p < q" by (simp add: of_rat_less)
  then show ?thesis by (simp add: monotonic_test_def Let_def pq less_f64_def)
qed

lemma extremes_pass:
  assumes "exp_nonneg fexp"
  shows "finite_extremes_test fexp"
proof -
  have "is_finite x \<and> Fin 0 \<le> x \<and> x \<le> Fin 1" if "f_between 0 x 1" for x
    using that by (cases x) (auto simp: f_between_def)
  with score_range [OF artifact_serving_range assms] show ?thesis
    by (simp only: finite_extremes_test_def Let_def)
qed

lemma parameters_pass: "exported_parameters_test"
proof -
  have slope: "f_between 0 (calibration_slope artifact) 2"
    using artifact_serving_range by (simp add: serving_range_def)
  have "4 / 5 \<le> val (calibration_slope artifact)" by (rule artifact_bounds)
  with slope have "Fin 0 < calibration_slope artifact"
    by (cases "calibration_slope artifact") (auto simp: f_between_def less_f64_def)
  moreover have "Fin 0 \<le> threshold artifact" "threshold artifact < Fin 1"
    using artifact_accepted by (auto simp: parameters_def split: if_splits)
  ultimately show ?thesis
    by (simp add: exported_parameters_test_def artifact_accepted artifact_finite)
qed



end
