(* ===== verification/Json.thy ===== *)
theory Json
  imports Event
begin

text \<open>
  The parts of Go's \<open>encoding/json\<close> that the gateway uses: the scanner, which reads one byte at a time
  and keeps a stack of the open objects and arrays; the token decoder (\<open>Token\<close>, \<open>More\<close> and \<open>Decode\<close>
  into raw bytes) as far as the members of one object need it; the reading of string and number
  literals; and the writing of strings by \<open>Marshal\<close>.
\<close>

section \<open>The scanner\<close>

definition json_space :: "char \<Rightarrow> bool" where
  "json_space c \<longleftrightarrow> byte c = 32 \<or> byte c = 9 \<or> byte c = 13 \<or> byte c = 10"

definition quotation :: char where "quotation = CHR 0x22"
definition backslash :: char where "backslash = CHR 0x5C"

definition hex_val :: "char \<Rightarrow> nat option" where
  "hex_val c =
     (if ascii_digit c then Some (byte c - 48)
      else if 97 \<le> byte c \<and> byte c \<le> 102 then Some (byte c - 87)
      else if 65 \<le> byte c \<and> byte c \<le> 70 then Some (byte c - 55) else None)"

text \<open>
  What the scanner waits for: a value; a value or the end of an empty array; a key or the end of an empty object;
  a key; the rest of a string, of an escape, of a numeric escape; the parts of a number; the rest of a
  literal name; what may follow a value.
\<close>

datatype scan_mode = BeginValue | BeginValueOrEmpty | BeginStringOrEmpty | BeginString
  | InString | InEscape | InEscapeU nat
  | InMinus | InZero | InDigits | InDot | InFraction | InE | InESign | InExponent
  | InName string | EndValue

datatype nesting = ObjectKey | ObjectValue | ArrayValue

datatype scan_result = Continue scan_mode "nesting list" | Finished | Invalid

definition max_depth :: nat where "max_depth = 10000"

definition push :: "nesting \<Rightarrow> scan_mode \<Rightarrow> nesting list \<Rightarrow> scan_result" where
  "push n md ns = (if length (n # ns) \<le> max_depth then Continue md (n # ns) else Invalid)"

text \<open>The byte after a complete value.\<close>

definition end_value :: "nesting list \<Rightarrow> char \<Rightarrow> scan_result" where
  "end_value ns c =
     (case ns of
        [] \<Rightarrow> Finished
      | n # ns' \<Rightarrow>
          if json_space c then Continue EndValue ns
          else case n of
            ObjectKey \<Rightarrow> if c = CHR '':'' then Continue BeginValue (ObjectValue # ns') else Invalid
          | ObjectValue \<Rightarrow>
              if c = CHR '','' then Continue BeginString (ObjectKey # ns')
              else if c = CHR ''}'' then Continue EndValue ns' else Invalid
          | ArrayValue \<Rightarrow>
              if c = CHR '','' then Continue BeginValue ns
              else if c = CHR '']'' then Continue EndValue ns' else Invalid)"

definition begin_value :: "nesting list \<Rightarrow> char \<Rightarrow> scan_result" where
  "begin_value ns c =
     (if json_space c then Continue BeginValue ns
      else if c = CHR ''{'' then push ObjectKey BeginStringOrEmpty ns
      else if c = CHR ''['' then push ArrayValue BeginValueOrEmpty ns
      else if c = quotation then Continue InString ns
      else if c = CHR ''-'' then Continue InMinus ns
      else if c = CHR ''0'' then Continue InZero ns
      else if c = CHR ''t'' then Continue (InName ''rue'') ns
      else if c = CHR ''f'' then Continue (InName ''alse'') ns
      else if c = CHR ''n'' then Continue (InName ''ull'') ns
      else if ascii_digit c then Continue InDigits ns
      else Invalid)"

definition after_zero :: "nesting list \<Rightarrow> char \<Rightarrow> scan_result" where
  "after_zero ns c =
     (if c = CHR ''.'' then Continue InDot ns
      else if c = CHR ''e'' \<or> c = CHR ''E'' then Continue InE ns else end_value ns c)"

fun scan_step :: "scan_mode \<Rightarrow> nesting list \<Rightarrow> char \<Rightarrow> scan_result" where
  "scan_step BeginValue ns c = begin_value ns c"
| "scan_step BeginValueOrEmpty ns c =
     (if json_space c then Continue BeginValueOrEmpty ns
      else if c = CHR '']'' then end_value ns c else begin_value ns c)"
| "scan_step BeginStringOrEmpty ns c =
     (if json_space c then Continue BeginStringOrEmpty ns
      else if c = CHR ''}'' then end_value (ObjectValue # tl ns) c
      else if c = quotation then Continue InString ns else Invalid)"
| "scan_step BeginString ns c =
     (if json_space c then Continue BeginString ns
      else if c = quotation then Continue InString ns else Invalid)"
| "scan_step InString ns c =
     (if c = quotation then Continue EndValue ns
      else if c = backslash then Continue InEscape ns
      else if byte c < 32 then Invalid else Continue InString ns)"
| "scan_step InEscape ns c =
     (if c \<in> set ''bfnrt/'' \<or> c = backslash \<or> c = quotation then Continue InString ns
      else if c = CHR ''u'' then Continue (InEscapeU 3) ns else Invalid)"
| "scan_step (InEscapeU k) ns c =
     (if hex_val c = None then Invalid
      else case k of 0 \<Rightarrow> Continue InString ns | Suc j \<Rightarrow> Continue (InEscapeU j) ns)"
| "scan_step InMinus ns c =
     (if c = CHR ''0'' then Continue InZero ns
      else if ascii_digit c then Continue InDigits ns else Invalid)"
| "scan_step InZero ns c = after_zero ns c"
| "scan_step InDigits ns c = (if ascii_digit c then Continue InDigits ns else after_zero ns c)"
| "scan_step InDot ns c = (if ascii_digit c then Continue InFraction ns else Invalid)"
| "scan_step InFraction ns c =
     (if ascii_digit c then Continue InFraction ns
      else if c = CHR ''e'' \<or> c = CHR ''E'' then Continue InE ns else end_value ns c)"
| "scan_step InE ns c =
     (if c = CHR ''+'' \<or> c = CHR ''-'' then Continue InESign ns
      else if ascii_digit c then Continue InExponent ns else Invalid)"
| "scan_step InESign ns c = (if ascii_digit c then Continue InExponent ns else Invalid)"
| "scan_step InExponent ns c = (if ascii_digit c then Continue InExponent ns else end_value ns c)"
| "scan_step (InName name) ns c =
     (case name of [] \<Rightarrow> end_value ns c
      | x # xs \<Rightarrow> if c = x then Continue (if xs = [] then EndValue else InName xs) ns else Invalid)"
| "scan_step EndValue ns c = end_value ns c"

text \<open>
  \<open>readValue\<close>: how many bytes the next value takes, with the space before it. At the end of the input
  the scanner is given one more space.
\<close>

fun read_value :: "scan_mode \<Rightarrow> nesting list \<Rightarrow> string \<Rightarrow> nat option" where
  "read_value md ns [] = (if scan_step md ns (CHR '' '') = Finished then Some 0 else None)"
| "read_value md ns (c # cs) =
     (case scan_step md ns c of
        Finished \<Rightarrow> Some 0
      | Invalid \<Rightarrow> None
      | Continue md' ns' \<Rightarrow> map_option Suc (read_value md' ns' cs))"

lemma read_value_length: "read_value md ns s = Some n \<Longrightarrow> n \<le> length s"
  by (induction md ns s arbitrary: n rule: read_value.induct) (auto split: if_splits scan_result.splits)

lemma read_value_nonempty:
  assumes "read_value BeginValue ns s = Some n"
  shows "0 < n"
  using assms
  by (cases s) (auto simp: begin_value_def push_def json_space_def split: if_splits scan_result.splits)

section \<open>The token decoder\<close>

text \<open>
  Where the decoder stands in an object: outside, before the first key, before another key, before a
  colon, before a value, after a value.
\<close>

datatype position = TopValue | ObjectStart | NextKey | Colon | MemberValue | Comma

type_synonym decoder = "position \<times> string"

datatype json_token = Delim char | Key string | Other

datatype decode_error = Eof | Syntax

definition skip_space :: "string \<Rightarrow> string" where
  "skip_space s = dropWhile json_space s"

text \<open>The bytes of a value without the space before it, and what follows.\<close>

definition raw_value :: "string \<Rightarrow> (string \<times> string) option" where
  "raw_value s =
     (case read_value BeginValue [] s of
        None \<Rightarrow> None
      | Some n \<Rightarrow> Some (skip_space (take n s), drop n s))"

definition value_allowed :: "position \<Rightarrow> bool" where
  "value_allowed p \<longleftrightarrow> p = TopValue \<or> p = MemberValue"

definition value_end :: "position \<Rightarrow> position" where
  "value_end p = (if p = MemberValue then Comma else p)"

definition has_more :: "decoder \<Rightarrow> bool" where
  "has_more d = (case skip_space (snd d) of [] \<Rightarrow> False | c # cs \<Rightarrow> c \<noteq> CHR '']'' \<and> c \<noteq> CHR ''}'')"

section \<open>Literals\<close>

text \<open>The UTF-8 encoding of a code point; surrogates and values beyond the range become U+FFFD.\<close>

definition encode_rune :: "nat \<Rightarrow> string" where
  "encode_rune r =
     (let v = (if 1114111 < r \<or> 55296 \<le> r \<and> r \<le> 57343 then rune_error else r)
      in if v < 128 then [char_of v]
         else if v < 2048 then [char_of (192 + v div 64), char_of (128 + v mod 64)]
         else if v < 65536 then
           [char_of (224 + v div 4096), char_of (128 + v div 64 mod 64), char_of (128 + v mod 64)]
         else
           [char_of (240 + v div 262144), char_of (128 + v div 4096 mod 64), char_of (128 + v div 64 mod 64),
            char_of (128 + v mod 64)])"

text \<open>\<open>getu4\<close>: a numeric escape at the head of the bytes.\<close>

definition getu4 :: "string \<Rightarrow> nat option" where
  "getu4 s =
     (case s of
        b # u # h3 # h2 # h1 # h0 # rest \<Rightarrow>
          if b \<noteq> backslash \<or> u \<noteq> CHR ''u'' then None
          else (case (hex_val h3, hex_val h2, hex_val h1, hex_val h0) of
                  (Some d3, Some d2, Some d1, Some d0) \<Rightarrow> Some (4096 * d3 + 256 * d2 + 16 * d1 + d0)
                | _ \<Rightarrow> None)
      | _ \<Rightarrow> None)"

text \<open>The UTF-8 bytes of a numeric escape and its width: one escape, or two that are a surrogate pair.\<close>

definition numeric_escape :: "string \<Rightarrow> (string \<times> nat) option" where
  "numeric_escape s =
     (case getu4 s of
        None \<Rightarrow> None
      | Some r \<Rightarrow>
          if 55296 \<le> r \<and> r < 57344 then
            (case getu4 (drop 6 s) of
               Some r1 \<Rightarrow>
                 if r < 56320 \<and> 56320 \<le> r1 \<and> r1 < 57344
                 then Some (encode_rune (1024 * (r - 55296) + (r1 - 56320) + 65536), 12)
                 else Some (encode_rune rune_error, 6)
             | None \<Rightarrow> Some (encode_rune rune_error, 6))
          else Some (encode_rune r, 6))"

definition simple_escape :: "char \<Rightarrow> char option" where
  "simple_escape c =
     (if c = quotation \<or> c = backslash \<or> c = CHR ''/'' then Some c
      else if c = CHR ''b'' then Some (char_of (8 :: nat)) else if c = CHR ''f'' then Some (char_of (12 :: nat))
      else if c = CHR ''n'' then Some (char_of (10 :: nat)) else if c = CHR ''r'' then Some (char_of (13 :: nat))
      else if c = CHR ''t'' then Some (char_of (9 :: nat)) else None)"

text \<open>\<open>unquote\<close> on the bytes between the quotes.\<close>

function unquote :: "string \<Rightarrow> string option" where
  "unquote [] = Some []"
| "unquote (c # cs) =
     (if c = backslash then
        (case cs of
           [] \<Rightarrow> None
         | x # xs \<Rightarrow>
             if x = CHR ''u'' then
               (case numeric_escape (c # cs) of
                  None \<Rightarrow> None
                | Some (text, w) \<Rightarrow> map_option ((@) text) (unquote (drop (w - 1) cs)))
             else
               (case simple_escape x of
                  None \<Rightarrow> None
                | Some y \<Rightarrow> map_option ((#) y) (unquote xs)))
      else if c = quotation \<or> byte c < 32 then None
      else if byte c < 128 then map_option ((#) c) (unquote cs)
      else
        (case decode_rune c cs of
           (r, w) \<Rightarrow> map_option ((@) (encode_rune r)) (unquote (drop (w - 1) cs))))"
  by pat_completeness auto
termination by (relation "measure length") auto

definition string_value :: "string \<Rightarrow> string option" where
  "string_value v =
     (if v \<noteq> [] \<and> hd v = quotation then unquote (butlast (tl v)) else None)"

text \<open>
  \<open>strconv.ParseInt\<close> in base ten and 64 bits on a number literal, and the range check of the field.
\<close>

definition number_literal :: "string \<Rightarrow> bool" where
  "number_literal v \<longleftrightarrow> v \<noteq> [] \<and> (hd v = CHR ''-'' \<or> ascii_digit (hd v))"

definition int_value :: "nat \<Rightarrow> string \<Rightarrow> int option" where
  "int_value bits v =
     (if \<not> number_literal v then None
      else
        let digits = (if hd v = CHR ''-'' then tl v else v)
        in case (if digits = [] then None else nat_of_digits 0 digits) of
             None \<Rightarrow> None
           | Some n \<Rightarrow>
               (let i = (if hd v = CHR ''-'' then - int n else int n)
                in if - (2 ^ 63) \<le> i \<and> i < 2 ^ 63 \<and> - (2 ^ (bits - 1)) \<le> i \<and> i < 2 ^ (bits - 1)
                   then Some i else None))"

definition bool_value :: "string \<Rightarrow> bool option" where
  "bool_value v = (if v = ''true'' then Some True else if v = ''false'' then Some False else None)"

section \<open>Token and Decode\<close>

function token :: "decoder \<Rightarrow> (decode_error + json_token) \<times> decoder" where
  "token (p, s) =
     (case skip_space s of
        [] \<Rightarrow> (Inl Eof, (p, []))
      | c # cs \<Rightarrow>
          if c = CHR ''{'' then
            (if value_allowed p then (Inr (Delim c), (ObjectStart, cs)) else (Inl Syntax, (p, c # cs)))
          else if c = CHR ''['' then
            (if value_allowed p then (Inr (Delim c), (p, cs)) else (Inl Syntax, (p, c # cs)))
          else if c = CHR '']'' then (Inl Syntax, (p, c # cs))
          else if c = CHR ''}'' then
            (if p = ObjectStart \<or> p = Comma then (Inr (Delim c), (TopValue, cs)) else (Inl Syntax, (p, c # cs)))
          else if c = CHR '':'' then
            (if p = Colon then token (MemberValue, cs) else (Inl Syntax, (p, c # cs)))
          else if c = CHR '','' then
            (if p = Comma then token (NextKey, cs) else (Inl Syntax, (p, c # cs)))
          else if c = quotation \<and> (p = ObjectStart \<or> p = NextKey) then
            (case raw_value (c # cs) of
               None \<Rightarrow> (Inl Syntax, (p, c # cs))
             | Some (v, rest) \<Rightarrow>
                 (case string_value v of
                    None \<Rightarrow> (Inl Syntax, (p, c # cs))
                  | Some key \<Rightarrow> (Inr (Key key), (Colon, rest))))
          else if \<not> value_allowed p then (Inl Syntax, (p, c # cs))
          else
            (case raw_value (c # cs) of
               None \<Rightarrow> (Inl Syntax, (p, c # cs))
             | Some (v, rest) \<Rightarrow> (Inr Other, (value_end p, rest))))"
  by pat_completeness auto
termination
proof (relation "measure (\<lambda>d. length (snd d))")
  have "length cs < length s" if "skip_space s = c # cs" for c and cs s :: string
    using that length_dropWhile_le [of json_space s] by (simp add: skip_space_def)
  then show "skip_space s = c # cs \<Longrightarrow> ((MemberValue, cs), p, s) \<in> measure (\<lambda>d. length (snd d))"
    "skip_space s = c # cs \<Longrightarrow> ((NextKey, cs), p, s) \<in> measure (\<lambda>d. length (snd d))"
    for p c and cs s :: string by auto
qed simp

declare token.simps [simp del]

text \<open>\<open>Decode\<close> into a \<open>RawMessage\<close>.\<close>

definition decode_raw :: "decoder \<Rightarrow> (decode_error + string) \<times> decoder" where
  "decode_raw d =
     (case (case d of
              (Colon, s) \<Rightarrow>
                (case skip_space s of
                   [] \<Rightarrow> None
                 | c # cs \<Rightarrow> if c = CHR '':'' then Some (MemberValue, cs) else None)
            | _ \<Rightarrow> Some d) of
        None \<Rightarrow> (Inl Syntax, d)
      | Some (p, s) \<Rightarrow>
          if \<not> value_allowed p then (Inl Syntax, d)
          else case raw_value s of
            None \<Rightarrow> (Inl Syntax, d)
          | Some (v, rest) \<Rightarrow> (Inr v, (value_end p, rest)))"

section \<open>Writing strings\<close>

definition hex_digit :: "nat \<Rightarrow> char" where
  "hex_digit d = (if d < 10 then char_of (48 + d) else char_of (87 + d))"

text \<open>The bytes that \<open>Marshal\<close> copies; the others below 128 are escaped, also those special to HTML.\<close>

definition html_safe :: "char \<Rightarrow> bool" where
  "html_safe c \<longleftrightarrow> 32 \<le> byte c \<and> c \<noteq> quotation \<and> c \<noteq> backslash \<and> c \<noteq> CHR ''<'' \<and> c \<noteq> CHR ''>'' \<and> c \<noteq> CHR ''&''"

definition escape :: "char \<Rightarrow> string" where
  "escape c =
     (if c = quotation \<or> c = backslash then [backslash, c]
      else if byte c = 8 then [backslash, CHR ''b''] else if byte c = 12 then [backslash, CHR ''f'']
      else if byte c = 10 then [backslash, CHR ''n''] else if byte c = 13 then [backslash, CHR ''r'']
      else if byte c = 9 then [backslash, CHR ''t'']
      else backslash # ''u00'' @ [hex_digit (byte c div 16), hex_digit (byte c mod 16)])"

function quote_body :: "string \<Rightarrow> string" where
  "quote_body [] = []"
| "quote_body (c # cs) =
     (if byte c < 128 then (if html_safe c then [c] else escape c) @ quote_body cs
      else
        (case decode_rune c cs of
           (r, w) \<Rightarrow>
             (if r = rune_error \<and> w = 1 then backslash # ''ufffd''
              else if r = 8232 \<or> r = 8233 then backslash # ''u202'' @ [hex_digit (r mod 16)]
              else take w (c # cs)) @ quote_body (drop (w - 1) cs)))"
  by pat_completeness auto
termination by (relation "measure length") auto

definition quote :: "string \<Rightarrow> string" where
  "quote s = quotation # quote_body s @ [quotation]"

definition int_text :: "int \<Rightarrow> string" where
  "int_text i = (if i < 0 then CHR ''-'' # dec (nat (- i)) else dec (nat i))"

definition bool_text :: "bool \<Rightarrow> string" where
  "bool_text b = (if b then ''true'' else ''false'')"

end
