(* ===== verification/Decode.thy ===== *)
theory Decode
  imports Json
begin

text \<open>
  \<open>Decode\<close> and \<open>uniqueFields\<close> of the gateway (\<open>apps/gateway/internal/model/event.go\<close>) over the decoder of
  \<open>Json\<close>, and the canonical bytes that \<open>json.Marshal\<close> writes for an event.
\<close>

section \<open>The members of the object\<close>

datatype field_error = Broken decode_error | ObjectRequired | InvalidKey | DuplicateKey | TrailingData

type_synonym json_fields = "(string \<times> string) list"

text \<open>The loop over the members; \<open>None\<close> would be a loop that never ends.\<close>

partial_function (option) fields_loop ::
  "decoder \<Rightarrow> json_fields \<Rightarrow> (field_error + json_fields \<times> decoder) option" where
  "fields_loop d fs =
     (if \<not> has_more d then Some (Inr (fs, d))
      else case token d of
        (Inl e, d1) \<Rightarrow> Some (Inl (Broken e))
      | (Inr t, d1) \<Rightarrow>
      case t of
        Delim c \<Rightarrow> Some (Inl InvalidKey)
      | Other \<Rightarrow> Some (Inl InvalidKey)
      | Key key \<Rightarrow>
          if map_of fs key \<noteq> None then Some (Inl DuplicateKey)
          else case decode_raw d1 of
            (Inl e, d2) \<Rightarrow> Some (Inl (Broken e))
          | (Inr v, d2) \<Rightarrow> fields_loop d2 ((key, v) # fs))"

definition unique_fields :: "string \<Rightarrow> (field_error + json_fields) option" where
  "unique_fields raw =
     (case token (TopValue, raw) of
        (Inl e, d) \<Rightarrow> Some (Inl ObjectRequired)
      | (Inr t, d) \<Rightarrow>
          if t \<noteq> Delim (CHR ''{'') then Some (Inl ObjectRequired)
          else case fields_loop d [] of
            None \<Rightarrow> None
          | Some (Inl e) \<Rightarrow> Some (Inl e)
          | Some (Inr (fs, d1)) \<Rightarrow>
          case token d1 of
            (Inl e, d2) \<Rightarrow> Some (Inl (Broken e))
          | (Inr t, d2) \<Rightarrow>
              if fst (token d2) = Inl Eof then Some (Inr fs) else Some (Inl TrailingData))"

section \<open>Decode\<close>

definition required_fields :: "string list" where
  "required_fields = [''event_id'', ''amount_cents'', ''currency'', ''merchant_category'', ''country'',
     ''card_present'', ''hour_utc'', ''velocity_5m'', ''velocity_1h'', ''prior_declines'']"

definition trim_space :: "string \<Rightarrow> string" where
  "trim_space s = (let space = (\<lambda>c. byte c = 32 \<or> 9 \<le> byte c \<and> byte c \<le> 13)
     in rev (dropWhile space (rev (dropWhile space s))))"

definition missing :: "json_fields \<Rightarrow> string \<Rightarrow> bool" where
  "missing fs key =
     (case map_of fs key of None \<Rightarrow> True | Some v \<Rightarrow> trim_space v = ''null'')"

text \<open>
  \<open>json.Unmarshal\<close> into the struct, for an object that has exactly the ten keys: every value must be of
  its field's type and in its range.
\<close>

definition field :: "json_fields \<Rightarrow> string \<Rightarrow> string" where
  "field fs key = (case map_of fs key of Some v \<Rightarrow> v | None \<Rightarrow> ''null'')"

definition int_field :: "nat \<Rightarrow> json_fields \<Rightarrow> string \<Rightarrow> ('w::len) word option" where
  "int_field bits fs key = map_option word_of_int (int_value bits (field fs key))"

definition unmarshal :: "json_fields \<Rightarrow> payment_event option" where
  "unmarshal fs =
     (case (string_value (field fs ''event_id''), int_field 64 fs ''amount_cents'',
            string_value (field fs ''currency''), int_field 32 fs ''merchant_category'',
            string_value (field fs ''country''), bool_value (field fs ''card_present''),
            int_field 32 fs ''hour_utc'', int_field 32 fs ''velocity_5m'',
            int_field 32 fs ''velocity_1h'', int_field 32 fs ''prior_declines'') of
        (Some a, Some b, Some c, Some d, Some e, Some f, Some g, Some h, Some i, Some j) \<Rightarrow>
          Some \<lparr>event_id = a, amount_cents = b, currency = c, merchant_category = d, country = e,
            card_present = f, hour_utc = g, velocity_5m = h, velocity_1h = i, prior_declines = j\<rparr>
      | _ \<Rightarrow> None)"

definition decode_fields :: "json_fields \<Rightarrow> string + payment_event" where
  "decode_fields fs =
     (case find (missing fs) required_fields of
        Some key \<Rightarrow> Inl (key @ '' is required'')
      | None \<Rightarrow>
          if length fs \<noteq> 10 then Inl ''unexpected event fields''
          else case unmarshal fs of
            None \<Rightarrow> Inl ''invalid field type or range''
          | Some event \<Rightarrow> go_validate event)"

definition decode :: "string \<Rightarrow> (string + payment_event) option" where
  "decode raw =
     (case unique_fields raw of
        None \<Rightarrow> None
      | Some (Inl e) \<Rightarrow> Some (Inl ''invalid JSON'')
      | Some (Inr fs) \<Rightarrow> Some (decode_fields fs))"

section \<open>The canonical bytes\<close>

definition event_fields_text :: "payment_event \<Rightarrow> json_fields" where
  "event_fields_text e =
     [(''event_id'', quote (event_id e)), (''amount_cents'', int_text (sint (amount_cents e))),
      (''currency'', quote (currency e)), (''merchant_category'', int_text (sint (merchant_category e))),
      (''country'', quote (country e)), (''card_present'', bool_text (card_present e)),
      (''hour_utc'', int_text (sint (hour_utc e))), (''velocity_5m'', int_text (sint (velocity_5m e))),
      (''velocity_1h'', int_text (sint (velocity_1h e))), (''prior_declines'', int_text (sint (prior_declines e)))]"

fun members :: "json_fields \<Rightarrow> string" where
  "members [] = []"
| "members [(k, v)] = quote k @ '':'' @ v"
| "members ((k, v) # fs) = quote k @ '':'' @ v @ '','' @ members fs"

definition marshal :: "payment_event \<Rightarrow> string" where
  "marshal e = ''{'' @ members (event_fields_text e) @ ''}''"

section \<open>Termination\<close>

lemma skip_space_length: "length (skip_space s) \<le> length s"
  by (simp add: skip_space_def length_dropWhile_le)

lemma raw_value_shorter: "raw_value s = Some (v, rest) \<Longrightarrow> length rest < length s"
  using read_value_nonempty read_value_length
  by (fastforce simp: raw_value_def split: option.splits)

lemma token_shorter: "token d = (Inr t, d') \<Longrightarrow> length (snd d') < length (snd d)"
proof (induction d rule: token.induct)
  case (1 p s)
  show ?case
  proof (cases "skip_space s")
    case Nil
    then show ?thesis using "1.prems" by (simp add: token.simps)
  next
    case (Cons c cs)
    then have len: "length (c # cs) \<le> length s" using skip_space_length [of s] by simp
    from "1.prems" [unfolded token.simps [of p s]] Cons len show ?thesis
      using "1.IH" [OF Cons]
      by (fastforce split: if_splits option.splits prod.splits dest: raw_value_shorter)
  qed
qed

lemma decode_raw_shorter: "decode_raw d = (Inr v, d') \<Longrightarrow> length (snd d') < length (snd d)"
proof -
  assume run: "decode_raw d = (Inr v, d')"
  obtain p s where d: "d = (p, s)" by fastforce
  show ?thesis
  proof (cases "p = Colon")
    case True
    obtain cs where cs: "skip_space s = CHR '':'' # cs" and rest: "raw_value cs \<noteq> None"
      and d': "snd d' = snd (the (raw_value cs))"
      using run by (auto simp: d True decode_raw_def value_allowed_def split: list.splits if_splits option.splits)
    have "length (snd (the (raw_value cs))) < length cs"
      using rest raw_value_shorter [of cs] by (metis not_Some_eq option.sel prod.collapse)
    moreover have "length cs < length s" using skip_space_length [of s] by (simp add: cs)
    ultimately show ?thesis by (simp add: d d')
  next
    case False
    then show ?thesis using run raw_value_shorter
      by (auto simp: d decode_raw_def split: position.splits if_splits option.splits)
  qed
qed

lemma fields_loop_returns: "\<exists>r. fields_loop d fs = Some r"
proof (induction "length (snd d)" arbitrary: d fs rule: less_induct)
  case less
  show ?case
  proof (cases "\<exists>key d1 v d2. token d = (Inr (Key key), d1) \<and> decode_raw d1 = (Inr v, d2)")
    case True
    then obtain key d1 v d2 where t: "token d = (Inr (Key key), d1)" "decode_raw d1 = (Inr v, d2)" by blast
    then have "length (snd d2) < length (snd d)" using token_shorter decode_raw_shorter less_trans by blast
    then have "\<exists>r. fields_loop d2 ((key, v) # fs) = Some r" by (rule less)
    with t show ?thesis by (simp add: fields_loop.simps [of d fs])
  next
    case False
    then show ?thesis
      by (subst fields_loop.simps) (auto split: sum.splits prod.splits json_token.splits)
  qed
qed

text \<open>
  C15. Decoding always ends, with an event or an error, whatever bytes arrive: every turn of the loop over
  the members consumes input.
\<close>

theorem decode_returns: "\<exists>r. decode raw = Some r"
proof -
  obtain r d where t: "token (TopValue, raw) = (r, d)" by (rule prod.exhaust)
  obtain q where "fields_loop d [] = Some q" using fields_loop_returns by blast
  then have "\<exists>r. unique_fields raw = Some r"
    by (auto simp: unique_fields_def t split: sum.splits prod.splits)
  then show ?thesis by (auto simp: decode_def split: sum.splits)
qed

section \<open>Texts of objects\<close>

abbreviation spaces :: "string \<Rightarrow> bool" where
  "spaces w \<equiv> list_all json_space w"

text \<open>A JSON value in full, without space around it, and a JSON string.\<close>

definition json_text :: "string \<Rightarrow> bool" where
  "json_text v \<longleftrightarrow> v \<noteq> [] \<and> \<not> json_space (hd v) \<and> read_value BeginValue [] v = Some (length v)"

definition json_string :: "string \<Rightarrow> string \<Rightarrow> bool" where
  "json_string kt k \<longleftrightarrow> json_text kt \<and> hd kt = quotation \<and> string_value kt = Some k"

definition delimiter :: "char \<Rightarrow> bool" where
  "delimiter c \<longleftrightarrow> json_space c \<or> c \<in> set '',:}]''"

definition delimited :: "string \<Rightarrow> bool" where
  "delimited s \<longleftrightarrow> (case s of [] \<Rightarrow> True | c # cs \<Rightarrow> delimiter c)"

lemma end_value_finished: "end_value ns c = Finished \<longleftrightarrow> ns = []"
  by (auto simp: end_value_def split: list.splits nesting.splits)

lemma begin_value_unfinished: "begin_value ns c \<noteq> Finished"
  by (simp add: begin_value_def push_def)

lemma finished_at_delimiter:
  assumes "scan_step md ns (CHR '' '') = Finished" "delimiter c"
  shows "scan_step md ns c = Finished"
proof -
  have "\<not> ascii_digit c" "c \<noteq> CHR ''.''" "c \<noteq> CHR ''e''" "c \<noteq> CHR ''E''"
    using assms(2) by (auto simp: delimiter_def json_space_def ascii_digit_def)
  then show ?thesis
    using assms(1)
    by (cases md) (auto simp: end_value_finished begin_value_unfinished after_zero_def json_space_def quotation_def
        backslash_def hex_val_def ascii_digit_def split: if_splits list.splits nat.splits)
qed

lemma read_value_extend:
  assumes "read_value md ns v = Some (length v)" "delimited rest"
  shows "read_value md ns (v @ rest) = Some (length v)"
  using assms
proof (induction md ns v rule: read_value.induct)
  case (1 md ns)
  then show ?case
    by (cases rest) (auto simp: delimited_def finished_at_delimiter split: if_splits)
next
  case (2 md ns c cs)
  then show ?case by (auto split: scan_result.splits)
qed

lemma read_value_spaces:
  "spaces w \<Longrightarrow> read_value BeginValue ns (w @ s) = map_option ((+) (length w)) (read_value BeginValue ns s)"
proof (induction w)
  case Nil
  then show ?case by (cases "read_value BeginValue ns s") simp_all
next
  case (Cons c w)
  then show ?case by (cases "read_value BeginValue ns s") (simp_all add: begin_value_def)
qed

lemma skip_spaces: "spaces w \<Longrightarrow> skip_space (w @ s) = skip_space s"
  by (induction w) (simp_all add: skip_space_def)

lemma skip_space_text: "json_text v \<Longrightarrow> skip_space (v @ s) = v @ s"
  by (cases v) (simp_all add: json_text_def skip_space_def)

lemma raw_value_text:
  assumes "spaces w" "json_text v" "delimited rest"
  shows "raw_value (w @ v @ rest) = Some (v, rest)"
proof -
  have "read_value BeginValue [] (v @ rest) = Some (length v)"
    using assms(2,3) read_value_extend by (simp add: json_text_def)
  then have "read_value BeginValue [] (w @ v @ rest) = Some (length w + length v)"
    using read_value_spaces [OF assms(1)] by simp
  then show ?thesis
    using skip_spaces [OF assms(1), of v] skip_space_text [OF assms(2), of "[]"] by (simp add: raw_value_def)
qed

text \<open>A member as it is written: its key and value, with any space around them, and a list of members.\<close>

record member =
  before_key :: string
  key_text :: string
  before_colon :: string
  before_value :: string
  value_text :: string
  after_value :: string

definition member_ok :: "member \<Rightarrow> string \<Rightarrow> bool" where
  "member_ok m k \<longleftrightarrow> spaces (before_key m) \<and> json_string (key_text m) k \<and> spaces (before_colon m) \<and>
     spaces (before_value m) \<and> json_text (value_text m) \<and> spaces (after_value m)"

definition member_text :: "member \<Rightarrow> string" where
  "member_text m = before_key m @ key_text m @ before_colon m @ '':'' @ before_value m @ value_text m @ after_value m"

fun more_members :: "member list \<Rightarrow> string" where
  "more_members [] = []"
| "more_members (m # ms) = '','' @ member_text m @ more_members ms"

definition object_text :: "string \<Rightarrow> member list \<Rightarrow> string \<Rightarrow> string" where
  "object_text w ms w' = w @ ''{'' @
     (case ms of [] \<Rightarrow> [] | m # ms' \<Rightarrow> member_text m @ more_members ms') @ ''}'' @ w'"

lemma delimited_spaces: "spaces w \<Longrightarrow> delimited s \<Longrightarrow> delimited (w @ s)"
  by (cases w) (simp_all add: delimited_def delimiter_def)

lemma not_special: "\<not> json_space quotation" "quotation \<noteq> CHR ''{''" "quotation \<noteq> CHR ''[''" "quotation \<noteq> CHR '']''"
  "quotation \<noteq> CHR ''}''" "quotation \<noteq> CHR '':''" "quotation \<noteq> CHR '',''"
  by (simp_all add: quotation_def json_space_def)

lemma token_key:
  assumes "spaces w" "json_string kt k" "delimited rest" "p = ObjectStart \<or> p = NextKey"
  shows "token (p, w @ kt @ rest) = (Inr (Key k), (Colon, rest))"
proof -
  have kt: "json_text kt" "string_value kt = Some k" using assms(2) by (simp_all add: json_string_def)
  then obtain cs where cs: "kt = quotation # cs" using assms(2) by (cases kt) (auto simp: json_string_def json_text_def)
  have "skip_space (w @ kt @ rest) = quotation # cs @ rest"
    using skip_spaces [OF assms(1)] skip_space_text [OF kt(1), of rest] by (simp add: cs)
  moreover have "raw_value (quotation # cs @ rest) = Some (kt, rest)"
    using raw_value_text [of "[]" kt rest] kt(1) assms(3) by (simp add: cs)
  ultimately show ?thesis
    using assms(4) kt(2) by (auto simp: token.simps [of p] not_special)
qed

lemma token_comma:
  assumes "spaces w"
  shows "token (Comma, w @ '','' @ s) = token (NextKey, s)"
  using skip_spaces [OF assms, of "'','' @ s"] by (simp add: token.simps [of Comma] skip_space_def json_space_def)

lemma decode_member:
  assumes "member_ok m k" "delimited rest"
  shows "decode_raw (Colon, before_colon m @ '':'' @ before_value m @ value_text m @ rest) =
     (Inr (value_text m), (Comma, rest))"
proof -
  have "skip_space (before_colon m @ '':'' @ before_value m @ value_text m @ rest) =
      CHR '':'' # before_value m @ value_text m @ rest"
    using assms(1) skip_spaces [of "before_colon m"] by (simp add: member_ok_def skip_space_def json_space_def)
  moreover have "raw_value (before_value m @ value_text m @ rest) = Some (value_text m, rest)"
    using raw_value_text assms by (simp add: member_ok_def)
  ultimately show ?thesis by (simp add: decode_raw_def value_allowed_def value_end_def)
qed

text \<open>One turn of the loop, at the first member and at every other one.\<close>

lemma fields_loop_member:
  assumes m: "member_ok m k" "delimited rest"
    and t: "has_more (p, s)" "token (p, s) = token (q, member_text m @ rest)" "q = ObjectStart \<or> q = NextKey"
  shows "fields_loop (p, s) fs =
    (if k \<in> fst ` set fs then Some (Inl DuplicateKey)
     else fields_loop (Comma, after_value m @ rest) ((k, value_text m) # fs))"
proof -
  let ?r1 = "before_colon m @ '':'' @ before_value m @ value_text m @ after_value m @ rest"
  have "delimited ?r1"
    by (rule delimited_spaces) (use m(1) in \<open>simp_all add: member_ok_def delimited_def delimiter_def\<close>)
  then have key: "token (p, s) = (Inr (Key k), (Colon, ?r1))"
    using t(2,3) m(1) token_key [of "before_key m" "key_text m" k ?r1 q]
    by (simp add: member_text_def member_ok_def)
  have "delimited (after_value m @ rest)" by (rule delimited_spaces) (use m in \<open>simp_all add: member_ok_def\<close>)
  then have "decode_raw (Colon, ?r1) = (Inr (value_text m), (Comma, after_value m @ rest))"
    using decode_member [OF m(1)] by simp
  with t(1) key show ?thesis by (subst fields_loop.simps) (simp add: map_of_eq_None_iff)
qed

lemma more_member: "member_ok m k \<Longrightarrow> has_more (p, member_text m @ rest)"
proof -
  assume m: "member_ok m k"
  then have "json_text (key_text m)" "hd (key_text m) = quotation" by (simp_all add: member_ok_def json_string_def)
  moreover from this obtain cs where "key_text m = quotation # cs" by (cases "key_text m") (auto simp: json_text_def)
  ultimately show ?thesis
    using m skip_spaces [of "before_key m"]
    by (simp add: has_more_def member_text_def member_ok_def skip_space_def not_special)
qed

lemma more_comma: "spaces w \<Longrightarrow> has_more (p, w @ '','' @ s)"
  and no_more: "spaces w \<Longrightarrow> \<not> has_more (p, w @ ''}'' @ s)"
  using skip_spaces [of w "'','' @ s"] skip_spaces [of w "''}'' @ s"]
  by (simp_all add: has_more_def skip_space_def json_space_def)

lemma delimited_members: "delimited (more_members ms @ ''}'' @ s)"
  by (cases ms) (simp_all add: delimited_def delimiter_def)

lemma fields_loop_members:
  assumes "list_all2 member_ok ms ks" "spaces w" "distinct (map fst fs)"
  shows "\<exists>w'. spaces w' \<and> fields_loop (Comma, w @ more_members ms @ ''}'' @ after) fs =
    Some (if distinct (ks @ map fst fs)
          then Inr (rev (zip ks (map value_text ms)) @ fs, (Comma, w' @ ''}'' @ after)) else Inl DuplicateKey)"
  using assms
proof (induction ms ks arbitrary: w fs rule: list_all2_induct)
  case Nil
  then show ?case using no_more [of w] by (intro exI [of _ w]) (subst fields_loop.simps, simp)
next
  case (Cons m ms k ks)
  let ?rest = "more_members ms @ ''}'' @ after"
  have step: "fields_loop (Comma, w @ '','' @ member_text m @ ?rest) fs =
    (if k \<in> fst ` set fs then Some (Inl DuplicateKey)
     else fields_loop (Comma, after_value m @ ?rest) ((k, value_text m) # fs))"
    by (rule fields_loop_member [OF Cons.hyps(1) delimited_members more_comma token_comma])
      (use Cons.prems in simp_all)
  show ?case
  proof (cases "k \<in> fst ` set fs")
    case True
    with step show ?thesis by (intro exI [of _ "[]"]) auto
  next
    case False
    have "spaces (after_value m)" using Cons.hyps(1) by (simp add: member_ok_def)
    moreover have "distinct (map fst ((k, value_text m) # fs))" using False Cons.prems(2) by simp
    ultimately obtain w' where "spaces w'" "fields_loop (Comma, after_value m @ ?rest) ((k, value_text m) # fs) =
        Some (if distinct (ks @ map fst ((k, value_text m) # fs))
          then Inr (rev (zip ks (map value_text ms)) @ (k, value_text m) # fs, (Comma, w' @ ''}'' @ after))
          else Inl DuplicateKey)"
      using Cons.IH by blast
    with step False show ?thesis by (intro exI [of _ w']) auto
  qed
qed

lemma token_open: "spaces w \<Longrightarrow> token (TopValue, w @ ''{'' @ s) = (Inr (Delim (CHR ''{'')), (ObjectStart, s))"
  using skip_spaces [of w "''{'' @ s"]
  by (simp add: token.simps [of TopValue] skip_space_def json_space_def value_allowed_def)

lemma token_close:
  "spaces w \<Longrightarrow> p = ObjectStart \<or> p = Comma \<Longrightarrow> token (p, w @ ''}'' @ s) = (Inr (Delim (CHR ''}'')), (TopValue, s))"
  using skip_spaces [of w "''}'' @ s"]
  by (auto simp: token.simps [of p] skip_space_def json_space_def)

lemma token_end: "spaces w \<Longrightarrow> token (TopValue, w) = (Inl Eof, (TopValue, []))"
proof -
  assume "spaces w"
  then have "skip_space w = []" by (simp add: skip_space_def dropWhile_eq_Nil_conv list_all_iff)
  then show ?thesis by (simp add: token.simps [of TopValue])
qed

text \<open>The reading of a whole object: all members in their order, unless a key is repeated.\<close>

lemma unique_fields_object:
  assumes "list_all2 member_ok ms ks" "spaces w" "spaces w'"
  shows "unique_fields (object_text w ms w') =
    Some (if distinct ks then Inr (rev (zip ks (map value_text ms))) else Inl DuplicateKey)"
proof (cases ms)
  case Nil
  have "fields_loop (ObjectStart, ''}'' @ w') [] = Some (Inr ([], (ObjectStart, ''}'' @ w')))"
    using no_more [of "[]" ObjectStart w'] by (subst fields_loop.simps) simp
  then show ?thesis
    using assms token_open [OF assms(2), of "''}'' @ w'"] token_close [of "[]" ObjectStart w'] token_end [OF assms(3)]
    by (simp add: unique_fields_def object_text_def Nil)
next
  case (Cons m ms')
  then obtain k ks' where ks: "ks = k # ks'" "member_ok m k" "list_all2 member_ok ms' ks'"
    using assms(1) by (auto simp: list_all2_Cons1)
  let ?rest = "more_members ms' @ ''}'' @ w'"
  have after: "spaces (after_value m)" using ks(2) by (simp add: member_ok_def)
  have first: "fields_loop (ObjectStart, member_text m @ ?rest) [] =
      fields_loop (Comma, after_value m @ ?rest) [(k, value_text m)]"
    using fields_loop_member [OF ks(2) delimited_members more_member [OF ks(2)], of _ _ ObjectStart] by simp
  obtain w2 where w2: "spaces w2" "fields_loop (ObjectStart, member_text m @ ?rest) [] =
      Some (if distinct (ks' @ [k]) then Inr (rev (zip ks' (map value_text ms')) @ [(k, value_text m)], (Comma, w2 @ ''}'' @ w'))
            else Inl DuplicateKey)"
    using fields_loop_members [OF ks(3) after, of "[(k, value_text m)]" w'] unfolding first by auto
  have "token (TopValue, object_text w ms w') = (Inr (Delim (CHR ''{'')), (ObjectStart, member_text m @ ?rest))"
    using token_open [OF assms(2), of "member_text m @ ?rest"] by (simp add: object_text_def Cons)
  then show ?thesis
    using w2 token_close [OF w2(1), of Comma w'] token_end [OF assms(3)]
    by (auto simp: unique_fields_def ks(1) Cons)
qed

text \<open>Only the contents of the fields matter.\<close>

lemma decode_fields_cong:
  assumes "map_of fs = map_of gs" "length fs = length gs"
  shows "decode_fields fs = decode_fields gs"
proof -
  have "missing fs = missing gs" "field fs = field gs" by (rule ext, simp add: missing_def field_def assms(1))+
  then show ?thesis unfolding decode_fields_def unmarshal_def int_field_def by (simp only: assms(2))
qed

lemma map_of_permuted:
  assumes "distinct (map fst xs)" "distinct (map fst ys)" "set xs = set ys"
  shows "map_of xs = map_of ys"
  using assms map_of_inject_set by blast

section \<open>Literals that are read back\<close>

definition plain :: "string \<Rightarrow> bool" where
  "plain s \<longleftrightarrow> list_all (\<lambda>c. byte c < 128 \<and> html_safe c) s"

lemma quote_plain: "plain s \<Longrightarrow> quote s = quotation # s @ [quotation]"
proof -
  have "plain s \<Longrightarrow> quote_body s = s" by (induction s) (simp_all add: plain_def)
  then show "plain s \<Longrightarrow> quote s = quotation # s @ [quotation]" by (simp add: quote_def)
qed

lemma unquote_plain: "plain s \<Longrightarrow> unquote s = Some s"
  by (induction s) (simp_all add: plain_def html_safe_def not_less)

lemma read_plain: "plain s \<Longrightarrow> read_value InString [] (s @ [quotation]) = Some (Suc (length s))"
  by (induction s) (simp_all add: plain_def html_safe_def not_less end_value_def)

lemma string_value_quote: "plain s \<Longrightarrow> string_value (quote s) = Some s"
  by (simp add: quote_plain string_value_def unquote_plain)

lemma json_string_quote: "plain s \<Longrightarrow> json_string (quote s) s"
  using read_plain [of s]
  by (simp add: json_string_def json_text_def quote_plain string_value_def unquote_plain not_special begin_value_def)

lemma digit_val_ascii: "digit_val c \<noteq> None \<longleftrightarrow> ascii_digit c"
  by (auto simp: digit_val_def ascii_digit_def Let_def)

lemma dec_ascii: "list_all ascii_digit (dec n)"
  using dec_digits [of _ n] by (auto simp: list_all_iff simp flip: digit_val_ascii)

lemma dec_head: "0 < n \<Longrightarrow> hd (dec n) \<noteq> CHR ''0''"
proof (induction n rule: dec.induct)
  case (1 n)
  show ?case
  proof (cases "n < 10")
    case True
    then have "byte (digit n) = 48 + n" by (simp add: of_char_digit)
    then show ?thesis using True "1.prems" by (auto simp: dec.simps [of n])
  next
    case False
    then show ?thesis using 1 by (simp add: dec.simps [of n])
  qed
qed

lemma read_digits: "list_all ascii_digit s \<Longrightarrow> read_value InDigits [] s = Some (length s)"
proof (induction s)
  case Nil
  then show ?case by (simp add: after_zero_def end_value_def ascii_digit_def)
qed simp

lemma json_text_dec: "json_text (dec n)" "number_literal (dec n)" "hd (dec n) \<noteq> CHR ''-''"
proof -
  obtain c cs where c: "dec n = c # cs" by (cases "dec n") auto
  have d: "ascii_digit c" "list_all ascii_digit cs" using dec_ascii [of n] by (simp_all add: c)
  have zero: "c = CHR ''0'' \<Longrightarrow> cs = []"
    using dec_head [of n] c by (cases "n = 0") (simp_all add: dec.simps [of 0] digit_def)
  have "read_value BeginValue [] (c # cs) = Some (Suc (length cs))"
  proof (cases "c = CHR ''0''")
    case True
    then show ?thesis
      using zero by (simp add: begin_value_def json_space_def quotation_def after_zero_def end_value_def)
  next
    case False
    have "\<not> json_space c" using d(1) by (simp add: json_space_def ascii_digit_def)
    moreover have "c \<noteq> CHR ''{''" "c \<noteq> CHR ''[''" "c \<noteq> quotation" "c \<noteq> CHR ''-''" "c \<noteq> CHR ''t''" "c \<noteq> CHR ''f''" "c \<noteq> CHR ''n''"
      using d(1) unfolding ascii_digit_def quotation_def by (rule_tac notI, simp)+
    ultimately have "scan_step BeginValue [] c = Continue InDigits []"
      using False d(1) by (simp add: begin_value_def)
    then show ?thesis using read_digits [OF d(2)] by simp
  qed
  then show "json_text (dec n)" "number_literal (dec n)" "hd (dec n) \<noteq> CHR ''-''"
    using d(1) by (auto simp: json_text_def c json_space_def ascii_digit_def number_literal_def)
qed

lemma int_text_nat: "0 \<le> i \<Longrightarrow> int_text i = dec (nat i)"
  by (simp add: int_text_def)

lemma int_value_text: "0 \<le> i \<Longrightarrow> i < 2 ^ (bits - 1) \<Longrightarrow> bits \<le> 64 \<Longrightarrow> int_value bits (int_text i) = Some i"
proof -
  assume i: "0 \<le> i" "i < 2 ^ (bits - 1)" "bits \<le> 64"
  have "(2 :: int) ^ (bits - 1) \<le> 2 ^ 63" using i(3) by (intro power_increasing) simp_all
  moreover have "- (2 ^ (bits - 1)) \<le> i" using i(1) by (meson order_trans neg_le_0_iff_le zero_le_numeral zero_le_power)
  ultimately show ?thesis
    using i(1,2) json_text_dec(2,3) [of "nat i"] by (simp add: int_text_nat int_value_def Let_def)
qed

lemma int_field_text:
  fixes w :: "'w::len word"
  assumes "field fs key = int_text (sint w)" "0 \<le> sint w" "bits = LENGTH('w)" "bits \<le> 64"
  shows "int_field bits fs key = Some w"
proof -
  have "sint w < 2 ^ (bits - 1)" using sint_lt [of w] assms(3) by simp
  then show ?thesis using int_value_text [OF assms(2) _ assms(4)] by (simp add: int_field_def assms(1))
qed

lemma bool_value_text: "bool_value (bool_text b) = Some b"
  by (simp add: bool_value_def bool_text_def)

lemma json_text_bool: "json_text (bool_text b)"
  by (simp add: bool_text_def json_text_def begin_value_def json_space_def quotation_def end_value_def)

lemma plain_upper: "list_all ascii_upper s \<Longrightarrow> plain s"
  by (induction s) (auto simp: plain_def html_safe_def ascii_upper_def quotation_def backslash_def)

lemma plain_id: "list_all id_byte s \<Longrightarrow> plain s"
proof (induction s)
  case (Cons c s)
  then have "ascii_lower c \<or> ascii_upper c \<or> ascii_digit c \<or> c \<in> set ''_-.:''"
    by (simp add: id_byte_def ascii_alphanumeric_def)
  then have "byte c < 128 \<and> html_safe c"
    by (auto simp: html_safe_def ascii_upper_def ascii_lower_def ascii_digit_def quotation_def backslash_def)
  with Cons show ?case by (simp add: plain_def)
qed (simp add: plain_def)

lemma valid_plain: "valid e \<Longrightarrow> plain (event_id e) \<and> plain (currency e) \<and> plain (country e)"
  by (simp add: valid_def plain_upper plain_id)

section \<open>Every layout of an event\<close>

lemma not_null: "hd v \<noteq> CHR ''n'' \<Longrightarrow> v \<noteq> [] \<Longrightarrow> \<not> json_space (hd v) \<Longrightarrow> byte (hd v) \<noteq> 11 \<Longrightarrow> byte (hd v) \<noteq> 12 \<Longrightarrow>
  trim_space v \<noteq> ''null''"
proof
  assume v: "hd v \<noteq> CHR ''n''" "v \<noteq> []" "\<not> json_space (hd v)" "byte (hd v) \<noteq> 11" "byte (hd v) \<noteq> 12"
    and n: "trim_space v = ''null''"
  let ?space = "\<lambda>c. byte c = 32 \<or> 9 \<le> byte c \<and> byte c \<le> 13"
  have "9 \<le> byte (hd v) \<Longrightarrow> byte (hd v) \<le> 13 \<Longrightarrow> byte (hd v) \<in> {9, 10, 11, 12, 13}" by auto
  then have "\<not> ?space (hd v)" using v(3-5) by (auto simp: json_space_def)
  then have start: "dropWhile ?space v = v" using v(2) by (cases v) auto
  have "v = rev (dropWhile ?space (rev v)) @ rev (takeWhile ?space (rev v))"
    by (metis rev_append rev_rev_ident takeWhile_dropWhile_id)
  moreover have "rev (dropWhile ?space (rev v)) = ''null''" using n by (simp only: trim_space_def Let_def start)
  ultimately have "v = ''null'' @ rev (takeWhile ?space (rev v))" by (rule subst [rotated])
  then obtain x where "v = ''null'' @ x" by (rule that)
  then have "hd v = CHR ''n''" by simp
  with v(1) show False by simp
qed

lemma present_text:
  "json_text v \<Longrightarrow> hd v = quotation \<or> ascii_digit (hd v) \<or> v = bool_text b \<Longrightarrow> trim_space v \<noteq> ''null''"
  by (rule not_null) (auto simp: json_text_def quotation_def ascii_digit_def bool_text_def json_space_def split: if_splits)

lemma event_fields_keys: "map fst (event_fields_text e) = required_fields"
  by (simp add: event_fields_text_def required_fields_def)

lemma event_fields_length: "length (event_fields_text e) = 10"
  by (simp add: event_fields_text_def)

lemma required_fields_distinct: "distinct required_fields"
  by (simp add: required_fields_def)

lemma decode_event_fields:
  assumes "valid e"
  shows "decode_fields (event_fields_text e) = Inr e"
proof -
  have p: "plain (event_id e)" "plain (currency e)" "plain (country e)" using valid_plain [OF assms] by simp_all
  have s: "0 \<le> sint (amount_cents e)" "0 \<le> sint (merchant_category e)" "0 \<le> sint (hour_utc e)"
    "0 \<le> sint (velocity_5m e)" "0 \<le> sint (velocity_1h e)" "0 \<le> sint (prior_declines e)"
    using assms by (simp_all add: valid_def)
  let ?fs = "event_fields_text e"
  have f: "field ?fs ''event_id'' = quote (event_id e)" "field ?fs ''amount_cents'' = int_text (sint (amount_cents e))"
    "field ?fs ''currency'' = quote (currency e)" "field ?fs ''merchant_category'' = int_text (sint (merchant_category e))"
    "field ?fs ''country'' = quote (country e)" "field ?fs ''card_present'' = bool_text (card_present e)"
    "field ?fs ''hour_utc'' = int_text (sint (hour_utc e))" "field ?fs ''velocity_5m'' = int_text (sint (velocity_5m e))"
    "field ?fs ''velocity_1h'' = int_text (sint (velocity_1h e))" "field ?fs ''prior_declines'' = int_text (sint (prior_declines e))"
    by (simp_all add: field_def event_fields_text_def)
  have "unmarshal ?fs = Some e"
    using s by (simp add: unmarshal_def f string_value_quote p bool_value_text int_field_text)
  moreover have "find (missing ?fs) required_fields = None"
  proof -
    have "trim_space (quote x) \<noteq> ''null''" if "plain x" for x
      using json_string_quote [OF that] by (intro present_text) (auto simp: json_string_def)
    moreover have "trim_space (int_text i) \<noteq> ''null''" if "0 \<le> i" for i
      using json_text_dec [of "nat i"] by (intro present_text) (auto simp: int_text_nat that number_literal_def)
    moreover have "trim_space (bool_text b) \<noteq> ''null''" for b using json_text_bool by (intro present_text) auto
    ultimately show ?thesis using p s
      by (simp add: find_None_iff required_fields_def missing_def event_fields_text_def)
  qed
  moreover have "length ?fs = 10" by (simp add: event_fields_text_def)
  ultimately show ?thesis using assms by (simp add: decode_fields_def go_validate_iff)
qed

lemma decode_object:
  assumes "list_all2 member_ok ms ks" "spaces w" "spaces w'"
  shows "decode (object_text w ms w') =
    Some (if distinct ks then decode_fields (zip ks (map value_text ms)) else Inl ''invalid JSON'')"
proof (cases "distinct ks")
  case True
  let ?fs = "zip ks (map value_text ms)"
  have "map fst ?fs = ks" using list_all2_lengthD [OF assms(1)] by simp
  then have "map_of (rev ?fs) = map_of ?fs" using True by (intro map_of_permuted) (simp_all add: rev_map [symmetric])
  then have "decode_fields (rev ?fs) = decode_fields ?fs" by (intro decode_fields_cong) simp_all
  with True show ?thesis using unique_fields_object [OF assms] by (simp add: decode_def)
qed (use unique_fields_object [OF assms] in \<open>simp add: decode_def\<close>)

lemma decode_layout:
  assumes "valid e" "list_all2 member_ok ms ks" "spaces w" "spaces w'"
    and "set (zip ks (map value_text ms)) = set (event_fields_text e)" "length ms = 10"
  shows "decode (object_text w ms w') = Some (Inr e)"
proof -
  let ?fs = "zip ks (map value_text ms)"
  have ks: "map fst ?fs = ks" using list_all2_lengthD [OF assms(2)] by simp
  have len: "length ks = 10" using list_all2_lengthD [OF assms(2)] assms(6) by simp
  have "set ks = set required_fields"
    using arg_cong [OF assms(5), of "image fst"] unfolding list.set_map [symmetric] ks event_fields_keys .
  moreover have "card (set required_fields) = 10" using distinct_card [OF required_fields_distinct] by (simp add: required_fields_def)
  ultimately have d: "distinct ks" using len by (intro card_distinct) simp
  have "decode_fields ?fs = decode_fields (event_fields_text e)"
  proof (rule decode_fields_cong)
    show "map_of ?fs = map_of (event_fields_text e)"
      by (rule map_of_permuted [OF _ _ assms(5)]) (simp_all only: ks d event_fields_keys required_fields_distinct)
    show "length ?fs = length (event_fields_text e)" using len assms(6) by (simp add: event_fields_text_def)
  qed
  then show ?thesis using decode_object [OF assms(2-4)] d decode_event_fields [OF assms(1)] by simp
qed

text \<open>
  C14. The gateway reads every layout of an object alike: for any space around keys and values and any
  escapes in the keys, decoding sees exactly the members' keys and values and nothing of their order,
  and an object that repeats a key is rejected.
\<close>

theorem decode_reads_members:
  assumes "list_all2 member_ok ms ks" "spaces w" "spaces w'"
  shows "decode (object_text w ms w') =
    Some (if distinct ks then decode_fields (zip ks (map value_text ms)) else Inl ''invalid JSON'')"
  by (rule decode_object [OF assms])


section \<open>The canonical object\<close>

definition compact :: "string \<times> string \<Rightarrow> member" where
  "compact f = \<lparr>before_key = [], key_text = quote (fst f), before_colon = [], before_value = [],
     value_text = snd f, after_value = []\<rparr>"

lemma members_Cons:
  "members (f # fs) = quote (fst f) @ '':'' @ snd f @ (if fs = [] then [] else '','' @ members fs)"
  by (cases f; cases fs) simp_all

lemma members_compact: "''{'' @ members fs @ ''}'' = object_text [] (map compact fs) []"
proof -
  have "more_members (map compact fs) = (if fs = [] then [] else '','' @ members fs)" for fs
    by (induction fs) (simp_all add: compact_def member_text_def members_Cons)
  then show ?thesis
    by (cases fs) (simp_all add: object_text_def compact_def member_text_def members_Cons)
qed

lemma compact_ok: "plain k \<Longrightarrow> json_text v \<Longrightarrow> member_ok (compact (k, v)) k"
  by (simp add: member_ok_def compact_def json_string_quote)

lemma compact_event:
  assumes "valid e"
  shows "list_all2 member_ok (map compact (event_fields_text e)) required_fields"
proof -
  have str: "json_text (quote s)" if "plain s" for s using json_string_quote [OF that] by (simp add: json_string_def)
  have int: "json_text (int_text i)" if "0 \<le> i" for i using json_text_dec(1) that by (simp add: int_text_nat)
  have key: "plain k" if "k \<in> set required_fields" for k
    using that by (auto simp: required_fields_def plain_def html_safe_def quotation_def backslash_def)
  have "json_text (snd f)" if "f \<in> set (event_fields_text e)" for f
    using that valid_plain [OF assms] assms
    by (auto simp: event_fields_text_def str int json_text_bool valid_def)
  moreover have "plain (fst f)" if "f \<in> set (event_fields_text e)" for f
    using key event_fields_keys [of e] that by (metis imageI list.set_map)
  ultimately have "member_ok (compact f) (fst f)" if "f \<in> set (event_fields_text e)" for f
    using compact_ok [of "fst f" "snd f"] that by simp
  then have "list_all2 member_ok (map compact (event_fields_text e)) (map fst (event_fields_text e))"
    by (simp add: list_all2_map1 list_all2_map2 list_all2_same)
  then show ?thesis by (simp add: event_fields_keys)
qed

lemma decode_valid: "decode raw = Some (Inr e) \<Longrightarrow> valid e"
  by (auto simp: decode_def decode_fields_def go_validate_iff split: option.splits sum.splits if_splits)

lemma marshal_decodes: "valid e \<Longrightarrow> decode (marshal e) = Some (Inr e)"
proof -
  assume e: "valid e"
  have "zip required_fields (map value_text (map compact (event_fields_text e))) = event_fields_text e"
    by (simp add: event_fields_keys [symmetric, of e] zip_map_fst_snd compact_def o_def)
  then show "decode (marshal e) = Some (Inr e)"
    using decode_layout [OF e compact_event [OF e], of "[]" "[]"] event_fields_length [of e] unfolding marshal_def members_compact by simp
qed

text \<open>Different valid events have different canonical bytes.\<close>

lemma marshal_inject: "valid e \<Longrightarrow> valid e' \<Longrightarrow> marshal e = marshal e' \<longleftrightarrow> e = e'"
  using marshal_decodes by (metis option.inject sum.inject(2))

section \<open>Concrete objects\<close>


theorem decode_reads_members_witness:
  "decode (object_text [] [compact (''a'', ''true''), compact (''a'', ''false'')] []) = Some (Inl ''invalid JSON'')"
proof -
  have "plain ''a''" by (simp add: plain_def html_safe_def quotation_def backslash_def)
  then have "list_all2 member_ok [compact (''a'', ''true''), compact (''a'', ''false'')] [''a'', ''a'']"
    using json_text_bool [of True] json_text_bool [of False] by (simp add: compact_ok bool_text_def)
  from decode_reads_members [OF this, of "[]" "[]"] show ?thesis by simp
qed

end
