(* ===== verification/Redis.thy ===== *)
theory Redis
  imports Prelude
begin

text \<open>
  The Redis server and its clients as the sources use them. None of that code is in the repository,
  so it is a parameter: a record \<open>server\<close> of functions over an abstract server state \<open>'s\<close>. Commands
  are argument vectors of strings, exactly as the sources send them. \<open>view\<close> reads the live data set
  off a server state (expired keys are absent), and \<open>redis_ok\<close> states the documented effect of each
  command on it. A write may be refused (out of memory, invalid expiry), and then changes nothing.
\<close>

section \<open>Replies and data\<close>

datatype reply = RNil | RInt int | RBulk string | RStatus string | RErr string | RArr "reply list"

text \<open>A stream entry: its identifier and its fields, in the order they were added.\<close>

type_synonym stream_entry = "string \<times> (string \<times> string) list"

text \<open>A consumer group: what was handed out so far, and to whom what is still not acknowledged.\<close>

record group_state =
  delivered :: "string set"
  pending :: "string \<rightharpoonup> string"

text \<open>A stream never reuses an identifier; \<open>used\<close> holds all of them, also of deleted entries.\<close>

record stream_state =
  entries :: "stream_entry list"
  used :: "string set"
  groups :: "string \<rightharpoonup> group_state"

datatype rval = VStr string | VStream stream_state | VOther string

type_synonym db = "string \<rightharpoonup> rval"

definition type_name :: "rval option \<Rightarrow> string" where
  "type_name v =
     (case v of None \<Rightarrow> ''none'' | Some (VStr _) \<Rightarrow> ''string'' | Some (VStream _) \<Rightarrow> ''stream''
      | Some (VOther t) \<Rightarrow> t)"

definition wrongtype :: string where
  "wrongtype = ''WRONGTYPE Operation against a key holding the wrong kind of value''"

definition empty_stream :: stream_state where
  "empty_stream = \<lparr>entries = [], used = {}, groups = Map.empty\<rparr>"

text \<open>The stream at a key, \<open>None\<close> when the key holds another type.\<close>

definition stream_at :: "db \<Rightarrow> string \<Rightarrow> stream_state option" where
  "stream_at d k =
     (case d k of None \<Rightarrow> Some empty_stream | Some (VStream st) \<Rightarrow> Some st | Some _ \<Rightarrow> None)"

section \<open>Errors of scripts and clients\<close>

text \<open>A Lua error value: an error reply raised by \<open>redis.call\<close>, or the text given to \<open>error\<close>.\<close>

datatype lua_error = ErrReply string | ErrText string

text \<open>What the Rust client reports: a reply of the server, a broken connection, a type mismatch.\<close>

datatype redis_error = ServerError string | IoError | ResponseError

section \<open>The server\<close>

record 's server =
  exec :: "string list \<Rightarrow> 's \<Rightarrow> reply \<times> 's"
  refuse :: "string list \<Rightarrow> 's \<Rightarrow> string option"
  tostring :: "lua_error \<Rightarrow> string"
  view :: "'s \<Rightarrow> db"

text \<open>The effects of the stream commands on the data set.\<close>

definition db_xadd :: "string \<Rightarrow> string \<Rightarrow> (string \<times> string) list \<Rightarrow> nat \<Rightarrow> stream_state \<Rightarrow> db \<Rightarrow> db" where
  "db_xadd k i fs trimmed st d =
     d(k \<mapsto> VStream (st\<lparr>entries := drop trimmed (entries st @ [(i, fs)]), used := insert i (used st)\<rparr>))"

definition db_xack :: "string \<Rightarrow> string \<Rightarrow> string \<Rightarrow> db \<Rightarrow> db" where
  "db_xack k g i d =
     (case d k of
        Some (VStream st) \<Rightarrow>
          (case groups st g of
             None \<Rightarrow> d
           | Some gr \<Rightarrow>
               d(k \<mapsto> VStream (st\<lparr>groups := (groups st)(g \<mapsto> gr\<lparr>pending := (pending gr)(i := None)\<rparr>)\<rparr>)))
      | _ \<Rightarrow> d)"

definition db_xdel :: "string \<Rightarrow> string \<Rightarrow> db \<Rightarrow> db" where
  "db_xdel k i d =
     (case d k of
        Some (VStream st) \<Rightarrow> d(k \<mapsto> VStream (st\<lparr>entries := filter (\<lambda>e. fst e \<noteq> i) (entries st)\<rparr>))
      | _ \<Rightarrow> d)"

fun flat :: "(string \<times> string) list \<Rightarrow> string list" where
  "flat [] = []"
| "flat ((f, v) # fs) = f # v # flat fs"

text \<open>An expiry in seconds is a positive signed 64-bit integer.\<close>

definition ttl_ok :: "string \<Rightarrow> bool" where
  "ttl_ok t = (case nat_of_digits 0 t of None \<Rightarrow> False | Some n \<Rightarrow> 0 < n \<and> n < 2 ^ 63)"

section \<open>The documented commands\<close>

definition get_law :: "'s server \<Rightarrow> bool" where
  "get_law R \<longleftrightarrow> (\<forall>s k. view R (snd (exec R [''GET'', k] s)) = view R s \<and>
     fst (exec R [''GET'', k] s) =
       (case view R s k of None \<Rightarrow> RNil | Some (VStr v) \<Rightarrow> RBulk v | Some _ \<Rightarrow> RErr wrongtype))"

definition type_law :: "'s server \<Rightarrow> bool" where
  "type_law R \<longleftrightarrow> (\<forall>s k. view R (snd (exec R [''TYPE'', k] s)) = view R s \<and>
     fst (exec R [''TYPE'', k] s) = RStatus (type_name (view R s k)))"

definition set_law :: "'s server \<Rightarrow> bool" where
  "set_law R \<longleftrightarrow> (\<forall>s k v t r s'. exec R [''SET'', k, v, ''EX'', t] s = (r, s') \<longrightarrow>
     r = RStatus ''OK'' \<and> ttl_ok t \<and> view R s' = (view R s)(k \<mapsto> VStr v) \<or>
     (\<exists>e. r = RErr e) \<and> view R s' = view R s)"

definition del_law :: "'s server \<Rightarrow> bool" where
  "del_law R \<longleftrightarrow> (\<forall>s k. view R (snd (exec R [''DEL'', k] s)) = (view R s)(k := None) \<and>
     fst (exec R [''DEL'', k] s) = RInt (if view R s k = None then 0 else 1))"

text \<open>
  \<open>XADD\<close> appends under a fresh identifier; with \<open>MAXLEN ~ m\<close> it may then drop the oldest entries,
  but never below \<open>m\<close>.
\<close>

definition xadd_law :: "'s server \<Rightarrow> bool" where
  "xadd_law R \<longleftrightarrow> (\<forall>s k fs r s'. exec R (''XADD'' # k # ''*'' # flat fs) s = (r, s') \<longrightarrow>
     (\<exists>i st. r = RBulk i \<and> stream_at (view R s) k = Some st \<and> i \<notin> used st \<and>
        view R s' = db_xadd k i fs 0 st (view R s)) \<or>
     (\<exists>e. r = RErr e) \<and> view R s' = view R s)"

definition xadd_maxlen_law :: "'s server \<Rightarrow> bool" where
  "xadd_maxlen_law R \<longleftrightarrow> (\<forall>s k m fs r s'.
     exec R (''XADD'' # k # ''MAXLEN'' # ''~'' # dec m # ''*'' # flat fs) s = (r, s') \<longrightarrow>
     (\<exists>i st n. r = RBulk i \<and> stream_at (view R s) k = Some st \<and> i \<notin> used st \<and>
        (n = 0 \<or> n + m \<le> Suc (length (entries st))) \<and>
        view R s' = db_xadd k i fs n st (view R s)) \<or>
     (\<exists>e. r = RErr e) \<and> view R s' = view R s)"

definition xack_law :: "'s server \<Rightarrow> bool" where
  "xack_law R \<longleftrightarrow> (\<forall>s k g i. view R (snd (exec R [''XACK'', k, g, i] s)) = db_xack k g i (view R s) \<and>
     (if stream_at (view R s) k = None then fst (exec R [''XACK'', k, g, i] s) = RErr wrongtype
      else \<exists>n. fst (exec R [''XACK'', k, g, i] s) = RInt n))"

definition xdel_law :: "'s server \<Rightarrow> bool" where
  "xdel_law R \<longleftrightarrow> (\<forall>s k i. view R (snd (exec R [''XDEL'', k, i] s)) = db_xdel k i (view R s) \<and>
     (if stream_at (view R s) k = None then fst (exec R [''XDEL'', k, i] s) = RErr wrongtype
      else \<exists>n. fst (exec R [''XDEL'', k, i] s) = RInt n))"

definition xlen_law :: "'s server \<Rightarrow> bool" where
  "xlen_law R \<longleftrightarrow> (\<forall>s k. view R (snd (exec R [''XLEN'', k] s)) = view R s \<and>
     fst (exec R [''XLEN'', k] s) =
       (case stream_at (view R s) k of None \<Rightarrow> RErr wrongtype
        | Some st \<Rightarrow> RInt (int (length (entries st)))))"

definition redis_ok :: "'s server \<Rightarrow> bool" where
  "redis_ok R \<longleftrightarrow> get_law R \<and> type_law R \<and> set_law R \<and> del_law R \<and> xadd_law R \<and> xadd_maxlen_law R \<and>
     xack_law R \<and> xdel_law R \<and> xlen_law R"

lemmas redis_laws = redis_ok_def get_law_def type_law_def set_law_def del_law_def xadd_law_def
  xadd_maxlen_law_def xack_law_def xdel_law_def xlen_law_def

section \<open>Facts about the effects\<close>

lemma db_xack_other [db_simps]: "k' \<noteq> k \<Longrightarrow> db_xack k g i d k' = d k'"
  by (auto simp: db_xack_def split: option.splits rval.splits)

lemma db_xdel_other [db_simps]: "k' \<noteq> k \<Longrightarrow> db_xdel k i d k' = d k'"
  by (auto simp: db_xdel_def split: option.splits rval.splits)

lemma db_xadd_other [db_simps]: "k' \<noteq> k \<Longrightarrow> db_xadd k i fs n st d k' = d k'"
  by (simp add: db_xadd_def)

lemma db_xack_str [db_simps]: "d k' = Some (VStr v) \<Longrightarrow> db_xack k g i d k' = Some (VStr v)"
  by (auto simp: db_xack_def split: option.splits rval.splits)

lemma db_xdel_str [db_simps]: "d k' = Some (VStr v) \<Longrightarrow> db_xdel k i d k' = Some (VStr v)"
  by (auto simp: db_xdel_def split: option.splits rval.splits)

lemma db_xack_str_iff: "db_xack k g i d k' = Some (VStr v) \<longleftrightarrow> d k' = Some (VStr v)"
  by (auto simp: db_xack_def split: option.splits rval.splits)

lemma db_xdel_str_iff: "db_xdel k i d k' = Some (VStr v) \<longleftrightarrow> d k' = Some (VStr v)"
  by (auto simp: db_xdel_def split: option.splits rval.splits)

lemma stream_at_xack:
  "stream_at (db_xack k g i d) k' = None \<longleftrightarrow> stream_at d k' = None"
  by (auto simp: stream_at_def db_xack_def split: option.splits rval.splits)

lemma stream_at_xdel:
  "stream_at (db_xdel k i d) k' = None \<longleftrightarrow> stream_at d k' = None"
  by (auto simp: stream_at_def db_xdel_def split: option.splits rval.splits)

text \<open>A script's run against a data set where the key is a marker or is absent.\<close>

definition is_marked :: "db \<Rightarrow> string \<Rightarrow> bool" where
  "is_marked d k \<longleftrightarrow> (\<exists>v. d k = Some (VStr v))"

lemma is_marked_update [simp]: "is_marked (d(k \<mapsto> VStr v)) k' \<longleftrightarrow> k' = k \<or> is_marked d k'"
  by (simp add: is_marked_def)

lemma is_marked_xack [db_simps]: "is_marked (db_xack k g i d) k' = is_marked d k'"
  and is_marked_xdel [db_simps]: "is_marked (db_xdel k i d) k' = is_marked d k'"
  by (simp_all add: is_marked_def db_xack_str_iff db_xdel_str_iff)

lemma is_marked_xadd:
  "stream_at d k = Some st \<Longrightarrow> is_marked (db_xadd k i fs n st d) k' = is_marked d k'"
  by (auto simp: is_marked_def db_xadd_def stream_at_def split: option.splits rval.splits)

text \<open>A stream with a consumer group.\<close>

definition in_group :: "db \<Rightarrow> string \<Rightarrow> string \<Rightarrow> bool" where
  "in_group d k g \<longleftrightarrow> (case d k of Some (VStream st) \<Rightarrow> groups st g \<noteq> None | _ \<Rightarrow> False)"

lemma in_group_xack [db_simps]: "in_group (db_xack k g i d) k' g' = in_group d k' g'"
  by (auto simp: in_group_def db_xack_def split: option.splits rval.splits)

lemma in_group_xdel [db_simps]: "in_group (db_xdel k i d) k' g' = in_group d k' g'"
  by (auto simp: in_group_def db_xdel_def split: option.splits rval.splits)

lemma in_group_stream: "in_group d k g \<Longrightarrow> stream_at d k \<noteq> None"
  by (auto simp: in_group_def stream_at_def split: option.splits rval.splits)

section \<open>A server that accepts writes\<close>

text \<open>
  Beyond the laws, a server with memory to spare refuses a \<open>SET\<close> only for its lifetime argument and
  an \<open>XADD\<close> only for the type of its key.
\<close>

definition accepting :: "'s server \<Rightarrow> bool" where
  "accepting R \<longleftrightarrow>
     (\<forall>s k v t. ttl_ok t \<longrightarrow> (\<forall>e. fst (exec R [''SET'', k, v, ''EX'', t] s) \<noteq> RErr e)) \<and>
     (\<forall>s k st fs. stream_at (view R s) k = Some st \<longrightarrow> finite (used st) \<longrightarrow>
        (\<forall>e. fst (exec R (''XADD'' # k # ''*'' # flat fs) s) \<noteq> RErr e)) \<and>
     (\<forall>s k st m fs. stream_at (view R s) k = Some st \<longrightarrow> finite (used st) \<longrightarrow>
        (\<forall>e. fst (exec R (''XADD'' # k # ''MAXLEN'' # ''~'' # dec m # ''*'' # flat fs) s) \<noteq> RErr e))"

definition entry_ids :: "db \<Rightarrow> string \<Rightarrow> string set" where
  "entry_ids d k = (case d k of Some (VStream st) \<Rightarrow> fst ` set (entries st) | _ \<Rightarrow> {})"

lemma entry_ids_xdel [db_simps]:
  "entry_ids (db_xdel k i d) k' = (if k' = k then entry_ids d k - {i} else entry_ids d k')"
  by (auto simp: entry_ids_def db_xdel_def split: option.splits rval.splits)

lemma entry_ids_xack [db_simps]: "entry_ids (db_xack k g i d) k' = entry_ids d k'"
  by (auto simp: entry_ids_def db_xack_def split: option.splits rval.splits)

end
