(* ===== verification/Lua.thy ===== *)
theory Lua
  imports Redis
begin

text \<open>
  The Lua fragment of the two Redis scripts of the repository: a computation reads and changes the
  server and may raise an error. Redis isolates a script from other clients but does not undo the
  commands it ran before an error, so the state is threaded through errors as well.
\<close>

type_synonym ('s, 'a) lua = "'s \<Rightarrow> (lua_error + 'a) \<times> 's"

definition lua_return :: "'a \<Rightarrow> ('s, 'a) lua" where
  "lua_return a s = (Inr a, s)"

definition lua_raise :: "lua_error \<Rightarrow> ('s, 'a) lua" where
  "lua_raise e s = (Inl e, s)"

definition lua_bind :: "('s, 'a) lua \<Rightarrow> ('a \<Rightarrow> ('s, 'b) lua) \<Rightarrow> ('s, 'b) lua" where
  "lua_bind m f s = (case m s of (Inl e, s') \<Rightarrow> (Inl e, s') | (Inr a, s') \<Rightarrow> f a s')"

text \<open>\<open>redis.call\<close> raises an error reply, \<open>redis.pcall\<close> returns it.\<close>

definition redis_pcall :: "'s server \<Rightarrow> string list \<Rightarrow> ('s, reply) lua" where
  "redis_pcall R argv s = (case exec R argv s of (r, s') \<Rightarrow> (Inr r, s'))"

definition redis_call :: "'s server \<Rightarrow> string list \<Rightarrow> ('s, reply) lua" where
  "redis_call R argv s =
     (case exec R argv s of (r, s') \<Rightarrow> (case r of RErr e \<Rightarrow> (Inl (ErrReply e), s') | _ \<Rightarrow> (Inr r, s')))"

text \<open>A nil reply is Lua's \<open>false\<close>; every other reply is true.\<close>

definition truthy :: "reply \<Rightarrow> bool" where
  "truthy r \<longleftrightarrow> r \<noteq> RNil"

text \<open>The \<open>ok\<close> field of a status reply.\<close>

definition ok_field :: "reply \<Rightarrow> string option" where
  "ok_field r = (case r of RStatus t \<Rightarrow> Some t | _ \<Rightarrow> None)"

section \<open>Commands in a script\<close>

text \<open>Each command of a script, for a server that keeps its documentation.\<close>

lemma call_get:
  assumes "redis_ok R"
  obtains (absent) s' where "redis_call R [''GET'', k] s = (Inr RNil, s')" "view R s' = view R s"
      "view R s k = None"
    | (marked) s' v where "redis_call R [''GET'', k] s = (Inr (RBulk v), s')" "view R s' = view R s"
      "view R s k = Some (VStr v)"
    | (wrong) s' e where "redis_call R [''GET'', k] s = (Inl e, s')" "view R s' = view R s"
      "view R s k \<noteq> None" "\<not> is_marked (view R s) k"
proof -
  obtain r s' where x: "exec R [''GET'', k] s = (r, s')" by fastforce
  from assms have "view R s' = view R s" and
    "r = (case view R s k of None \<Rightarrow> RNil | Some (VStr v) \<Rightarrow> RBulk v | Some _ \<Rightarrow> RErr wrongtype)"
    unfolding redis_ok_def get_law_def by (metis x fst_conv snd_conv)+
  then show thesis using that
    by (cases "view R s k") (auto simp: redis_call_def x is_marked_def split: rval.splits)
qed

lemma call_type:
  assumes "redis_ok R"
  obtains s' where "redis_call R [''TYPE'', k] s = (Inr (RStatus (type_name (view R s k))), s')"
    "view R s' = view R s"
proof -
  obtain r s' where x: "exec R [''TYPE'', k] s = (r, s')" by fastforce
  from assms have "view R s' = view R s" "r = RStatus (type_name (view R s k))"
    unfolding redis_ok_def type_law_def by (metis x fst_conv snd_conv)+
  then show thesis using that by (simp add: redis_call_def x)
qed

lemma call_set:
  assumes "redis_ok R"
  obtains (stored) s' r where "redis_call R [''SET'', k, v, ''EX'', t] s = (Inr r, s')" "ttl_ok t"
      "view R s' = (view R s)(k \<mapsto> VStr v)"
    | (refused) s' e where "redis_call R [''SET'', k, v, ''EX'', t] s = (Inl e, s')" "view R s' = view R s"
proof -
  obtain r s' where x: "exec R [''SET'', k, v, ''EX'', t] s = (r, s')" by fastforce
  from assms have "r = RStatus ''OK'' \<and> ttl_ok t \<and> view R s' = (view R s)(k \<mapsto> VStr v) \<or>
     (\<exists>e. r = RErr e) \<and> view R s' = view R s"
    unfolding redis_ok_def set_law_def using x by blast
  then show thesis using that by (auto simp: redis_call_def x)
qed

lemma call_del:
  assumes "redis_ok R"
  obtains s' r where "redis_call R [''DEL'', k] s = (Inr r, s')" "view R s' = (view R s)(k := None)"
proof -
  obtain r s' where x: "exec R [''DEL'', k] s = (r, s')" by fastforce
  from assms have "view R s' = (view R s)(k := None)" "r = RInt (if view R s k = None then 0 else 1)"
    unfolding redis_ok_def del_law_def by (metis x fst_conv snd_conv)+
  then show thesis using that by (simp add: redis_call_def x)
qed

lemma call_xack:
  assumes "redis_ok R"
  obtains (ok) s' r where "redis_call R [''XACK'', k, g, i] s = (Inr r, s')"
      "view R s' = db_xack k g i (view R s)" "stream_at (view R s) k \<noteq> None"
    | (wrong) s' e where "redis_call R [''XACK'', k, g, i] s = (Inl e, s')"
      "view R s' = db_xack k g i (view R s)" "stream_at (view R s) k = None"
proof -
  obtain r s' where x: "exec R [''XACK'', k, g, i] s = (r, s')" by fastforce
  from assms have "view R s' = db_xack k g i (view R s)"
    "if stream_at (view R s) k = None then r = RErr wrongtype else \<exists>n. r = RInt n"
    unfolding redis_ok_def xack_law_def by (metis x fst_conv snd_conv)+
  then show thesis using that by (auto simp: redis_call_def x split: if_splits)
qed

lemma call_xdel:
  assumes "redis_ok R"
  obtains (ok) s' r where "redis_call R [''XDEL'', k, i] s = (Inr r, s')"
      "view R s' = db_xdel k i (view R s)" "stream_at (view R s) k \<noteq> None"
    | (wrong) s' e where "redis_call R [''XDEL'', k, i] s = (Inl e, s')"
      "view R s' = db_xdel k i (view R s)" "stream_at (view R s) k = None"
proof -
  obtain r s' where x: "exec R [''XDEL'', k, i] s = (r, s')" by fastforce
  from assms have "view R s' = db_xdel k i (view R s)"
    "if stream_at (view R s) k = None then r = RErr wrongtype else \<exists>n. r = RInt n"
    unfolding redis_ok_def xdel_law_def by (metis x fst_conv snd_conv)+
  then show thesis using that by (auto simp: redis_call_def x split: if_splits)
qed

lemma call_xlen:
  assumes "redis_ok R"
  obtains (ok) s' st where "redis_call R [''XLEN'', k] s = (Inr (RInt (int (length (entries st)))), s')"
      "view R s' = view R s" "stream_at (view R s) k = Some st"
    | (wrong) s' e where "redis_call R [''XLEN'', k] s = (Inl e, s')" "view R s' = view R s"
      "stream_at (view R s) k = None"
proof -
  obtain r s' where x: "exec R [''XLEN'', k] s = (r, s')" by fastforce
  from assms have "view R s' = view R s"
    "r = (case stream_at (view R s) k of None \<Rightarrow> RErr wrongtype
        | Some st \<Rightarrow> RInt (int (length (entries st))))"
    unfolding redis_ok_def xlen_law_def by (metis x fst_conv snd_conv)+
  then show thesis using that by (cases "stream_at (view R s) k") (auto simp: redis_call_def x)
qed

lemma pcall_xadd:
  assumes "redis_ok R"
  obtains (added) s' i st where "redis_pcall R (''XADD'' # k # ''*'' # flat fs) s = (Inr (RBulk i), s')"
      "stream_at (view R s) k = Some st" "i \<notin> used st" "view R s' = db_xadd k i fs 0 st (view R s)"
    | (refused) s' e where "redis_pcall R (''XADD'' # k # ''*'' # flat fs) s = (Inr (RErr e), s')"
      "view R s' = view R s"
proof -
  obtain r s' where x: "exec R (''XADD'' # k # ''*'' # flat fs) s = (r, s')" by fastforce
  from assms have "(\<exists>i st. r = RBulk i \<and> stream_at (view R s) k = Some st \<and> i \<notin> used st \<and>
        view R s' = db_xadd k i fs 0 st (view R s)) \<or>
     (\<exists>e. r = RErr e) \<and> view R s' = view R s"
    unfolding redis_ok_def xadd_law_def using x by blast
  then show thesis using that by (auto simp: redis_pcall_def x)
qed

lemma pcall_xadd_maxlen:
  assumes "redis_ok R"
  obtains (added) s' i st n
    where "redis_pcall R (''XADD'' # k # ''MAXLEN'' # ''~'' # dec m # ''*'' # flat fs) s = (Inr (RBulk i), s')"
      "stream_at (view R s) k = Some st" "i \<notin> used st" "n = 0 \<or> n + m \<le> Suc (length (entries st))"
      "view R s' = db_xadd k i fs n st (view R s)"
    | (refused) s' e
    where "redis_pcall R (''XADD'' # k # ''MAXLEN'' # ''~'' # dec m # ''*'' # flat fs) s = (Inr (RErr e), s')"
      "view R s' = view R s"
proof -
  obtain r s' where x: "exec R (''XADD'' # k # ''MAXLEN'' # ''~'' # dec m # ''*'' # flat fs) s = (r, s')"
    by fastforce
  from assms have "(\<exists>i st n. r = RBulk i \<and> stream_at (view R s) k = Some st \<and> i \<notin> used st \<and>
        (n = 0 \<or> n + m \<le> Suc (length (entries st))) \<and>
        view R s' = db_xadd k i fs n st (view R s)) \<or>
     (\<exists>e. r = RErr e) \<and> view R s' = view R s"
    unfolding redis_ok_def xadd_maxlen_law_def using x by blast
  then show thesis using that by (auto simp: redis_pcall_def x)
qed

text \<open>On a server that accepts writes the guarded commands do not fail.\<close>

lemma accepting_set: "accepting R \<Longrightarrow> ttl_ok t \<Longrightarrow> redis_call R [''SET'', k, v, ''EX'', t] s \<noteq> (Inl e, s')"
  by (auto simp: accepting_def redis_call_def split: prod.splits reply.splits) (metis fst_conv)

lemma accepting_xadd_maxlen:
  "accepting R \<Longrightarrow> stream_at (view R s) k = Some st \<Longrightarrow> finite (used st) \<Longrightarrow>
   redis_pcall R (''XADD'' # k # ''MAXLEN'' # ''~'' # dec m # ''*'' # flat fs) s \<noteq> (Inr (RErr e), s')"
  by (auto simp: accepting_def redis_pcall_def split: prod.splits) (metis fst_conv)

lemma accepting_xadd:
  "accepting R \<Longrightarrow> stream_at (view R s) k = Some st \<Longrightarrow> finite (used st) \<Longrightarrow>
   redis_pcall R (''XADD'' # k # ''*'' # flat fs) s \<noteq> (Inr (RErr e), s')"
  by (auto simp: accepting_def redis_pcall_def split: prod.splits) (metis fst_conv)

end
