(* ===== verification/Once.thy ===== *)
theory Once
  imports Prelude
begin

text \<open>
  The interface behind both Redis scripts: a guarded operation that has its effect only when a marker
  for its key is absent, sets the marker with the effect, and never removes another call's marker.
  A client that repeats such calls, in any order and with anything else happening in between, gets
  the effect at most once per key as long as nothing else removes the marker.
\<close>

section \<open>Interleaved runs\<close>

text \<open>
  A run is a list of calls, each preceded by an arbitrary action of the environment (other clients,
  the clock). The result pairs every call with its outcome.
\<close>

fun interleave :: "('c \<Rightarrow> 's \<Rightarrow> 'o \<times> 's) \<Rightarrow> (('s \<Rightarrow> 's) \<times> 'c) list \<Rightarrow> 's \<Rightarrow> ('c \<times> 'o) list \<times> 's" where
  "interleave run [] s = ([], s)"
| "interleave run ((env, c) # steps) s =
     (let (out, s1) = run c (env s); (outs, s2) = interleave run steps s1
      in ((c, out) # outs, s2))"

text \<open>What every action and every call preserves holds at the end, and every call has one outcome.\<close>

lemma interleave_invariant:
  assumes "\<forall>(env, c) \<in> set steps. \<forall>t. I t \<longrightarrow> I (env t) \<and> I (snd (run c t))" "I s"
  shows "I (snd (interleave run steps s))"
  using assms
proof (induction steps arbitrary: s)
  case (Cons step steps)
  obtain env c where step: "step = (env, c)" by fastforce
  with Cons.prems have "I (snd (run c (env s)))" by auto
  with Cons show ?case by (simp add: step split: prod.splits) (metis snd_conv)
qed simp

lemma interleave_outcomes:
  assumes "\<forall>(env, c) \<in> set steps. \<forall>t. I t \<longrightarrow> I (env t)"
    and "\<forall>(env, c) \<in> set steps. \<forall>t. I t \<longrightarrow> I (snd (run c t)) \<and> Q (fst (run c t))"
    and "I s" "r \<in> set (map snd (fst (interleave run steps s)))"
  shows "Q r"
  using assms
proof (induction steps arbitrary: s)
  case (Cons step steps)
  obtain env c where step: "step = (env, c)" by (cases step)
  obtain q t where x: "run c (env s) = (q, t)" by (cases "run c (env s)")
  with Cons.prems step have env: "I (env s)" by simp
  with Cons.prems(2) x step have "I t" "Q q" by fastforce+
  with Cons show ?case by (auto simp: step x case_prod_unfold Let_def)
qed simp

lemma interleave_length [simp]: "length (fst (interleave run steps s)) = length steps"
  by (induction steps arbitrary: s) (auto split: prod.splits, metis fst_conv)

lemma interleave_calls [simp]: "map fst (fst (interleave run steps s)) = map snd steps"
  by (induction steps arbitrary: s) (auto split: prod.splits, metis fst_conv)

lemma interleave_append:
  "interleave run (xs @ ys) s =
     (let (outs, s1) = interleave run xs s; (outs', s2) = interleave run ys s1 in (outs @ outs', s2))"
  by (induction xs arbitrary: s) (auto split: prod.splits)

section \<open>Guarded operations\<close>

locale guarded_once =
  fixes ok :: "'r \<Rightarrow> bool"
    and run :: "'r \<Rightarrow> 'c \<Rightarrow> 's \<Rightarrow> 'o \<times> 's"
    and key :: "'c \<Rightarrow> 'k"
    and marked :: "'r \<Rightarrow> 's \<Rightarrow> 'k \<Rightarrow> bool"
    and first :: "'o \<Rightarrow> bool"
  assumes first_unmarked: "ok r \<Longrightarrow> run r c s = (out, s') \<Longrightarrow> first out \<Longrightarrow> \<not> marked r s (key c)"
    and first_marks: "ok r \<Longrightarrow> run r c s = (out, s') \<Longrightarrow> first out \<Longrightarrow> marked r s' (key c)"
    and keeps_marks: "ok r \<Longrightarrow> run r c s = (out, s') \<Longrightarrow> marked r s k \<Longrightarrow> marked r s' k"
begin

definition firsts :: "'k \<Rightarrow> ('c \<times> 'o) list \<Rightarrow> nat" where
  "firsts k outs = length (filter (\<lambda>(c, out). key c = k \<and> first out) outs)"

lemma marked_no_first:
  assumes "ok r" "\<forall>(env, c) \<in> set steps. \<forall>t. marked r t k \<longrightarrow> marked r (env t) k" "marked r s k"
  shows "firsts k (fst (interleave (run r) steps s)) = 0"
  using assms(2,3)
proof (induction steps arbitrary: s)
  case (Cons step steps)
  obtain env c where step: "step = (env, c)" by fastforce
  obtain out s1 where x: "run r c (env s) = (out, s1)" by fastforce
  from Cons.prems step have m: "marked r (env s) k" by auto
  then have "marked r s1 k" using keeps_marks [OF assms(1) x] by blast
  then have "firsts k (fst (interleave (run r) steps s1)) = 0" using Cons by simp
  moreover have "\<not> (key c = k \<and> first out)" using first_unmarked [OF assms(1) x] m by auto
  ultimately show ?case by (auto simp: step x firsts_def split: prod.splits)
qed (simp add: firsts_def)

theorem at_most_once:
  assumes "ok r" "\<forall>(env, c) \<in> set steps. \<forall>t. marked r t k \<longrightarrow> marked r (env t) k"
  shows "firsts k (fst (interleave (run r) steps s)) \<le> 1"
  using assms(2)
proof (induction steps arbitrary: s)
  case (Cons step steps)
  obtain env c where step: "step = (env, c)" by fastforce
  obtain out s1 where x: "run r c (env s) = (out, s1)" by fastforce
  from Cons have IH: "firsts k (fst (interleave (run r) steps s1)) \<le> 1" by simp
  show ?case
  proof (cases "key c = k \<and> first out")
    case True
    then have "marked r s1 k" using first_marks [OF assms(1) x] by blast
    then have "firsts k (fst (interleave (run r) steps s1)) = 0"
      using marked_no_first [OF assms(1)] Cons.prems by simp
    with True show ?thesis by (auto simp: step x firsts_def split: prod.splits)
  next
    case False
    with IH show ?thesis by (auto simp: step x firsts_def split: prod.splits)
  qed
qed (simp add: firsts_def)

end



end
