(* ===== verification/Mem.thy ===== *)
theory Mem
  imports Redis
begin

text \<open>
  A small in-memory server that keeps every law of \<open>redis_ok\<close> and accepts writes. It shows that the
  contract can hold, and is the server of the witnesses. It makes no claim about Redis itself.
\<close>

fun unflat :: "string list \<Rightarrow> (string \<times> string) list option" where
  "unflat [] = Some []"
| "unflat [x] = None"
| "unflat (f # v # xs) = map_option ((#) (f, v)) (unflat xs)"

lemma unflat_flat [simp]: "unflat (flat fs) = Some fs"
  by (induction fs rule: flat.induct) auto

text \<open>An identifier longer than all used ones.\<close>

definition mem_id :: "string set \<Rightarrow> string" where
  "mem_id us = replicate (Suc (Max (insert 0 (length ` us)))) (CHR ''0'')"

lemma mem_id_fresh: "finite us \<Longrightarrow> mem_id us \<notin> us"
proof
  assume "finite us" "mem_id us \<in> us"
  then have "length (mem_id us) \<le> Max (insert 0 (length ` us))" by (intro Max_ge) auto
  then show False by (simp add: mem_id_def)
qed

definition mem_xadd :: "string \<Rightarrow> nat option \<Rightarrow> string list \<Rightarrow> db \<Rightarrow> reply \<times> db" where
  "mem_xadd k bound args d =
     (case (stream_at d k, unflat args) of
        (Some st, Some fs) \<Rightarrow>
          (let i = mem_id (used st);
               n = (case bound of None \<Rightarrow> 0 | Some m \<Rightarrow> Suc (length (entries st)) - m)
           in if i \<in> used st then (RErr ''ERR no identifier left'', d)
              else (RBulk i, db_xadd k i fs n st d))
      | _ \<Rightarrow> (RErr wrongtype, d))"

text \<open>Entries as replies, and the delivery of everything a group has not seen to one consumer.\<close>

definition enc_entry :: "stream_entry \<Rightarrow> reply" where
  "enc_entry e = RArr [RBulk (fst e), RArr (map RBulk (flat (snd e)))]"

definition bulk :: "reply \<Rightarrow> string option" where
  "bulk r = (case r of RBulk t \<Rightarrow> Some t | _ \<Rightarrow> None)"

definition dec_entry :: "reply \<Rightarrow> stream_entry option" where
  "dec_entry r =
     (case r of
        RArr [RBulk i, RArr fs] \<Rightarrow>
          (case those (map bulk fs) of None \<Rightarrow> None | Some xs \<Rightarrow> map_option (Pair i) (unflat xs))
      | _ \<Rightarrow> None)"

lemma dec_enc_entry [simp]: "dec_entry (enc_entry e) = Some e"
proof -
  have "those (map bulk (map RBulk xs)) = Some xs" for xs by (induction xs) (auto simp: bulk_def)
  from this [of "flat (snd e)"] show ?thesis
    by (simp add: dec_entry_def enc_entry_def o_def)
qed

definition mem_read :: "string \<Rightarrow> string \<Rightarrow> string \<Rightarrow> db \<Rightarrow> reply \<times> db" where
  "mem_read g c k d =
     (case d k of
        Some (VStream st) \<Rightarrow>
          (case groups st g of
             None \<Rightarrow> (RErr ''NOGROUP no such consumer group'', d)
           | Some gr \<Rightarrow>
               (let new = filter (\<lambda>e. fst e \<notin> delivered gr) (entries st);
                    gr' = gr\<lparr>delivered := delivered gr \<union> fst ` set new,
                             pending := (\<lambda>i. if i \<in> fst ` set new then Some c else pending gr i)\<rparr>
                in if new = [] then (RNil, d)
                   else (RArr [RArr [RBulk k, RArr (map enc_entry new)]],
                         d(k \<mapsto> VStream (st\<lparr>groups := (groups st)(g \<mapsto> gr')\<rparr>)))))
      | _ \<Rightarrow> (RErr ''NOGROUP no such consumer group'', d))"

lemma mem_read_stream:
  assumes "d k = Some (VStream st)"
  obtains gs where "dom (groups st) \<subseteq> dom gs" "snd (mem_read g c k d) = d(k \<mapsto> VStream (st\<lparr>groups := gs\<rparr>))"
proof (cases "snd (mem_read g c k d) = d")
  case True
  then show thesis using assms by (intro that [of "groups st"]) (auto intro!: ext)
next
  case False
  then obtain gr gr' where "groups st g = Some gr"
    "snd (mem_read g c k d) = d(k \<mapsto> VStream (st\<lparr>groups := (groups st)(g \<mapsto> gr')\<rparr>))"
    using assms by (auto simp: mem_read_def Let_def split: option.splits if_splits)
  then show thesis by (intro that) auto
qed

lemma mem_read_none: "(\<And>st. d k \<noteq> Some (VStream st)) \<Longrightarrow> snd (mem_read g c k d) = d"
  by (auto simp: mem_read_def split: option.splits rval.splits)

definition mem_group :: "string \<Rightarrow> string \<Rightarrow> db \<Rightarrow> reply \<times> db" where
  "mem_group k g d =
     (case stream_at d k of
        None \<Rightarrow> (RErr wrongtype, d)
      | Some st \<Rightarrow>
          if groups st g \<noteq> None then (RErr ''BUSYGROUP Consumer Group name already exists'', d)
          else (RStatus ''OK'',
                d(k \<mapsto> VStream (st\<lparr>groups := (groups st)(g \<mapsto> \<lparr>delivered = {}, pending = Map.empty\<rparr>)\<rparr>))))"

lemma mem_group_effect:
  obtains "snd (mem_group k g d) = d"
    | st gs where "stream_at d k = Some st" "dom (groups st) \<subseteq> dom gs"
      "snd (mem_group k g d) = d(k \<mapsto> VStream (st\<lparr>groups := gs\<rparr>))"
proof (cases "snd (mem_group k g d) = d")
  case False
  then obtain st where "stream_at d k = Some st"
    "snd (mem_group k g d) = d(k \<mapsto> VStream (st\<lparr>groups := (groups st)(g \<mapsto> \<lparr>delivered = {}, pending = Map.empty\<rparr>)\<rparr>))"
    by (auto simp: mem_group_def split: option.splits if_splits)
  then show thesis by (intro that(2)) auto
qed (rule that(1))

definition mem_exec :: "string list \<Rightarrow> db \<Rightarrow> reply \<times> db" where
  "mem_exec argv d =
     (case argv of
        cmd # k # args \<Rightarrow>
          if cmd = ''GET'' then
            (case d k of None \<Rightarrow> RNil | Some (VStr v) \<Rightarrow> RBulk v | Some _ \<Rightarrow> RErr wrongtype, d)
          else if cmd = ''TYPE'' then (RStatus (type_name (d k)), d)
          else if cmd = ''SET'' then
            if ttl_ok (args ! 2) then (RStatus ''OK'', d(k \<mapsto> VStr (args ! 0))) else (RErr ''ERR expire'', d)
          else if cmd = ''DEL'' then (RInt (if d k = None then 0 else 1), d(k := None))
          else if cmd = ''XLEN'' then
            (case stream_at d k of None \<Rightarrow> RErr wrongtype | Some st \<Rightarrow> RInt (int (length (entries st))), d)
          else if cmd = ''XACK'' then
            (if stream_at d k = None then RErr wrongtype else RInt 1, db_xack k (args ! 0) (args ! 1) d)
          else if cmd = ''XDEL'' then
            (if stream_at d k = None then RErr wrongtype else RInt 1, db_xdel k (args ! 0) d)
          else if cmd = ''XADD'' then
            if args ! 0 = ''MAXLEN'' then mem_xadd k (nat_of_digits 0 (args ! 2)) (drop 4 args) d
            else mem_xadd k None (drop 1 args) d
          else if cmd = ''XREADGROUP'' then mem_read (args ! 0) (args ! 1) (args ! 7) d
          else if cmd = ''XGROUP'' then mem_group (args ! 0) (args ! 1) d
          else if cmd = ''XAUTOCLAIM'' then
            (if in_group d k (args ! 0) then RArr [RBulk ''0-0'', RArr [], RArr []]
             else RErr ''NOGROUP no such consumer group'', d)
          else if cmd = ''XREVRANGE'' then
            (case (stream_at d k, nat_of_digits 0 (args ! 3)) of
               (Some st, Some n) \<Rightarrow> RArr (map enc_entry (take n (rev (entries st)))) | _ \<Rightarrow> RErr wrongtype, d)
          else (RErr ''ERR unknown command'', d)
      | _ \<Rightarrow> (RErr ''ERR unknown command'', d))"

definition mem :: "db server" where
  "mem = \<lparr>exec = mem_exec, refuse = (\<lambda>_ _. None),
          tostring = (\<lambda>e. case e of ErrReply t \<Rightarrow> t | ErrText t \<Rightarrow> t), view = id\<rparr>"

lemma mem_view [simp]: "view mem d = d"
  and mem_exec_sel [simp]: "exec mem = mem_exec"
  and mem_refuse [simp]: "refuse mem argv d = None"
  by (simp_all add: mem_def)

lemma mem_xadd_cases:
  "(\<exists>i st n. mem_xadd k bound (flat fs) d = (RBulk i, db_xadd k i fs n st d) \<and> stream_at d k = Some st \<and>
      i \<notin> used st \<and> (case bound of None \<Rightarrow> n = 0 | Some m \<Rightarrow> n = 0 \<or> n + m \<le> Suc (length (entries st)))) \<or>
   (\<exists>e. mem_xadd k bound (flat fs) d = (RErr e, d))"
  by (auto simp: mem_xadd_def Let_def split: option.splits)

lemma mem_ok: "redis_ok mem"
  unfolding redis_ok_def
proof (intro conjI)
  show "get_law mem" by (auto simp: get_law_def mem_exec_def split: option.splits rval.splits)
  show "type_law mem" by (auto simp: type_law_def mem_exec_def)
  show "set_law mem" by (auto simp: set_law_def mem_exec_def split: if_splits)
  show "del_law mem" by (auto simp: del_law_def mem_exec_def)
  show "xack_law mem" by (auto simp: xack_law_def mem_exec_def)
  show "xdel_law mem" by (auto simp: xdel_law_def mem_exec_def)
  show "xlen_law mem" by (auto simp: xlen_law_def mem_exec_def split: option.splits)
  show "xadd_law mem"
    unfolding xadd_law_def
  proof (intro allI impI)
    fix d k fs r d'
    assume "exec mem (''XADD'' # k # ''*'' # flat fs) d = (r, d')"
    then have "mem_xadd k None (flat fs) d = (r, d')" by (simp add: mem_exec_def)
    then show "(\<exists>i st. r = RBulk i \<and> stream_at (view mem d) k = Some st \<and> i \<notin> used st \<and>
        view mem d' = db_xadd k i fs 0 st (view mem d)) \<or>
     (\<exists>e. r = RErr e) \<and> view mem d' = view mem d"
      using mem_xadd_cases [of k None fs d] by auto
  qed
  show "xadd_maxlen_law mem"
    unfolding xadd_maxlen_law_def
  proof (intro allI impI)
    fix d k m fs r d'
    assume "exec mem (''XADD'' # k # ''MAXLEN'' # ''~'' # dec m # ''*'' # flat fs) d = (r, d')"
    then have "mem_xadd k (Some m) (flat fs) d = (r, d')" by (simp add: mem_exec_def)
    then show "(\<exists>i st n. r = RBulk i \<and> stream_at (view mem d) k = Some st \<and> i \<notin> used st \<and>
        (n = 0 \<or> n + m \<le> Suc (length (entries st))) \<and>
        view mem d' = db_xadd k i fs n st (view mem d)) \<or>
     (\<exists>e. r = RErr e) \<and> view mem d' = view mem d"
      using mem_xadd_cases [of k "Some m" fs d] by auto
  qed
qed

lemma mem_accepting: "accepting mem"
  using mem_id_fresh by (auto simp: accepting_def mem_exec_def mem_xadd_def Let_def)

end
