(* ===== verification/Finish.thy ===== *)
theory Finish
  imports Lua Once Mem
begin

text \<open>
  The completion script \<open>FINISH\<close> of the worker (\<open>apps/risk-worker/src/main.rs\<close>): publish a decision,
  set the completion marker, acknowledge and delete the input entry. Its keys are the input stream,
  the output stream and the marker; its arguments are the group, the entry's identifier, the event
  identifier, the marker's lifetime and the encoded decision.
\<close>

section \<open>The script\<close>

definition finish_body :: "'s server \<Rightarrow> string list \<Rightarrow> string list \<Rightarrow> ('s, int) lua" where
  "finish_body R KEYS ARGV =
     (let input = KEYS ! 0; output = KEYS ! 1; done = KEYS ! 2 in
      lua_bind (redis_call R [''GET'', done]) (\<lambda>old.
      lua_bind
        (if \<not> truthy old then
           lua_bind (redis_call R [''TYPE'', output]) (\<lambda>reply.
           let t = ok_field reply in
           if t \<noteq> Some ''none'' \<and> t \<noteq> Some ''stream'' then lua_raise (ErrText ''output must be stream'')
           else
             lua_bind (redis_call R [''SET'', done, ''1'', ''EX'', ARGV ! 3]) (\<lambda>_.
             lua_bind (redis_pcall R [''XADD'', output, ''MAXLEN'', ''~'', dec 1000000, ''*'',
                 ''event_id'', ARGV ! 2, ''decision'', ARGV ! 4]) (\<lambda>id.
             case id of
               RErr err \<Rightarrow> lua_bind (redis_call R [''DEL'', done]) (\<lambda>_. lua_raise (ErrText err))
             | _ \<Rightarrow> lua_return ())))
         else lua_return ()) (\<lambda>_.
      lua_bind (redis_call R [''XACK'', input, ARGV ! 0, ARGV ! 1]) (\<lambda>_.
      lua_bind (redis_call R [''XDEL'', input, ARGV ! 1]) (\<lambda>_.
      lua_return (if truthy old then 0 else 1))))))"

text \<open>The surrounding \<open>pcall\<close>: an error becomes the reply \<open>{-1, text}\<close>.\<close>

definition finish :: "'s server \<Rightarrow> string list \<Rightarrow> string list \<Rightarrow> 's \<Rightarrow> reply \<times> 's" where
  "finish R KEYS ARGV s =
     (case finish_body R KEYS ARGV s of
        (Inl err, s') \<Rightarrow> (RArr [RInt (- 1), RBulk (tostring R err)], s')
      | (Inr result, s') \<Rightarrow> (RArr [RInt result, RBulk ''''], s'))"

section \<open>What one run does to the data set\<close>

text \<open>The entry's removal from the input stream, and the publication before it.\<close>

definition removed :: "string list \<Rightarrow> string list \<Rightarrow> db \<Rightarrow> db" where
  "removed KEYS ARGV d = db_xdel (KEYS ! 0) (ARGV ! 1) (db_xack (KEYS ! 0) (ARGV ! 0) (ARGV ! 1) d)"

definition published :: "string list \<Rightarrow> string list \<Rightarrow> db \<Rightarrow> db \<Rightarrow> bool" where
  "published KEYS ARGV d d' \<longleftrightarrow>
     (\<exists>i st n. stream_at (d(KEYS ! 2 \<mapsto> VStr ''1'')) (KEYS ! 1) = Some st \<and> i \<notin> used st \<and>
        (n = 0 \<or> n + 1000000 \<le> Suc (length (entries st))) \<and>
        d' = db_xadd (KEYS ! 1) i [(''event_id'', ARGV ! 2), (''decision'', ARGV ! 4)] n st
               (d(KEYS ! 2 \<mapsto> VStr ''1'')))"

lemma removed_marked: "is_marked (removed KEYS ARGV d) k = is_marked d k"
  by (simp add: removed_def db_simps)

lemma published_marks: "published KEYS ARGV d d' \<Longrightarrow> is_marked d' (KEYS ! 2)"
  by (auto simp: published_def is_marked_xadd)

lemma published_keeps: "published KEYS ARGV d d' \<Longrightarrow> is_marked d k \<Longrightarrow> is_marked d' k"
  by (auto simp: published_def is_marked_xadd)

lemma ack_tail:
  assumes "redis_ok R"
  obtains (ok) s' where
      "lua_bind (redis_call R [''XACK'', k, g, i]) (\<lambda>_. lua_bind (redis_call R [''XDEL'', k, i]) (\<lambda>_. lua_return x)) s
         = (Inr x, s')" "view R s' = db_xdel k i (db_xack k g i (view R s))" "stream_at (view R s) k \<noteq> None"
    | (wrong) s' e where
      "lua_bind (redis_call R [''XACK'', k, g, i]) (\<lambda>_. lua_bind (redis_call R [''XDEL'', k, i]) (\<lambda>_. lua_return x)) s
         = (Inl e, s')" "view R s' = db_xdel k i (db_xack k g i (view R s))" "stream_at (view R s) k = None"
proof (cases rule: call_xack [OF assms, of k g i s, case_names ok wrong])
  case (ok s1 r)
  then show thesis using that
    by (cases rule: call_xdel [OF assms, of k i s1, case_names ok wrong])
      (auto simp: lua_bind_def lua_return_def stream_at_xack)
next
  case (wrong s1 e)
  have "db_xack k g i (view R s) = view R s" "db_xdel k i (view R s) = view R s"
    using wrong(3) by (auto simp: stream_at_def db_xack_def db_xdel_def split: option.splits rval.splits)
  then show thesis using that(2) wrong by (simp add: lua_bind_def)
qed

text \<open>
  The three ways a run can go, seen on the data set: the marker was there and only the entry is
  removed; the decision is published under a new marker and the entry is removed; nothing changes.
  In the first two an input key of another type makes the run report an error after all.
\<close>

lemma finish_body_cases:
  assumes ok: "redis_ok R"
  obtains (duplicate) s' where "is_marked (view R s) (KEYS ! 2)"
      "view R s' = removed KEYS ARGV (view R s)"
      "finish_body R KEYS ARGV s = (Inr 0, s') \<and> stream_at (view R s) (KEYS ! 0) \<noteq> None \<or>
       (\<exists>e. finish_body R KEYS ARGV s = (Inl e, s')) \<and> stream_at (view R s) (KEYS ! 0) = None"
    | (published) s' d where "view R s (KEYS ! 2) = None" "published KEYS ARGV (view R s) d"
      "view R s' = removed KEYS ARGV d"
      "finish_body R KEYS ARGV s = (Inr 1, s') \<and> stream_at d (KEYS ! 0) \<noteq> None \<or>
       (\<exists>e. finish_body R KEYS ARGV s = (Inl e, s')) \<and> stream_at d (KEYS ! 0) = None"
    | (failed) s' e where "finish_body R KEYS ARGV s = (Inl e, s')" "view R s' = view R s"
      "\<not> is_marked (view R s) (KEYS ! 2)"
proof (cases rule: call_get [OF ok, of "KEYS ! 2" s, case_names absent marked wrong])
  case (wrong s1 e)
  then show thesis using failed by (simp add: finish_body_def lua_bind_def Let_def)
next
  case (marked s1 v)
  then have tail: "finish_body R KEYS ARGV s =
      lua_bind (redis_call R [''XACK'', KEYS ! 0, ARGV ! 0, ARGV ! 1])
        (\<lambda>_. lua_bind (redis_call R [''XDEL'', KEYS ! 0, ARGV ! 1]) (\<lambda>_. lua_return 0)) s1"
    by (simp add: finish_body_def lua_bind_def lua_return_def truthy_def Let_def)
  show thesis
    by (cases rule: ack_tail [OF ok, of "KEYS ! 0" "ARGV ! 0" "ARGV ! 1" 0 s1, case_names ok wrong])
      (use tail marked in \<open>auto intro!: duplicate simp: removed_def is_marked_def\<close>)
next
  case (absent s1)
  obtain s2 where ty: "redis_call R [''TYPE'', KEYS ! 1] s1 =
      (Inr (RStatus (type_name (view R s1 (KEYS ! 1)))), s2)" and v2: "view R s2 = view R s"
    using call_type [OF ok, of "KEYS ! 1" s1] absent(2) by metis
  let ?rest = "\<lambda>x. lua_bind (redis_call R [''XACK'', KEYS ! 0, ARGV ! 0, ARGV ! 1])
        (\<lambda>_. lua_bind (redis_call R [''XDEL'', KEYS ! 0, ARGV ! 1]) (\<lambda>_. lua_return x))"
  have unmarked: "\<not> is_marked (view R s) (KEYS ! 2)" using absent(3) by (simp add: is_marked_def)
  show thesis
  proof (cases "type_name (view R s1 (KEYS ! 1)) \<in> {''none'', ''stream''}")
    case False
    then show thesis using failed absent ty v2 unmarked
      by (simp add: finish_body_def lua_bind_def lua_raise_def truthy_def ok_field_def Let_def)
  next
    case True
    then have body: "finish_body R KEYS ARGV s =
        lua_bind (lua_bind (redis_call R [''SET'', KEYS ! 2, ''1'', ''EX'', ARGV ! 3]) (\<lambda>_.
          lua_bind (redis_pcall R [''XADD'', KEYS ! 1, ''MAXLEN'', ''~'', dec 1000000, ''*'',
             ''event_id'', ARGV ! 2, ''decision'', ARGV ! 4]) (\<lambda>id.
          case id of
            RErr err \<Rightarrow> lua_bind (redis_call R [''DEL'', KEYS ! 2]) (\<lambda>_. lua_raise (ErrText err))
          | _ \<Rightarrow> lua_return ()))) (\<lambda>_. ?rest 1) s2"
      using absent ty by (auto simp: finish_body_def lua_bind_def truthy_def ok_field_def Let_def)
    show thesis
    proof (cases rule: call_set [OF ok, of "KEYS ! 2" "''1''" "ARGV ! 3" s2, case_names stored refused])
      case (refused s3 e)
      then show thesis using failed body v2 unmarked by (simp add: lua_bind_def)
    next
      case (stored s3 r)
      let ?fs = "[(''event_id'', ARGV ! 2), (''decision'', ARGV ! 4)]"
      show thesis
      proof (cases rule: pcall_xadd_maxlen [OF ok, of "KEYS ! 1" 1000000 ?fs s3, case_names added refused])
        case (refused s4 e)
        obtain s5 q where del: "redis_call R [''DEL'', KEYS ! 2] s4 = (Inr q, s5)"
          and v5: "view R s5 = (view R s4)(KEYS ! 2 := None)" by (rule call_del [OF ok])
        have "view R s5 = view R s"
          using v5 refused(2) stored(3) v2 absent(3) by (simp add: fun_upd_idem)
        then show thesis using failed body stored(1) refused(1) del unmarked
          by (simp add: lua_bind_def lua_raise_def)
      next
        case (added s4 i st n)
        have pub: "published KEYS ARGV (view R s) (view R s4)"
          unfolding published_def using added(2-5) stored(3) v2
          by (intro exI [of _ i] exI [of _ st] exI [of _ n]) simp
        have b: "finish_body R KEYS ARGV s = ?rest 1 s4"
          using body stored(1) added(1) by (simp add: lua_bind_def lua_return_def)
        show thesis
          by (cases rule: ack_tail [OF ok, of "KEYS ! 0" "ARGV ! 0" "ARGV ! 1" 1 s4, case_names ok wrong])
            (use b pub absent(3) in \<open>auto intro!: that(2) simp: removed_def\<close>)
      qed
    qed
  qed
qed

lemma finish_cases:
  assumes ok: "redis_ok R" and run: "finish R KEYS ARGV s = (r, s')"
  obtains (duplicate) "is_marked (view R s) (KEYS ! 2)" "view R s' = removed KEYS ARGV (view R s)"
      "r = RArr [RInt 0, RBulk ''''] \<and> stream_at (view R s) (KEYS ! 0) \<noteq> None \<or>
       (\<exists>m. r = RArr [RInt (- 1), RBulk m]) \<and> stream_at (view R s) (KEYS ! 0) = None"
    | (published) d where "view R s (KEYS ! 2) = None" "published KEYS ARGV (view R s) d"
      "view R s' = removed KEYS ARGV d"
      "r = RArr [RInt 1, RBulk ''''] \<and> stream_at d (KEYS ! 0) \<noteq> None \<or>
       (\<exists>m. r = RArr [RInt (- 1), RBulk m]) \<and> stream_at d (KEYS ! 0) = None"
    | (failed) m where "r = RArr [RInt (- 1), RBulk m]" "view R s' = view R s"
      "\<not> is_marked (view R s) (KEYS ! 2)"
proof (cases rule: finish_body_cases [OF ok, of s KEYS ARGV, case_names duplicate published failed])
  case duplicate
  then show thesis using that(1) run by (auto simp: finish_def)
next
  case published
  then show thesis using that(2) run by (auto simp: finish_def)
next
  case failed
  then show thesis using that(3) run by (auto simp: finish_def)
qed

section \<open>All or nothing\<close>

lemma finish_on_stream:
  assumes "redis_ok R" "finish R KEYS ARGV s = (r, s')"
    and "stream_at (view R s) (KEYS ! 0) \<noteq> None" "KEYS ! 2 \<noteq> KEYS ! 0"
  shows "(r = RArr [RInt 1, RBulk ''''] \<and> view R s (KEYS ! 2) = None \<and>
            (\<exists>d. published KEYS ARGV (view R s) d \<and> view R s' = removed KEYS ARGV d)) \<or>
         (r = RArr [RInt 0, RBulk ''''] \<and> is_marked (view R s) (KEYS ! 2) \<and>
            view R s' = removed KEYS ARGV (view R s)) \<or>
         ((\<exists>m. r = RArr [RInt (- 1), RBulk m]) \<and> view R s' = view R s)"
proof (cases rule: finish_cases [OF assms(1,2), case_names duplicate published failed])
  case (published d)
  then have "stream_at d (KEYS ! 0) \<noteq> None"
    using assms(3,4)
    by (auto simp: published_def stream_at_def db_xadd_def split: option.splits rval.splits if_splits)
  with published show ?thesis by auto
qed (use assms(3) in auto)

text \<open>
  C4. A run of \<open>FINISH\<close> on an input stream is atomic although Redis does not roll scripts back: either
  it returns 1, the marker was absent, and the data set changed by exactly the marker, one fresh output
  entry (with the oldest of more than a million possibly trimmed) and the removal of the input entry;
  or it returns 0, the marker was there, and only the input entry is removed; or it returns -1 and the
  data set is unchanged, so the entry remains retryable.
\<close>

theorem finish_atomic:
  assumes "redis_ok R" "finish R KEYS ARGV s = (r, s')"
    and "stream_at (view R s) (KEYS ! 0) \<noteq> None" "KEYS ! 2 \<noteq> KEYS ! 0"
  shows "(r = RArr [RInt 1, RBulk ''''] \<and> view R s (KEYS ! 2) = None \<and>
            (\<exists>d. published KEYS ARGV (view R s) d \<and> view R s' = removed KEYS ARGV d)) \<or>
         (r = RArr [RInt 0, RBulk ''''] \<and> is_marked (view R s) (KEYS ! 2) \<and>
            view R s' = removed KEYS ARGV (view R s)) \<or>
         ((\<exists>m. r = RArr [RInt (- 1), RBulk m]) \<and> view R s' = view R s)"
  by (rule finish_on_stream [OF assms])

text \<open>Where the marker and the entry stand after a run that reports success.\<close>

lemma removed_entry: "entry_ids (removed KEYS ARGV d) (KEYS ! 0) = entry_ids d (KEYS ! 0) - {ARGV ! 1}"
  by (simp add: removed_def db_simps)

lemma finish_success:
  assumes "redis_ok R" "finish R KEYS ARGV s = (RArr [RInt n, m], s')" "0 \<le> n"
  shows "is_marked (view R s') (KEYS ! 2)" "ARGV ! 1 \<notin> entry_ids (view R s') (KEYS ! 0)"
  by (cases rule: finish_cases [OF assms(1,2), case_names duplicate published failed];
      use assms(3) in \<open>auto simp: removed_marked removed_entry published_marks\<close>)+

section \<open>At most one publication per marker\<close>

type_synonym finish_call = "string list \<times> string list"

definition run_finish :: "'s server \<Rightarrow> finish_call \<Rightarrow> 's \<Rightarrow> reply \<times> 's" where
  "run_finish R c s = finish R (fst c) (snd c) s"

interpretation fin: guarded_once redis_ok run_finish "\<lambda>c. fst c ! 2" "\<lambda>R s. is_marked (view R s)"
    "\<lambda>r. r = RArr [RInt 1, RBulk '''']"
proof unfold_locales
  fix R :: "'s server" and c s out s'
  assume ok: "redis_ok R" and x: "run_finish R c s = (out, s')" and f: "out = RArr [RInt 1, RBulk '''']"
  have x': "finish R (fst c) (snd c) s = (out, s')" using x by (simp add: run_finish_def)
  show "\<not> is_marked (view R s) (fst c ! 2)"
    by (cases rule: finish_cases [OF ok x', case_names duplicate published failed])
      (use f in \<open>auto simp: is_marked_def\<close>)
  show "is_marked (view R s') (fst c ! 2)"
    using finish_success(1) [OF ok x' [unfolded f]] by simp
next
  fix R :: "'s server" and c s out s' k
  assume ok: "redis_ok R" and x: "run_finish R c s = (out, s')" and m: "is_marked (view R s) k"
  have x': "finish R (fst c) (snd c) s = (out, s')" using x by (simp add: run_finish_def)
  show "is_marked (view R s') k"
    by (cases rule: finish_cases [OF ok x', case_names duplicate published failed])
      (use m in \<open>auto simp: removed_marked published_keeps\<close>)
qed


section \<open>Retries get through, and where they cannot\<close>

lemma failed_reply:
  "finish_body R KEYS ARGV s = (Inl e, s') \<Longrightarrow> finish R KEYS ARGV s = (RArr [RInt (- 1), RBulk (tostring R e)], s')"
  by (simp add: finish_def)

lemma type_name_stream: "stream_at d k = Some st \<Longrightarrow> type_name (d k) \<in> {''none'', ''stream''}"
  by (auto simp: stream_at_def type_name_def split: option.splits rval.splits)

text \<open>
  A retry gets through: on a server that accepts writes, with a usable lifetime, an input and an
  output key that hold streams (or nothing yet) and a marker key that is free or marked, the script
  succeeds: it returns 0 or 1, the marker is set afterwards and the entry is gone from the input.
\<close>

lemma finish_serves:
  assumes "redis_ok R" "accepting R" "ttl_ok (ARGV ! 3)"
    and "stream_at (view R s) (KEYS ! 0) \<noteq> None"
    and "stream_at (view R s) (KEYS ! 1) = Some st" "finite (used st)"
    and "view R s (KEYS ! 2) = None \<or> is_marked (view R s) (KEYS ! 2)"
    and "KEYS ! 2 \<noteq> KEYS ! 0" "KEYS ! 2 \<noteq> KEYS ! 1"
  shows "\<exists>n s'. finish R KEYS ARGV s = (RArr [RInt n, RBulk ''''], s') \<and> n \<in> {0, 1} \<and>
           is_marked (view R s') (KEYS ! 2) \<and> ARGV ! 1 \<notin> entry_ids (view R s') (KEYS ! 0)"
proof -
  obtain r s' where run: "finish R KEYS ARGV s = (r, s')" by fastforce
  have "r = RArr [RInt 0, RBulk ''''] \<or> r = RArr [RInt 1, RBulk '''']"
  proof (cases rule: finish_body_cases [OF assms(1), of s KEYS ARGV, case_names duplicate published failed])
    case (failed t e)
    then have free: "view R s (KEYS ! 2) = None" using assms(7) by simp
    obtain s1 where get: "redis_call R [''GET'', KEYS ! 2] s = (Inr RNil, s1)" "view R s1 = view R s"
      by (cases rule: call_get [OF assms(1), of "KEYS ! 2" s, case_names absent marked wrong]) (use free in auto)
    obtain s2 where ty: "redis_call R [''TYPE'', KEYS ! 1] s1 =
        (Inr (RStatus (type_name (view R s1 (KEYS ! 1)))), s2)" "view R s2 = view R s"
      using call_type [OF assms(1), of "KEYS ! 1" s1] get(2) by metis
    have tn: "type_name (view R s1 (KEYS ! 1)) \<in> {''none'', ''stream''}"
      using type_name_stream [OF assms(5)] get(2) by simp
    obtain s3 q where set: "redis_call R [''SET'', KEYS ! 2, ''1'', ''EX'', ARGV ! 3] s2 = (Inr q, s3)"
      "view R s3 = (view R s)(KEYS ! 2 \<mapsto> VStr ''1'')"
      by (cases rule: call_set [OF assms(1), of "KEYS ! 2" "''1''" "ARGV ! 3" s2, case_names stored refused])
        (use ty(2) accepting_set [OF assms(2,3)] in auto)
    have st: "stream_at (view R s3) (KEYS ! 1) = Some st"
      using assms(5,9) set(2) by (simp add: stream_at_def)
    let ?fs = "[(''event_id'', ARGV ! 2), (''decision'', ARGV ! 4)]"
    obtain s4 i where add: "redis_pcall R (''XADD'' # KEYS ! 1 # ''MAXLEN'' # ''~'' # dec 1000000 # ''*'' # flat ?fs) s3
        = (Inr (RBulk i), s4)"
      by (cases rule: pcall_xadd_maxlen [OF assms(1), of "KEYS ! 1" 1000000 ?fs s3, case_names added refused])
        (use accepting_xadd_maxlen [OF assms(2) st assms(6), of 1000000 ?fs] in auto)
    have "finish_body R KEYS ARGV s =
        lua_bind (redis_call R [''XACK'', KEYS ! 0, ARGV ! 0, ARGV ! 1])
          (\<lambda>_. lua_bind (redis_call R [''XDEL'', KEYS ! 0, ARGV ! 1]) (\<lambda>_. lua_return 1)) s4"
      using get ty(1) tn set(1) add
      by (auto simp: finish_body_def lua_bind_def lua_return_def truthy_def ok_field_def Let_def)
    moreover have "stream_at (view R s4) (KEYS ! 0) \<noteq> None"
      by (cases rule: pcall_xadd_maxlen [OF assms(1), of "KEYS ! 1" 1000000 ?fs s3, case_names added refused])
        (use add set(2) assms(4,8) in \<open>auto simp: stream_at_def db_xadd_def split: option.splits rval.splits if_splits\<close>)
    ultimately have "\<exists>t'. finish_body R KEYS ARGV s = (Inr 1, t')"
      by (cases rule: ack_tail [OF assms(1), of "KEYS ! 0" "ARGV ! 0" "ARGV ! 1" 1 s4, case_names ok wrong]) auto
    with failed(1) show ?thesis by simp
  next
    case (published t d)
    then have "stream_at d (KEYS ! 0) \<noteq> None"
      using assms(4,8)
      by (auto simp: published_def stream_at_def db_xadd_def split: option.splits rval.splits if_splits)
    with published run show ?thesis by (auto simp: finish_def)
  qed (use run assms(4) in \<open>auto simp: finish_def\<close>)
  then obtain n where n: "r = RArr [RInt n, RBulk '''']" "n \<in> {0, 1}" by auto
  with finish_success [OF assms(1) run [unfolded n(1)]] run show ?thesis by auto
qed

text \<open>Without a usable lifetime, a first completion always fails.\<close>

lemma finish_bad_ttl:
  assumes "redis_ok R" "\<not> ttl_ok (ARGV ! 3)" "\<not> is_marked (view R s) (KEYS ! 2)"
  shows "\<exists>m s'. finish R KEYS ARGV s = (RArr [RInt (- 1), RBulk m], s') \<and> view R s' = view R s"
proof (cases rule: call_get [OF assms(1), of "KEYS ! 2" s, case_names absent marked wrong])
  case (absent s1)
  obtain s2 where ty: "redis_call R [''TYPE'', KEYS ! 1] s1 =
      (Inr (RStatus (type_name (view R s1 (KEYS ! 1)))), s2)" "view R s2 = view R s"
    using call_type [OF assms(1), of "KEYS ! 1" s1] absent(2) by metis
  obtain s3 e where set: "redis_call R [''SET'', KEYS ! 2, ''1'', ''EX'', ARGV ! 3] s2 = (Inl e, s3)"
    "view R s3 = view R s"
    by (cases rule: call_set [OF assms(1), of "KEYS ! 2" "''1''" "ARGV ! 3" s2, case_names stored refused])
      (use ty(2) assms(2) in auto)
  have "\<exists>e t. finish_body R KEYS ARGV s = (Inl e, t) \<and> view R t = view R s"
    using absent(1) ty set
    by (auto simp: finish_body_def lua_bind_def lua_raise_def truthy_def ok_field_def Let_def)
  then show ?thesis using failed_reply by metis
next
  case (marked s1 v)
  then show ?thesis using assms(3) by (simp add: is_marked_def)
next
  case (wrong s1 e)
  then have "finish_body R KEYS ARGV s = (Inl e, s1)" by (simp add: finish_body_def lua_bind_def Let_def)
  then show ?thesis using wrong(2) failed_reply by metis
qed

section \<open>A run on the reference server\<close>

definition demo_db :: db where
  "demo_db =
     [''payment_events'' \<mapsto> VStream
        \<lparr>entries = [(''1-0'', [(''event_id'', ''test''), (''payload'', ''{}'')])], used = {''1-0''},
         groups = [''risk-workers'' \<mapsto> \<lparr>delivered = {''1-0''}, pending = [''1-0'' \<mapsto> ''worker-1'']\<rparr>]\<rparr>]"

definition demo_keys :: "string list" where
  "demo_keys = [''payment_events'', ''risk_decisions'', ''payment_events:completed:test'']"

definition demo_argv :: "string list" where
  "demo_argv = [''risk-workers'', ''1-0'', ''test'', ''86400'', ''{decision}'']"

lemma demo_ttl: "ttl_ok ''86400''"
  by (simp add: ttl_ok_def digit_val_def)

lemmas run_script = finish_def finish_body_def lua_bind_def lua_return_def lua_raise_def redis_call_def
  redis_pcall_def truthy_def ok_field_def mem_exec_def mem_xadd_def type_name_def stream_at_def

lemma demo_first: "fst (finish mem demo_keys demo_argv demo_db) = RArr [RInt 1, RBulk '''']"
  by (simp add: run_script demo_keys_def demo_argv_def demo_db_def demo_ttl db_xadd_def db_xack_def
      db_xdel_def empty_stream_def mem_id_def Let_def)

theorem finish_atomic_witness:
  "\<exists>s'. finish mem demo_keys demo_argv demo_db = (RArr [RInt 1, RBulk ''''], s') \<and>
     (\<exists>d. published demo_keys demo_argv demo_db d \<and> s' = removed demo_keys demo_argv d)"
proof -
  obtain s' where run: "finish mem demo_keys demo_argv demo_db = (RArr [RInt 1, RBulk ''''], s')"
    using demo_first by (metis prod.collapse)
  have "stream_at (view mem demo_db) (demo_keys ! 0) \<noteq> None" "demo_keys ! 2 \<noteq> demo_keys ! 0"
    by (simp_all add: demo_db_def demo_keys_def stream_at_def)
  from finish_atomic [OF mem_ok run this] run show ?thesis by auto
qed


end
