(* ===== verification/Config.thy ===== *)
theory Config
  imports Prelude
begin

text \<open>
  The worker's configuration (\<open>apps/risk-worker/src/main.rs\<close>: \<open>Config\<close>, \<open>setting\<close>, \<open>positive\<close> and the
  part of \<open>main\<close> that builds it). The process environment is a map; \<open>None\<close> is a variable that is unset
  or not valid Unicode, the two cases in which \<open>env::var\<close> fails.
\<close>

section \<open>Settings\<close>

type_synonym environment = "string \<rightharpoonup> string"

record config =
  stream :: string
  result :: string
  group :: string
  consumer :: string
  ttl :: u64
  reclaim_ms :: u64
  batch :: u64

datatype startup_error = ParseIntError | Message string

definition setting :: "environment \<Rightarrow> string \<Rightarrow> string \<Rightarrow> string" where
  "setting env name dflt = (case env name of Some v \<Rightarrow> v | None \<Rightarrow> dflt)"

text \<open>\<open>str::parse::<u64>\<close>: an optional plus sign, then at least one digit, without overflow.\<close>

definition strip_plus :: "string \<Rightarrow> string" where
  "strip_plus s = (case s of [] \<Rightarrow> [] | c # cs \<Rightarrow> if c = CHR ''+'' \<and> cs \<noteq> [] then cs else s)"

definition parse_u64 :: "string \<Rightarrow> u64 option" where
  "parse_u64 s =
     (if s = [] then None
      else case nat_of_digits 0 (strip_plus s) of
             None \<Rightarrow> None
           | Some n \<Rightarrow> if n < 2 ^ 64 then Some (of_nat n) else None)"

definition positive :: "environment \<Rightarrow> string \<Rightarrow> u64 \<Rightarrow> startup_error + u64" where
  "positive env name dflt =
     (case parse_u64 (setting env name (dec (unat dflt))) of
        None \<Rightarrow> Inl ParseIntError
      | Some v \<Rightarrow> if v = 0 then Inl (Message (name @ '' must be positive'')) else Inr v)"

section \<open>Building the configuration\<close>

text \<open>
  The fields in the order of the code, the first error winning, and then the check that the two
  streams differ. \<open>pid\<close> is \<open>std::process::id\<close>.
\<close>

definition load_config :: "environment \<Rightarrow> u32 \<Rightarrow> startup_error + config" where
  "load_config env pid =
     (case positive env ''HOOKGUARD_IDEMPOTENCY_TTL_SECONDS'' 86400 of
        Inl e \<Rightarrow> Inl e
      | Inr seconds \<Rightarrow>
      case positive env ''HOOKGUARD_RECLAIM_IDLE_MS'' 5000 of
        Inl e \<Rightarrow> Inl e
      | Inr idle \<Rightarrow>
      case positive env ''HOOKGUARD_WORKER_BATCH'' 256 of
        Inl e \<Rightarrow> Inl e
      | Inr count \<Rightarrow>
          let cfg = \<lparr>stream = setting env ''HOOKGUARD_STREAM'' ''payment_events'',
                result = setting env ''HOOKGUARD_RESULT_STREAM'' ''risk_decisions'',
                group = setting env ''HOOKGUARD_WORKER_GROUP'' ''risk-workers'',
                consumer = setting env ''HOOKGUARD_WORKER_CONSUMER''
                  (setting env ''HOSTNAME'' ''worker'' @ ''-'' @ dec (unat pid)),
                ttl = seconds, reclaim_ms = idle, batch = min count 1024\<rparr>
          in if stream cfg = result cfg then Inl (Message ''input and result streams must differ'')
             else Inr cfg)"

section \<open>Parsing\<close>

lemma digit_not_plus: "digit_val (CHR ''+'') = None"
  by (simp add: digit_val_def)

lemma strip_plus_dec: "strip_plus (dec n) = dec n"
proof (cases "dec n")
  case (Cons c cs)
  then have "digit_val c \<noteq> None" using dec_digits [of c n] by simp
  then have "c \<noteq> CHR ''+''" using digit_not_plus by auto
  then show ?thesis by (simp add: strip_plus_def Cons)
qed simp

lemma strip_plus_sign: "strip_plus (CHR ''+'' # dec n) = dec n"
  by (simp add: strip_plus_def)

lemma parse_u64_dec: "n < 2 ^ 64 \<Longrightarrow> parse_u64 (dec n) = Some (of_nat n)"
  by (simp add: parse_u64_def strip_plus_dec)

lemma parse_u64_dec_unat [simp]: "parse_u64 (dec (unat v)) = Some v"
proof -
  have "unat v < 2 ^ 64" using unsigned_less [of v] by simp
  then show ?thesis by (simp add: parse_u64_dec)
qed

lemma positive_Inr: "positive env name d = Inr v \<Longrightarrow> 0 < v"
  by (auto simp: positive_def word_gt_0 split: option.splits if_splits)

section \<open>The loaded configuration\<close>

lemma setting_None [simp]: "env name = None \<Longrightarrow> setting env name d = d"
  and setting_Some [simp]: "env name = Some v \<Longrightarrow> setting env name d = v"
  by (simp_all add: setting_def)

lemma positive_default: "env name = None \<Longrightarrow> d \<noteq> 0 \<Longrightarrow> positive env name d = Inr d"
  by (simp add: positive_def)

lemma positive_dec: "env name = Some (dec (unat v)) \<Longrightarrow> v \<noteq> 0 \<Longrightarrow> positive env name d = Inr v"
  by (simp add: positive_def)

text \<open>
  A limit given in decimal is read exactly: \<open>positive\<close> returns the value the variable spells, rejects
  zero with its own message and rejects everything that does not fit 64 bits; a leading plus sign is
  accepted.
\<close>

theorem positive_reads_decimal:
  "positive (env(name \<mapsto> (if with_sign then ''+'' else '''') @ dec n)) name dflt =
     (if 2 ^ 64 \<le> n then Inl ParseIntError
      else if n = 0 then Inl (Message (name @ '' must be positive''))
      else Inr (of_nat n))"
proof -
  have "of_nat n \<noteq> (0 :: u64)" if "n < 2 ^ 64" "n \<noteq> 0"
    using that by (auto simp: word_of_nat_eq_0_iff dest: dvd_imp_le)
  then show ?thesis
    by (cases with_sign) (auto simp: positive_def parse_u64_def strip_plus_dec strip_plus_sign)
qed

lemma load_config_cases:
  assumes "load_config env pid = Inr c"
  obtains t r b where "positive env ''HOOKGUARD_IDEMPOTENCY_TTL_SECONDS'' 86400 = Inr t"
    "positive env ''HOOKGUARD_RECLAIM_IDLE_MS'' 5000 = Inr r"
    "positive env ''HOOKGUARD_WORKER_BATCH'' 256 = Inr b"
    "ttl c = t" "reclaim_ms c = r" "batch c = min b 1024" "stream c \<noteq> result c"
  using assms by (auto simp: load_config_def Let_def split: sum.splits if_splits)

text \<open>
  C35. A configuration that the worker starts with is usable: the input and result streams differ, the
  completion lifetime and the reclaim interval are positive, and a batch has between 1 and 1024 entries.
\<close>

theorem load_config_valid:
  assumes "load_config env pid = Inr c"
  shows "stream c \<noteq> result c \<and> 0 < ttl c \<and> 0 < reclaim_ms c \<and>
     1 \<le> unat (batch c) \<and> unat (batch c) \<le> 1024"
proof -
  obtain t r b where c: "positive env ''HOOKGUARD_IDEMPOTENCY_TTL_SECONDS'' 86400 = Inr t"
    "positive env ''HOOKGUARD_RECLAIM_IDLE_MS'' 5000 = Inr r"
    "positive env ''HOOKGUARD_WORKER_BATCH'' 256 = Inr b"
    "ttl c = t" "reclaim_ms c = r" "batch c = min b 1024" "stream c \<noteq> result c"
    by (rule load_config_cases [OF assms])
  have "0 < b" using positive_Inr [OF c(3)] .
  then have lower: "1 \<le> unat (batch c)" unfolding c by (simp add: min_def unat_gt_0 Suc_le_eq word_gt_0)
  have "min b 1024 \<le> 1024" by simp
  then have upper: "unat (batch c) \<le> 1024" unfolding c by (simp add: word_le_nat_alt)
  show ?thesis using lower upper c positive_Inr by simp
qed

theorem load_config_valid_witness:
  "(case load_config Map.empty 7 of Inl e \<Rightarrow> False | Inr c \<Rightarrow>
      stream c = ''payment_events'' \<and> stream c \<noteq> result c \<and> 0 < ttl c \<and> 0 < reclaim_ms c \<and>
      1 \<le> unat (batch c) \<and> unat (batch c) \<le> 1024)"
proof -
  obtain c where c: "load_config Map.empty 7 = Inr c" "stream c = ''payment_events''"
    by (simp add: load_config_def positive_default Let_def)
  with load_config_valid [OF c(1)] show ?thesis by simp
qed

end
