(* ===== verification/Batch.thy ===== *)
theory Batch
  imports Scoring Finish Config
begin

text \<open>
  \<open>process_batch\<close> of the worker (\<open>apps/risk-worker/src/main.rs\<close>): every entry of a batch becomes one
  \<open>EVAL\<close> of the completion script, the scripts go to the server in one pipeline, and the replies are
  tallied into the counters. The pipeline is not a transaction: other clients act between its
  commands, and the connection may break, or the cycle's deadline may pass, after any number of them.
\<close>

section \<open>Counters\<close>

record stats =
  ready_flag :: bool
  decisions :: u64
  duplicates :: u64
  dead :: u64
  errors :: u64
  reclaimed :: u64

definition stats_default :: stats where
  "stats_default = \<lparr>ready_flag = False, decisions = 0, duplicates = 0, dead = 0, errors = 0, reclaimed = 0\<rparr>"

section \<open>Libraries\<close>

text \<open>
  What the worker takes from its dependencies: \<open>serde_json\<close> reading an event, writing a decision
  (\<open>None\<close> is an \<open>Err\<close>) and writing an object of strings, \<open>StreamId::get\<close>, the conversions of
  replies (a pipeline's to \<open>Vec<(i64, String)>\<close>, \<open>StreamAutoClaimReply\<close>, \<open>StreamReadReply\<close>, \<open>String\<close>
  and \<open>u64\<close>), \<open>RedisError::code\<close>, and the exponential function of the platform.
\<close>

record libs =
  event_of_json :: "string \<Rightarrow> payment_event option"
  decision_to_json :: "risk_decision \<Rightarrow> string option"
  object_to_json :: "(string \<times> string) list \<Rightarrow> string"
  entry_get :: "stream_entry \<Rightarrow> string \<Rightarrow> string option"
  pipeline_reply :: "reply list \<Rightarrow> redis_error + (int \<times> string) list"
  claim_reply :: "reply \<Rightarrow> redis_error + (string \<times> stream_entry list)"
  read_reply :: "reply \<Rightarrow> redis_error + (string \<times> stream_entry list) list"
  string_reply :: "reply \<Rightarrow> redis_error + string"
  count_reply :: "reply \<Rightarrow> redis_error + u64"
  error_code :: "redis_error \<Rightarrow> string option"
  exp64 :: "f64 \<Rightarrow> f64"

text \<open>The documented conversion: pairs of an integer and a string are read as such, an error reply fails.\<close>

definition pair_reply :: "int \<times> string \<Rightarrow> reply" where
  "pair_reply p = RArr [RInt (fst p), RBulk (snd p)]"

definition pipeline_ok :: "libs \<Rightarrow> bool" where
  "pipeline_ok L \<longleftrightarrow>
     (\<forall>ps. pipeline_reply L (map pair_reply ps) = Inr ps) \<and>
     (\<forall>rs e. RErr e \<in> set rs \<longrightarrow> (\<exists>x. pipeline_reply L rs = Inl x))"

section \<open>Routing an entry\<close>

definition entry_event :: "libs \<Rightarrow> stream_entry \<Rightarrow> payment_event option" where
  "entry_event L entry =
     (case entry_get L entry ''payload'' of
        None \<Rightarrow> None
      | Some p \<Rightarrow>
          (case event_of_json L p of
             None \<Rightarrow> None
           | Some event \<Rightarrow> if valid event then Some event else None))"

text \<open>
  The keys and arguments of the \<open>EVAL\<close> for an entry, and whether it is a dead letter; \<open>None\<close> is the
  panic of \<open>expect\<close>.
\<close>

definition entry_command :: "libs \<Rightarrow> model \<Rightarrow> config \<Rightarrow> stream_entry \<Rightarrow> (finish_call \<times> bool) option" where
  "entry_command L m cfg entry =
     (case
        (case entry_event L entry of
           Some event \<Rightarrow>
             (let decision = score (exp64 L) m event;
                  ident = event_id event;
                  key = stream cfg @ '':completed:'' @ ident
              in case decision_to_json L decision of
                   None \<Rightarrow> None
                 | Some encoded \<Rightarrow> Some (ident, encoded, result cfg, key, False))
         | None \<Rightarrow>
             (let ident = (case entry_get L entry ''event_id'' of Some v \<Rightarrow> v | None \<Rightarrow> fst entry);
                  encoded = object_to_json L
                    [(''stream_id'', fst entry), (''event_id'', ident), (''error'', ''invalid event schema'')];
                  key = stream cfg @ '':rejected:'' @ fst entry
              in Some (ident, encoded, result cfg @ '':dead'', key, True)))
      of None \<Rightarrow> None
       | Some (ident, encoded, output, key, is_dead) \<Rightarrow>
           Some (([stream cfg, output, key],
                  [group cfg, fst entry, ident, dec (unat (ttl cfg)), encoded]), is_dead))"

section \<open>The pipeline\<close>

text \<open>
  One \<open>EVAL\<close> on the server. The server may refuse to run a script at all (out of memory, loading,
  busy); then it answers an error and nothing changes.
\<close>

definition run_eval :: "'s server \<Rightarrow> finish_call \<Rightarrow> 's \<Rightarrow> reply \<times> 's" where
  "run_eval R c s =
     (case refuse R (''EVAL'' # dec (length (fst c)) # fst c @ snd c) s of
        Some e \<Rightarrow> (RErr e, s)
      | None \<Rightarrow> run_finish R c s)"

text \<open>The first \<open>n\<close> commands of a pipeline; \<open>env i\<close> is what other clients do before the \<open>i\<close>-th.\<close>

definition run_pipeline ::
  "'s server \<Rightarrow> (nat \<Rightarrow> 's \<Rightarrow> 's) \<Rightarrow> nat \<Rightarrow> finish_call list \<Rightarrow> 's \<Rightarrow> (finish_call \<times> reply) list \<times> 's" where
  "run_pipeline R env n calls s = interleave (run_eval R) (zip (map env [0..<n]) calls) s"

text \<open>
  The fate of the round trip: all replies arrive; the connection fails after the server ran \<open>n\<close>
  commands; the caller's deadline drops the request after \<open>n\<close> commands.
\<close>

datatype fate = Answered | Broken nat redis_error | Cut nat

datatype outcome = Done "redis_error + unit" | TimedOut | Panicked

section \<open>Tallying the replies\<close>

fun tally :: "((int \<times> string) \<times> bool) list \<Rightarrow> bool \<Rightarrow> stats \<Rightarrow> bool \<times> stats" where
  "tally [] failed st = (failed, st)"
| "tally (((code, text), is_dead) # rest) failed st =
     (if code < 0 then tally rest True st
      else if code = 0 then tally rest failed (st\<lparr>duplicates := duplicates st + 1\<rparr>)
      else if is_dead then tally rest failed (st\<lparr>dead := dead st + 1\<rparr>)
      else tally rest failed (st\<lparr>decisions := decisions st + 1\<rparr>))"

definition process_batch ::
  "libs \<Rightarrow> model \<Rightarrow> config \<Rightarrow> 's server \<Rightarrow> (nat \<Rightarrow> 's \<Rightarrow> 's) \<Rightarrow> fate \<Rightarrow> stream_entry list \<Rightarrow>
   stats \<Rightarrow> 's \<Rightarrow> outcome \<times> stats \<times> 's" where
  "process_batch L m cfg R env fate batch_entries st s =
     (if batch_entries = [] then (Done (Inr ()), st, s)
      else case those (map (entry_command L m cfg) batch_entries) of
        None \<Rightarrow> (Panicked, st, s)
      | Some cmds \<Rightarrow>
          (let calls = map fst cmds; flags = map snd cmds in
           case fate of
             Answered \<Rightarrow>
               (let (outs, s') = run_pipeline R env (length calls) calls s in
                case pipeline_reply L (map snd outs) of
                  Inl e \<Rightarrow> (Done (Inl e), st, s')
                | Inr results \<Rightarrow>
                    (let (failed, st') = tally (zip results flags) False st
                     in (Done (if failed then Inl ResponseError else Inr ()), st', s')))
           | Broken n e \<Rightarrow> (Done (Inl e), st, snd (run_pipeline R env n calls s))
           | Cut n \<Rightarrow> (TimedOut, st, snd (run_pipeline R env n calls s))))"

section \<open>Routing\<close>

lemma entry_command_event:
  assumes "entry_event L entry = Some ev" "decision_to_json L (score (exp64 L) m ev) = Some enc"
  shows "entry_command L m cfg entry =
     Some (([stream cfg, result cfg, stream cfg @ '':completed:'' @ event_id ev],
            [group cfg, fst entry, event_id ev, dec (unat (ttl cfg)), enc]), False)"
  using assms by (simp add: entry_command_def Let_def)

lemma entry_command_dead:
  assumes "entry_event L entry = None"
  shows "\<exists>ident enc. entry_command L m cfg entry =
     Some (([stream cfg, result cfg @ '':dead'', stream cfg @ '':rejected:'' @ fst entry],
            [group cfg, fst entry, ident, dec (unat (ttl cfg)), enc]), True)"
  using assms by (simp add: entry_command_def Let_def)

lemma entry_command_cases:
  assumes "entry_command L m cfg entry = Some (c, flag)"
  obtains (event) ev enc where "entry_event L entry = Some ev" "\<not> flag"
      "decision_to_json L (score (exp64 L) m ev) = Some enc"
      "c = ([stream cfg, result cfg, stream cfg @ '':completed:'' @ event_id ev],
            [group cfg, fst entry, event_id ev, dec (unat (ttl cfg)), enc])"
    | (rejected) ident enc where "entry_event L entry = None" flag
      "c = ([stream cfg, result cfg @ '':dead'', stream cfg @ '':rejected:'' @ fst entry],
            [group cfg, fst entry, ident, dec (unat (ttl cfg)), enc])"
  using assms by (auto simp: entry_command_def Let_def split: option.splits)

lemma entry_command_shape:
  assumes "entry_command L m cfg entry = Some (c, flag)"
  shows "fst c ! 0 = stream cfg" "snd c ! 0 = group cfg" "snd c ! 1 = fst entry"
    "snd c ! 3 = dec (unat (ttl cfg))" "fst c ! 1 \<in> {result cfg, result cfg @ '':dead''}"
    "\<exists>t. t \<noteq> [] \<and> fst c ! 2 = stream cfg @ CHR '':'' # t"
  by (cases rule: entry_command_cases [OF assms, case_names event rejected]; simp)+

text \<open>
  C26. Completion markers identify deliveries exactly: two entries share a marker if and only if both
  carry valid events with the same event identifier, or both are unreadable and have the same entry
  identifier. So a duplicate of an event is recognised under any entry, two different events never
  suppress each other, and a rejected entry never blocks an event.
\<close>

theorem marker_identifies_event:
  assumes "entry_command L m cfg a = Some (c, p)" "entry_command L m cfg b = Some (d, q)"
  shows "fst c ! 2 = fst d ! 2 \<longleftrightarrow>
     (case (entry_event L a, entry_event L b) of
        (Some x, Some y) \<Rightarrow> event_id x = event_id y
      | (None, None) \<Rightarrow> fst a = fst b
      | _ \<Rightarrow> False)"
  by (cases rule: entry_command_cases [OF assms(1), case_names event rejected];
      cases rule: entry_command_cases [OF assms(2), case_names event rejected]) auto

section \<open>One script in the pipeline\<close>

lemma run_eval_cases:
  assumes "run_eval R c s = (r, s')"
  obtains (refused) e where "r = RErr e" "s' = s" | (ran) "run_finish R c s = (r, s')"
  using assms by (auto simp: run_eval_def split: option.splits)

interpretation ev: guarded_once redis_ok run_eval "\<lambda>c. fst c ! 2" "\<lambda>R s. is_marked (view R s)"
    "\<lambda>r. r = RArr [RInt 1, RBulk '''']"
proof unfold_locales
  fix R :: "'s server" and c s out s'
  assume ok: "redis_ok R" and x: "run_eval R c s = (out, s')" and f: "out = RArr [RInt 1, RBulk '''']"
  then have run: "run_finish R c s = (out, s')"
    by (cases rule: run_eval_cases [OF x, case_names refused ran]) auto
  show "\<not> is_marked (view R s) (fst c ! 2)" by (rule fin.first_unmarked [OF ok run f])
  show "is_marked (view R s') (fst c ! 2)" by (rule fin.first_marks [OF ok run f])
next
  fix R :: "'s server" and c s out s' k
  assume ok: "redis_ok R" and x: "run_eval R c s = (out, s')" and m: "is_marked (view R s) k"
  show "is_marked (view R s') k"
    by (cases rule: run_eval_cases [OF x, case_names refused ran])
      (use m fin.keeps_marks [OF ok _ m] in auto)
qed

text \<open>A call whose input key is neither its output nor its marker.\<close>

definition separate :: "finish_call \<Rightarrow> bool" where
  "separate c \<longleftrightarrow> fst c ! 1 \<noteq> fst c ! 0 \<and> fst c ! 2 \<noteq> fst c ! 0"

lemma published_ids:
  "published KEYS ARGV d d' \<Longrightarrow> KEYS ! 1 \<noteq> KEYS ! 0 \<Longrightarrow> KEYS ! 2 \<noteq> KEYS ! 0 \<Longrightarrow>
   entry_ids d' (KEYS ! 0) = entry_ids d (KEYS ! 0)"
  by (auto simp: published_def db_xadd_def entry_ids_def)

lemma run_eval_ids:
  assumes "redis_ok R" "run_eval R c s = (r, s')" "separate c"
  shows "entry_ids (view R s') (fst c ! 0) \<subseteq> entry_ids (view R s) (fst c ! 0)"
    and "i \<in> entry_ids (view R s) (fst c ! 0) \<Longrightarrow> i \<notin> entry_ids (view R s') (fst c ! 0) \<Longrightarrow>
         i = snd c ! 1 \<and> is_marked (view R s') (fst c ! 2)"
proof -
  have "entry_ids (view R s') (fst c ! 0) \<subseteq> entry_ids (view R s) (fst c ! 0) \<and>
     (i \<in> entry_ids (view R s) (fst c ! 0) \<longrightarrow> i \<notin> entry_ids (view R s') (fst c ! 0) \<longrightarrow>
         i = snd c ! 1 \<and> is_marked (view R s') (fst c ! 2))" for i
  proof (cases rule: run_eval_cases [OF assms(2), case_names refused ran])
    case ran
    then have run: "finish R (fst c) (snd c) s = (r, s')" by (simp add: run_finish_def)
    show ?thesis
      by (cases rule: finish_cases [OF assms(1) run, case_names duplicate published failed])
        (use assms(3) published_ids in
          \<open>auto simp: removed_entry removed_marked separate_def published_marks\<close>)
  qed simp
  then show "entry_ids (view R s') (fst c ! 0) \<subseteq> entry_ids (view R s) (fst c ! 0)"
    and "i \<in> entry_ids (view R s) (fst c ! 0) \<Longrightarrow> i \<notin> entry_ids (view R s') (fst c ! 0) \<Longrightarrow>
         i = snd c ! 1 \<and> is_marked (view R s') (fst c ! 2)" by blast+
qed

lemma run_eval_success:
  assumes "redis_ok R" "run_eval R c s = (pair_reply (n, m), s')" "0 \<le> n"
  shows "is_marked (view R s') (fst c ! 2)" "snd c ! 1 \<notin> entry_ids (view R s') (fst c ! 0)"
proof -
  have "finish R (fst c) (snd c) s = (RArr [RInt n, RBulk m], s')"
    by (cases rule: run_eval_cases [OF assms(2), case_names refused ran])
      (auto simp: pair_reply_def run_finish_def)
  then show "is_marked (view R s') (fst c ! 2)" "snd c ! 1 \<notin> entry_ids (view R s') (fst c ! 0)"
    using finish_success [OF assms(1) _ assms(3)] by blast+
qed

lemma run_eval_reply:
  assumes "redis_ok R" "run_eval R c s = (r, s')"
  obtains (refused) e where "r = RErr e" | (failed) m where "r = pair_reply (- 1, m)"
    | (succeeded) n where "r = pair_reply (n, '''')" "n \<in> {0, 1}"
proof (cases rule: run_eval_cases [OF assms(2), case_names refused ran])
  case ran
  then have run: "finish R (fst c) (snd c) s = (r, s')" by (simp add: run_finish_def)
  show thesis
    by (cases rule: finish_cases [OF assms(1) run, case_names duplicate published failed])
      (use that(2,3) in \<open>auto simp: pair_reply_def\<close>)
qed (use that(1) in blast)

section \<open>No entry is lost\<close>

text \<open>The calls of a batch, and what their keys look like when the streams are distinct.\<close>

definition streams_apart :: "config \<Rightarrow> bool" where
  "streams_apart cfg \<longleftrightarrow> stream cfg \<noteq> result cfg \<and> stream cfg \<noteq> result cfg @ '':dead''"

lemma command_separate:
  assumes "streams_apart cfg" "entry_command L m cfg entry = Some (c, flag)"
  shows "separate c"
  using entry_command_shape [OF assms(2)] assms(1) by (auto simp: separate_def streams_apart_def)

lemma batch_calls:
  assumes "those (map (entry_command L m cfg) es) = Some cmds" "(c, flag) \<in> set cmds"
  obtains entry where "entry \<in> set es" "entry_command L m cfg entry = Some (c, flag)"
proof -
  obtain n where n: "n < length cmds" "cmds ! n = (c, flag)" using assms(2) by (auto simp: in_set_conv_nth)
  then have "n < length es" "entry_command L m cfg (es ! n) = Some (c, flag)"
    using assms(1) those_map_length those_map_nth by metis+
  then show thesis using that by (meson nth_mem)
qed

lemma process_batch_state:
  assumes "process_batch L m cfg R env fate es st s = (out, st', s')"
  obtains "s' = s" | cmds n where "those (map (entry_command L m cfg) es) = Some cmds"
    "s' = snd (run_pipeline R env n (map fst cmds) s)"
proof (cases "those (map (entry_command L m cfg) es)")
  case (Some cmds)
  show thesis
  proof (cases "es = []")
    case False
    have s': "s' = snd (run_pipeline R env
        (case fate of Answered \<Rightarrow> length cmds | Broken n e \<Rightarrow> n | Cut n \<Rightarrow> n) (map fst cmds) s)"
    proof (cases fate)
      case Answered
      then show ?thesis using assms False Some
        by (cases "pipeline_reply L (map snd (fst (run_pipeline R env (length cmds) (map fst cmds) s)))")
          (simp_all add: process_batch_def Let_def case_prod_unfold)
    qed (use assms False Some in \<open>simp_all add: process_batch_def Let_def\<close>)
    show thesis by (rule that(2) [OF Some s'])
  qed (use assms that(1) in \<open>simp add: process_batch_def\<close>)
qed (use assms that(1) in \<open>auto simp: process_batch_def split: if_splits\<close>)

lemma pipeline_step:
  assumes "(e, c) \<in> set (zip (map env [0..<n]) (map fst cmds))"
    and "those (map (entry_command L m cfg) es) = Some cmds"
  obtains j entry flag where "e = env j" "entry \<in> set es" "entry_command L m cfg entry = Some (c, flag)"
proof -
  obtain j where "e = env j" using set_zip_leftD [OF assms(1)] by auto
  moreover obtain flag where "(c, flag) \<in> set cmds" using set_zip_rightD [OF assms(1)] by auto
  ultimately show thesis using that batch_calls [OF assms(2)] by metis
qed

text \<open>
  What the other clients may do during a batch: anything that keeps the markers and does not itself
  remove the entry \<open>i\<close>.
\<close>

definition keeps_entry :: "'s server \<Rightarrow> string \<Rightarrow> string \<Rightarrow> (nat \<Rightarrow> 's \<Rightarrow> 's) \<Rightarrow> bool" where
  "keeps_entry R k i env \<longleftrightarrow>
     (\<forall>n t. (\<forall>q. is_marked (view R t) q \<longrightarrow> is_marked (view R (env n t)) q) \<and>
            (i \<in> entry_ids (view R t) k \<longrightarrow> i \<in> entry_ids (view R (env n t)) k))"

text \<open>
  An entry is accounted for: it is still in the input stream, or it is one of \<open>E\<close> and its completion
  marker is set.
\<close>

definition accounted :: "libs \<Rightarrow> model \<Rightarrow> config \<Rightarrow> stream_entry set \<Rightarrow> string \<Rightarrow> db \<Rightarrow> bool" where
  "accounted L m cfg E i d \<longleftrightarrow> i \<in> entry_ids d (stream cfg) \<or>
     (\<exists>entry \<in> E. \<exists>c flag. fst entry = i \<and> entry_command L m cfg entry = Some (c, flag) \<and>
        is_marked d (fst c ! 2))"

lemma accounted_keeps:
  "accounted L m cfg E i d \<Longrightarrow> (\<And>q. is_marked d q \<Longrightarrow> is_marked d' q) \<Longrightarrow>
   (i \<in> entry_ids d (stream cfg) \<Longrightarrow> i \<in> entry_ids d' (stream cfg)) \<Longrightarrow> accounted L m cfg E i d'"
  unfolding accounted_def by blast

lemma run_eval_accounted:
  assumes "redis_ok R" "streams_apart cfg" "entry_command L m cfg entry = Some (c, flag)" "entry \<in> E"
    and "accounted L m cfg E i (view R t)"
  shows "accounted L m cfg E i (view R (snd (run_eval R c t)))"
proof -
  obtain r t' where x: "run_eval R c t = (r, t')" by (cases "run_eval R c t")
  note shape = entry_command_shape [OF assms(3)]
  have "i = fst entry \<and> is_marked (view R t') (fst c ! 2)"
    if "i \<in> entry_ids (view R t) (stream cfg)" "i \<notin> entry_ids (view R t') (stream cfg)"
    using run_eval_ids(2) [OF assms(1) x command_separate [OF assms(2,3)], of i] shape that by simp
  moreover have "is_marked (view R t) q \<Longrightarrow> is_marked (view R t') q" for q
    using ev.keeps_marks [OF assms(1) x] .
  ultimately show ?thesis using assms(3-5) unfolding accounted_def x snd_conv by blast
qed

lemma process_batch_accounted:
  assumes "redis_ok R" "streams_apart cfg" "keeps_entry R (stream cfg) i env"
    and "process_batch L m cfg R env fate es st s = (out, st', s')"
    and "set es \<subseteq> E" "accounted L m cfg E i (view R s)"
  shows "accounted L m cfg E i (view R s')"
proof (cases rule: process_batch_state [OF assms(4), case_names same ran])
  case (ran cmds n)
  let ?I = "\<lambda>t. accounted L m cfg E i (view R t)"
  have "?I (e t) \<and> ?I (snd (run_eval R c t))"
    if step: "(e, c) \<in> set (zip (map env [0..<n]) (map fst cmds))" and t: "?I t" for e c t
  proof -
    obtain j entry flag where e: "e = env j" and en: "entry \<in> set es"
      and c: "entry_command L m cfg entry = Some (c, flag)" by (rule pipeline_step [OF step ran(1)])
    have "?I (e t)" using accounted_keeps [OF t] assms(3) unfolding e keeps_entry_def by blast
    then show ?thesis using run_eval_accounted [OF assms(1,2) c _ t] en assms(5) by blast
  qed
  then have "\<forall>(e, c) \<in> set (zip (map env [0..<n]) (map fst cmds)).
      \<forall>t. ?I t \<longrightarrow> ?I (e t) \<and> ?I (snd (run_eval R c t))" by blast
  then have "?I (snd (run_pipeline R env n (map fst cmds) s))"
    unfolding run_pipeline_def using assms(6) by (rule interleave_invariant)
  then show ?thesis by (simp add: ran(2))
qed (use assms(6) in simp)

text \<open>
  No entry is lost, whatever happens to the batch: if the connection breaks or the deadline passes
  after any number of scripts, if scripts fail or are refused, if the task panics, and with other
  clients acting in between, an entry that is no longer in the input stream afterwards is one of the
  batch whose completion marker is set. Every other entry is still there to be delivered again.
\<close>

theorem no_entry_lost:
  assumes "redis_ok R" "streams_apart cfg" "keeps_entry R (stream cfg) i env"
    and "process_batch L m cfg R env fate es st s = (out, st', s')"
    and "i \<in> entry_ids (view R s) (stream cfg)" "i \<notin> entry_ids (view R s') (stream cfg)"
  shows "\<exists>entry \<in> set es. \<exists>c flag. fst entry = i \<and> entry_command L m cfg entry = Some (c, flag) \<and>
           is_marked (view R s') (fst c ! 2)"
  using process_batch_accounted [OF assms(1-4) order_refl] assms(5,6) by (simp add: accounted_def)

section \<open>Replies\<close>

lemma pipeline_replies:
  assumes "redis_ok R" "r \<in> set (map snd (fst (interleave (run_eval R) steps s)))"
  shows "(\<exists>e. r = RErr e) \<or> (\<exists>m. r = pair_reply (- 1, m)) \<or> (\<exists>n \<in> {0, 1}. r = pair_reply (n, ''''))"
  using assms(2)
proof (induction steps arbitrary: s)
  case (Cons step steps)
  obtain e c where step: "step = (e, c)" by (cases step)
  obtain q t where x: "run_eval R c (e s) = (q, t)" by fastforce
  show ?case
  proof (cases "r = q")
    case True
    show ?thesis
      by (cases rule: run_eval_reply [OF assms(1) x, case_names refused failed succeeded]) (auto simp: True)
  next
    case False
    with Cons.prems have "r \<in> set (map snd (fst (interleave (run_eval R) steps t)))"
      by (simp add: step x case_prod_unfold Let_def)
    then show ?thesis by (rule Cons.IH)
  qed
qed simp

text \<open>When the pipeline's replies convert, every script ran, and the results are what they returned.\<close>

lemma pipeline_results:
  assumes "redis_ok R" "pipeline_ok L"
    and "pipeline_reply L (map snd (fst (interleave (run_eval R) steps s))) = Inr results"
  shows "map snd (fst (interleave (run_eval R) steps s)) = map pair_reply results"
    and "(n, m) \<in> set results \<Longrightarrow> n = - 1 \<or> n \<in> {0, 1} \<and> m = ''''"
proof -
  let ?rs = "map snd (fst (interleave (run_eval R) steps s))"
  have "RErr e \<notin> set ?rs" for e using assms(2,3) unfolding pipeline_ok_def by (metis Inl_Inr_False)
  then have "\<forall>r \<in> set ?rs. \<exists>p. r = pair_reply p"
    using pipeline_replies [OF assms(1), of _ steps s] by blast
  then obtain ps where ps: "?rs = map pair_reply ps"
    unfolding ex_map_conv [symmetric] ..
  then have "results = ps" using assms(2,3) unfolding pipeline_ok_def by (metis Inr_inject)
  with ps show rs: "?rs = map pair_reply results" by simp
  assume "(n, m) \<in> set results"
  then have "pair_reply (n, m) \<in> set ?rs" unfolding rs by (metis imageI list.set_map)
  from pipeline_replies [OF assms(1) this] show "n = - 1 \<or> n \<in> {0, 1} \<and> m = ''''"
    by (auto simp: pair_reply_def)
qed

section \<open>A batch that reports success\<close>

lemma tally_failed: "fst (tally xs failed st) \<longleftrightarrow> failed \<or> (\<exists>x \<in> set xs. fst (fst x) < 0)"
  by (induction xs failed st rule: tally.induct) auto

lemma pipeline_all_done:
  assumes "redis_ok R"
    and "\<forall>(e, c) \<in> set steps. separate c \<and> fst c ! 0 = k \<and> snd c ! 1 \<in> A \<and>
      (\<forall>t. (\<forall>q. is_marked (view R t) q \<longrightarrow> is_marked (view R (e t)) q) \<and>
           (\<forall>i \<in> A. i \<notin> entry_ids (view R t) k \<longrightarrow> i \<notin> entry_ids (view R (e t)) k))"
    and "\<forall>r \<in> set (map snd (fst (interleave (run_eval R) steps s))). \<exists>n m. r = pair_reply (n, m) \<and> 0 \<le> n"
    and "(e, c) \<in> set steps"
  shows "is_marked (view R (snd (interleave (run_eval R) steps s))) (fst c ! 2) \<and>
    snd c ! 1 \<notin> entry_ids (view R (snd (interleave (run_eval R) steps s))) k"
  using assms(2-4)
proof (induction steps arbitrary: s)
  case (Cons step steps)
  obtain e' c' where step: "step = (e', c')" by (cases step)
  obtain q t where x: "run_eval R c' (e' s) = (q, t)" by fastforce
  have run: "interleave (run_eval R) (step # steps) s =
      ((c', q) # fst (interleave (run_eval R) steps t), snd (interleave (run_eval R) steps t))"
    by (simp add: step x case_prod_unfold Let_def)
  show ?case
  proof (cases "(e, c) = step")
    case True
    with Cons.prems(1) have c: "separate c" "fst c ! 0 = k" "snd c ! 1 \<in> A" by auto
    obtain n m where q: "q = pair_reply (n, m)" "0 \<le> n" using Cons.prems(2) by (auto simp: run)
    let ?I = "\<lambda>u. is_marked (view R u) (fst c ! 2) \<and> snd c ! 1 \<notin> entry_ids (view R u) k"
    have "c' = c" using True step by simp
    then have "?I t" using run_eval_success [OF assms(1) _ q(2)] x q(1) c(2) by blast
    moreover have "\<forall>(e, d) \<in> set steps. \<forall>u. ?I u \<longrightarrow> ?I (e u) \<and> ?I (snd (run_eval R d u))"
    proof clarify
      fix e d u
      assume mem: "(e, d) \<in> set steps" and u: "is_marked (view R u) (fst c ! 2)"
        "snd c ! 1 \<notin> entry_ids (view R u) k"
      from mem Cons.prems(1) have d: "separate d" "fst d ! 0 = k" by auto
      obtain r' u' where y: "run_eval R d u = (r', u')" by fastforce
      have "?I u'"
        using u ev.keeps_marks [OF assms(1) y u(1)] run_eval_ids(1) [OF assms(1) y d(1)] d(2) by auto
      moreover have "?I (e u)" using mem Cons.prems(1) u c(3) by auto
      ultimately show "?I (e u) \<and> ?I (snd (run_eval R d u))" by (simp add: y)
    qed
    ultimately show ?thesis unfolding run using interleave_invariant [of steps ?I] by simp
  next
    case False
    have "\<forall>r \<in> set (map snd (fst (interleave (run_eval R) steps t))). \<exists>n m. r = pair_reply (n, m) \<and> 0 \<le> n"
      using Cons.prems(2) by (simp add: run)
    with Cons.IH [of t] Cons.prems(1,3) False show ?thesis by (simp add: run)
  qed
qed simp

text \<open>Markers stay and removed entries do not come back: what a batch needs of the other clients.\<close>

definition keeps_progress :: "'s server \<Rightarrow> string \<Rightarrow> string set \<Rightarrow> (nat \<Rightarrow> 's \<Rightarrow> 's) \<Rightarrow> bool" where
  "keeps_progress R k A env \<longleftrightarrow>
     (\<forall>n t. (\<forall>q. is_marked (view R t) q \<longrightarrow> is_marked (view R (env n t)) q) \<and>
            (\<forall>i \<in> A. i \<notin> entry_ids (view R t) k \<longrightarrow> i \<notin> entry_ids (view R (env n t)) k))"

lemma process_batch_answered:
  assumes "process_batch L m cfg R env fate es st s = (Done (Inr ()), st', s')" "es \<noteq> []"
  obtains cmds results where "those (map (entry_command L m cfg) es) = Some cmds"
    "pipeline_reply L (map snd (fst (run_pipeline R env (length cmds) (map fst cmds) s))) = Inr results"
    "tally (zip results (map snd cmds)) False st = (False, st')"
    "s' = snd (run_pipeline R env (length cmds) (map fst cmds) s)"
proof (cases "those (map (entry_command L m cfg) es)")
  case (Some cmds)
  show thesis
  proof (cases fate)
    case Answered
    let ?run = "run_pipeline R env (length cmds) (map fst cmds) s"
    show thesis
    proof (cases "pipeline_reply L (map snd (fst ?run))")
      case (Inr results)
      with assms Some Answered that [OF Some Inr] show thesis
        by (cases "tally (zip results (map snd cmds)) False st")
          (auto simp: process_batch_def Let_def case_prod_unfold split: if_splits)
    qed (use assms Some Answered in \<open>simp add: process_batch_def Let_def case_prod_unfold\<close>)
  qed (use assms Some in \<open>simp_all add: process_batch_def Let_def\<close>)
qed (use assms in \<open>simp add: process_batch_def\<close>)

lemma successful_replies:
  assumes "tally (zip results flags) False st = (False, st')" "length results = length flags"
  shows "\<forall>r \<in> set (map pair_reply results). \<exists>n t. r = pair_reply (n, t) \<and> 0 \<le> n"
proof -
  have "0 \<le> n" if "(n, t) \<in> set results" for n t
  proof -
    from that obtain flag where "((n, t), flag) \<in> set (zip results flags)"
      using assms(2) by (metis in_set_impl_in_set_zip1)
    then show ?thesis using assms(1) tally_failed [of "zip results flags" False st] by (fastforce simp: not_less)
  qed
  then show ?thesis by auto
qed

lemma batch_steps_progress:
  assumes "streams_apart cfg" "keeps_progress R (stream cfg) (fst ` set es) env"
    and "those (map (entry_command L m cfg) es) = Some cmds"
  shows "\<forall>(e, c) \<in> set (zip (map env [0..<length cmds]) (map fst cmds)).
      separate c \<and> fst c ! 0 = stream cfg \<and> snd c ! 1 \<in> fst ` set es \<and>
      (\<forall>t. (\<forall>q. is_marked (view R t) q \<longrightarrow> is_marked (view R (e t)) q) \<and>
           (\<forall>i \<in> fst ` set es. i \<notin> entry_ids (view R t) (stream cfg) \<longrightarrow>
              i \<notin> entry_ids (view R (e t)) (stream cfg)))"
proof clarify
  fix e a b assume "(e, (a, b)) \<in> set (zip (map env [0..<length cmds]) (map fst cmds))"
  then obtain i entry flag where "e = env i" "entry \<in> set es"
    "entry_command L m cfg entry = Some ((a, b), flag)" by (rule pipeline_step [OF _ assms(3)])
  then show "separate (a, b) \<and> fst (a, b) ! 0 = stream cfg \<and> snd (a, b) ! 1 \<in> fst ` set es \<and>
      (\<forall>t. (\<forall>q. is_marked (view R t) q \<longrightarrow> is_marked (view R (e t)) q) \<and>
           (\<forall>i \<in> fst ` set es. i \<notin> entry_ids (view R t) (stream cfg) \<longrightarrow>
              i \<notin> entry_ids (view R (e t)) (stream cfg)))"
    using command_separate [OF assms(1)] entry_command_shape assms(2) unfolding keeps_progress_def
    by (metis image_eqI)
qed

text \<open>
  C7. A batch that reports success has finished every entry: the completion marker of each is set and
  the entry is gone from the input stream.
\<close>

theorem batch_success_completes:
  assumes "redis_ok R" "pipeline_ok L" "streams_apart cfg"
    and "keeps_progress R (stream cfg) (fst ` set es) env"
    and "process_batch L m cfg R env fate es st s = (Done (Inr ()), st', s')"
    and "entry \<in> set es"
  shows "\<exists>c flag. entry_command L m cfg entry = Some (c, flag) \<and> is_marked (view R s') (fst c ! 2) \<and>
           fst entry \<notin> entry_ids (view R s') (stream cfg)"
proof -
  have "es \<noteq> []" using assms(6) by auto
  from process_batch_answered [OF assms(5) this] obtain cmds results where
    cmds: "those (map (entry_command L m cfg) es) = Some cmds"
    and results: "pipeline_reply L (map snd (fst (run_pipeline R env (length cmds) (map fst cmds) s))) = Inr results"
    and tally: "tally (zip results (map snd cmds)) False st = (False, st')"
    and s': "s' = snd (run_pipeline R env (length cmds) (map fst cmds) s)" .
  let ?steps = "zip (map env [0..<length cmds]) (map fst cmds)"
  note res = pipeline_results [OF assms(1,2) results [unfolded run_pipeline_def]]
  have len: "length results = length cmds"
    using arg_cong [OF res(1), of length] by simp
  have nonneg: "\<forall>r \<in> set (map snd (fst (interleave (run_eval R) ?steps s))).
      \<exists>n t. r = pair_reply (n, t) \<and> 0 \<le> n"
    unfolding res(1) by (rule successful_replies [OF tally]) (simp add: len)
  obtain j where j: "j < length es" "es ! j = entry" using assms(6) by (auto simp: in_set_conv_nth)
  then have jc: "j < length cmds" "entry_command L m cfg entry = Some (cmds ! j)"
    using cmds those_map_length those_map_nth by metis+
  obtain c flag where c: "cmds ! j = (c, flag)" by fastforce
  have "(env j, c) \<in> set ?steps"
    using jc(1) c by (auto simp: in_set_zip intro!: exI [of _ j])
  moreover note batch_steps_progress [OF assms(3,4) cmds]
  ultimately have "is_marked (view R s') (fst c ! 2) \<and> snd c ! 1 \<notin> entry_ids (view R s') (stream cfg)"
    unfolding s' run_pipeline_def using nonneg by (intro pipeline_all_done [OF assms(1)])
  then show ?thesis using jc(2) c entry_command_shape(3) by metis
qed

section \<open>Counters\<close>

definition tally_count :: "((int \<times> string) \<times> bool \<Rightarrow> bool) \<Rightarrow> ((int \<times> string) \<times> bool) list \<Rightarrow> u64" where
  "tally_count P xs = of_nat (length (filter P xs))"

lemma tally_stats:
  "snd (tally xs failed st) =
     st\<lparr>decisions := decisions st + tally_count (\<lambda>x. 0 < fst (fst x) \<and> \<not> snd x) xs,
        duplicates := duplicates st + tally_count (\<lambda>x. fst (fst x) = 0) xs,
        dead := dead st + tally_count (\<lambda>x. 0 < fst (fst x) \<and> snd x) xs\<rparr>"
  by (induction xs failed st rule: tally.induct) (simp_all add: tally_count_def)

lemma filter_zip_map: "length (filter P (zip (map f xs) ys)) = length (filter (\<lambda>x. P (f (fst x), snd x)) (zip xs ys))"
  by (simp add: zip_map1 filter_map o_def case_prod_unfold)

definition reply_count :: "(reply \<times> bool \<Rightarrow> bool) \<Rightarrow> (reply \<times> bool) list \<Rightarrow> u64" where
  "reply_count P runs = of_nat (length (filter P runs))"

lemma tally_reply_count:
  assumes "\<And>n m. (n, m) \<in> set results \<Longrightarrow> n = - 1 \<or> n \<in> {0, 1} \<and> m = ''''"
    and "\<And>n m d. n = - 1 \<or> n \<in> {0, 1} \<and> m = '''' \<Longrightarrow> P ((n, m), d) \<longleftrightarrow> Q (pair_reply (n, m), d)"
  shows "tally_count P (zip results flags) = reply_count Q (zip (map pair_reply results) flags)"
proof -
  have "filter P (zip results flags) = filter (\<lambda>x. Q (pair_reply (fst x), snd x)) (zip results flags)"
  proof (rule filter_cong [OF refl])
    fix x assume "x \<in> set (zip results flags)"
    then have "fst x \<in> set results" by (metis prod.collapse set_zip_leftD)
    then show "P x = Q (pair_reply (fst x), snd x)"
      using assms by (metis prod.collapse)
  qed
  then show ?thesis by (simp add: tally_count_def reply_count_def filter_zip_map)
qed

lemma tally_counters:
  assumes "\<And>n m. (n, m) \<in> set results \<Longrightarrow> n = - 1 \<or> n \<in> {0, 1} \<and> m = ''''"
    and "runs = zip (map pair_reply results) flags"
  shows "snd (tally (zip results flags) failed st) =
    st\<lparr>decisions := decisions st + reply_count (\<lambda>(r, d). r = RArr [RInt 1, RBulk ''''] \<and> \<not> d) runs,
       duplicates := duplicates st + reply_count (\<lambda>(r, d). r = RArr [RInt 0, RBulk '''']) runs,
       dead := dead st + reply_count (\<lambda>(r, d). r = RArr [RInt 1, RBulk ''''] \<and> d) runs\<rparr>"
proof -
  have "tally_count (\<lambda>x. 0 < fst (fst x) \<and> \<not> snd x) (zip results flags) =
      reply_count (\<lambda>(r, d). r = RArr [RInt 1, RBulk ''''] \<and> \<not> d) runs"
    unfolding assms(2) by (rule tally_reply_count [OF assms(1)]) (auto simp: pair_reply_def)
  moreover have "tally_count (\<lambda>x. fst (fst x) = 0) (zip results flags) =
      reply_count (\<lambda>(r, d). r = RArr [RInt 0, RBulk '''']) runs"
    unfolding assms(2) by (rule tally_reply_count [OF assms(1)]) (auto simp: pair_reply_def)
  moreover have "tally_count (\<lambda>x. 0 < fst (fst x) \<and> snd x) (zip results flags) =
      reply_count (\<lambda>(r, d). r = RArr [RInt 1, RBulk ''''] \<and> d) runs"
    unfolding assms(2) by (rule tally_reply_count [OF assms(1)]) (auto simp: pair_reply_def)
  ultimately show ?thesis unfolding tally_stats by (simp only:)
qed

lemma tally_success:
  assumes "\<And>n m. (n, m) \<in> set results \<Longrightarrow> n = - 1 \<or> n \<in> {0, 1} \<and> m = ''''"
    and "length results = length flags"
  shows "\<not> fst (tally (zip results flags) False st) \<longleftrightarrow> (\<forall>(r, d) \<in> set (zip (map pair_reply results) flags).
     r = RArr [RInt 0, RBulk ''''] \<or> r = RArr [RInt 1, RBulk ''''])"
proof -
  let ?done = "\<lambda>r. r = RArr [RInt 0, RBulk ''''] \<or> r = RArr [RInt 1, RBulk '''']"
  have "fst (tally (zip results flags) False st) \<longleftrightarrow> (\<exists>p \<in> set results. fst p < 0)"
    using zip_ex_fst [OF assms(2), of "\<lambda>p. fst p < 0"] by (simp add: tally_failed)
  also have "\<dots> \<longleftrightarrow> (\<exists>p \<in> set results. \<not> ?done (pair_reply p))"
    using assms(1) by (force simp: pair_reply_def)
  also have "\<dots> \<longleftrightarrow> \<not> (\<forall>(r, d) \<in> set (zip (map pair_reply results) flags). ?done r)"
    using zip_all_fst [of "map pair_reply results" flags ?done] assms(2) by (simp add: case_prod_unfold)
  finally show ?thesis by simp
qed


lemma process_batch_keeps:
  assumes "process_batch L m cfg R env fate es st s = (out, st', s')"
  shows "ready_flag st' = ready_flag st" "errors st' = errors st" "reclaimed st' = reclaimed st"
proof -
  have "\<exists>xs. st' = st \<or> st' = snd (tally xs False st)"
  proof (cases "those (map (entry_command L m cfg) es)")
    case (Some cmds)
    show ?thesis
    proof (cases fate)
      case Answered
      then show ?thesis using assms Some
        by (cases "pipeline_reply L (map snd (fst (run_pipeline R env (length cmds) (map fst cmds) s)))")
          (auto simp: process_batch_def Let_def case_prod_unfold split: if_splits)
    qed (use assms Some in \<open>auto simp: process_batch_def Let_def split: if_splits\<close>)
  qed (use assms in \<open>auto simp: process_batch_def split: if_splits\<close>)
  then show "ready_flag st' = ready_flag st" "errors st' = errors st" "reclaimed st' = reclaimed st"
    by (auto simp: tally_stats)
qed

end
