(* ===== verification/Progress.thy ===== *)
theory Progress
  imports Batch Decode
begin

text \<open>
  When batches get through and when they cannot: on a server that accepts writes a batch succeeds; with
  a completion lifetime beyond Redis' range, or a dead-letter stream that is the input stream, both of
  which the configuration lets pass, it never does. Also the concrete runs behind the witnesses.
\<close>

section \<open>Success\<close>

text \<open>
  The input holds a stream with the group, the outputs hold streams (or nothing yet), the completion markers of the
  calls are free or set, and none of these keys coincide.
\<close>

definition serviceable :: "string \<Rightarrow> string \<Rightarrow> string set \<Rightarrow> string set \<Rightarrow> db \<Rightarrow> bool" where
  "serviceable input grp outs keys d \<longleftrightarrow>
     in_group d input grp \<and> (\<forall>out \<in> outs. \<exists>st. stream_at d out = Some st \<and> finite (used st)) \<and>
     (\<forall>k \<in> keys. d k = None \<or> is_marked d k) \<and>
     input \<notin> outs \<and> input \<notin> keys \<and> outs \<inter> keys = {}"

lemma serviceable_cong:
  assumes "serviceable input grp outs keys d" "\<And>k. k \<noteq> input \<Longrightarrow> d' k = d k" "in_group d' input grp"
  shows "serviceable input grp outs keys d'"
proof -
  have "k \<in> outs \<union> keys \<Longrightarrow> k \<noteq> input" for k using assms(1) by (auto simp: serviceable_def)
  with assms(2) have "k \<in> outs \<union> keys \<Longrightarrow> d' k = d k" for k by blast
  then have "k \<in> outs \<Longrightarrow> stream_at d' k = stream_at d k"
    "k \<in> keys \<Longrightarrow> d' k = d k \<and> is_marked d' k = is_marked d k" for k
    by (simp_all add: stream_at_def is_marked_def)
  then show ?thesis using assms(1,3) unfolding serviceable_def by metis
qed

lemma serviceable_xack: "serviceable k grp outs keys d \<Longrightarrow> serviceable k grp outs keys (db_xack k g i d)"
  by (rule serviceable_cong) (auto simp: db_simps serviceable_def)

lemma serviceable_xdel: "serviceable k grp outs keys d \<Longrightarrow> serviceable k grp outs keys (db_xdel k i d)"
  by (rule serviceable_cong) (auto simp: db_simps serviceable_def)

lemma serviceable_mark:
  "serviceable input grp outs keys d \<Longrightarrow> k \<in> keys \<Longrightarrow> serviceable input grp outs keys (d(k \<mapsto> VStr v))"
  by (auto simp: serviceable_def in_group_def stream_at_def is_marked_def split: option.splits rval.splits)

lemma serviceable_xadd:
  assumes "serviceable input grp outs keys d" "out \<in> outs" "stream_at d out = Some st"
  shows "serviceable input grp outs keys (db_xadd out i fs n st d)"
proof -
  have "finite (used st)" using assms by (force simp: serviceable_def)
  then show ?thesis using assms
    by (auto simp: serviceable_def in_group_def stream_at_def db_xadd_def is_marked_def split: option.splits rval.splits)
qed

lemma serviceable_removed:
  "serviceable (KEYS ! 0) grp outs keys d \<Longrightarrow> serviceable (KEYS ! 0) grp outs keys (removed KEYS ARGV d)"
  by (simp add: removed_def serviceable_xack serviceable_xdel)

lemma serviceable_published:
  assumes "published KEYS ARGV d d'" "serviceable input grp outs keys d" "KEYS ! 1 \<in> outs" "KEYS ! 2 \<in> keys"
  shows "serviceable input grp outs keys d'"
  using assms serviceable_xadd [OF serviceable_mark] by (auto simp: published_def)

lemma serviceable_finish:
  assumes "redis_ok R" "accepting R" "ttl_ok (ARGV ! 3)" "KEYS ! 1 \<in> outs" "KEYS ! 2 \<in> keys"
    and "serviceable (KEYS ! 0) grp outs keys (view R s)"
  shows "serviceable (KEYS ! 0) grp outs keys (view R (snd (finish R KEYS ARGV s)))"
    and "\<exists>n \<in> {0, 1}. fst (finish R KEYS ARGV s) = pair_reply (n, '''')"
proof -
  obtain r s' where run: "finish R KEYS ARGV s = (r, s')" by (cases "finish R KEYS ARGV s")
  have "serviceable (KEYS ! 0) grp outs keys (view R s')"
  proof (cases rule: finish_cases [OF assms(1) run, case_names duplicate published failed])
    case (published d)
    show ?thesis unfolding published(3)
      by (intro serviceable_removed serviceable_published [OF published(2)] assms(4-6))
  qed (use assms(6) in \<open>simp_all add: serviceable_removed\<close>)
  then show "serviceable (KEYS ! 0) grp outs keys (view R (snd (finish R KEYS ARGV s)))" by (simp add: run)
  have "\<exists>n s'. finish R KEYS ARGV s = (RArr [RInt n, RBulk ''''], s') \<and> n \<in> {0, 1} \<and>
           is_marked (view R s') (KEYS ! 2) \<and> ARGV ! 1 \<notin> entry_ids (view R s') (KEYS ! 0)"
  proof -
    obtain st where "stream_at (view R s) (KEYS ! 1) = Some st" "finite (used st)"
      using assms(4,6) by (auto simp: serviceable_def)
    moreover have "KEYS ! 2 \<noteq> KEYS ! 0" "KEYS ! 2 \<noteq> KEYS ! 1" "stream_at (view R s) (KEYS ! 0) \<noteq> None"
      "view R s (KEYS ! 2) = None \<or> is_marked (view R s) (KEYS ! 2)"
      using assms(4-6) in_group_stream by (auto simp: serviceable_def)
    ultimately show ?thesis using finish_serves [OF assms(1-3)] by blast
  qed
  then show "\<exists>n \<in> {0, 1}. fst (finish R KEYS ARGV s) = pair_reply (n, '''')"
    by (auto simp: pair_reply_def)
qed

text \<open>The server does not refuse to run scripts.\<close>

definition runs_scripts :: "'s server \<Rightarrow> bool" where
  "runs_scripts R \<longleftrightarrow> (\<forall>argv s. refuse R argv s = None)"

definition marker_keys :: "libs \<Rightarrow> model \<Rightarrow> config \<Rightarrow> stream_entry list \<Rightarrow> string set" where
  "marker_keys L m cfg es = {fst c ! 2 |c flag. \<exists>entry \<in> set es. entry_command L m cfg entry = Some (c, flag)}"

lemma batch_serves:
  fixes R :: "'s server"
  assumes "redis_ok R" "accepting R" "runs_scripts R" "pipeline_ok L" "ttl_ok (dec (unat (ttl cfg)))"
    and "\<forall>d. decision_to_json L d \<noteq> None"
    and "serviceable (stream cfg) (group cfg) {result cfg, result cfg @ '':dead''} K (view R s)" "marker_keys L m cfg es \<subseteq> K"
  shows "\<exists>st' s'. process_batch L m cfg R (\<lambda>_. id) Answered es st s = (Done (Inr ()), st', s') \<and>
     serviceable (stream cfg) (group cfg) {result cfg, result cfg @ '':dead''} K (view R s')"
proof (cases "es = []")
  case False
  have "entry_command L m cfg entry \<noteq> None" for entry
  proof (cases "entry_event L entry")
    case None
    then show ?thesis using entry_command_dead [of L entry m cfg] by auto
  next
    case (Some ev)
    moreover obtain enc where "decision_to_json L (score (exp64 L) m ev) = Some enc" using assms(6) by fastforce
    ultimately show ?thesis using entry_command_event [of L entry ev m _ cfg] by simp
  qed
  then obtain cmds where cmds: "those (map (entry_command L m cfg) es) = Some cmds"
    using those_map_Some by metis
  let ?steps = "zip (map (\<lambda>_. id :: 's \<Rightarrow> 's) [0..<length cmds]) (map fst cmds)"
  let ?I = "\<lambda>t. serviceable (stream cfg) (group cfg) {result cfg, result cfg @ '':dead''} K (view R t)"
  let ?Q = "\<lambda>r. \<exists>n \<in> {0, 1}. r = pair_reply (n, '''')"
  have step: "?I (snd (run_eval R c t)) \<and> ?Q (fst (run_eval R c t))"
    if mem: "(e, c) \<in> set ?steps" and t: "?I t" for e c t
  proof -
    obtain j entry flag where "entry \<in> set es" and c: "entry_command L m cfg entry = Some (c, flag)"
      by (rule pipeline_step [OF mem cmds])
    then have "fst c ! 2 \<in> marker_keys L m cfg es" unfolding marker_keys_def by blast
    then have k: "fst c ! 2 \<in> K" using assms(8) by blast
    note shape = entry_command_shape [OF c]
    have "run_eval R c t = finish R (fst c) (snd c) t"
      using assms(3) by (simp add: run_eval_def runs_scripts_def run_finish_def)
    then show ?thesis
      using serviceable_finish [OF assms(1,2) _ shape(5) k, where ARGV = "snd c" and s = t and grp = "group cfg"] t assms(5) shape(1,4) by simp
  qed
  have replies: "\<forall>r \<in> set (map snd (fst (interleave (run_eval R) ?steps s))). ?Q r"
  proof
    fix r assume r: "r \<in> set (map snd (fst (interleave (run_eval R) ?steps s)))"
    show "?Q r"
    proof (rule interleave_outcomes [OF _ _ _ r, where I = ?I])
      show "\<forall>(e, c) \<in> set ?steps. \<forall>t. ?I t \<longrightarrow> ?I (e t)"
      proof clarify
        fix e a b t assume mem: "(e, a, b) \<in> set ?steps" and t: "?I t"
        have "e = id" using set_zip_leftD [OF mem] by auto
        with t show "?I (e t)" by simp
      qed
    qed (use step assms(7) in \<open>blast, blast\<close>)
  qed
  then have "\<forall>r \<in> set (map snd (fst (interleave (run_eval R) ?steps s))). \<exists>p. r = pair_reply p" by blast
  then obtain ps where ps: "map snd (fst (interleave (run_eval R) ?steps s)) = map pair_reply ps"
    unfolding ex_map_conv [symmetric] ..
  have "0 \<le> fst p" if "p \<in> set ps" for p
  proof -
    have "?Q (pair_reply p)" using replies that unfolding ps by simp
    then show ?thesis by (cases p) (auto simp: pair_reply_def)
  qed
  then have "\<not> fst (tally (zip ps (map snd cmds)) False st)"
    by (auto simp: tally_failed not_less dest!: set_zip_leftD)
  moreover have "pipeline_reply L (map snd (fst (run_pipeline R (\<lambda>_. id) (length cmds) (map fst cmds) s))) = Inr ps"
    using assms(4) by (simp add: run_pipeline_def ps pipeline_ok_def)
  moreover have "?I (snd (run_pipeline R (\<lambda>_. id) (length cmds) (map fst cmds) s))"
    unfolding run_pipeline_def
  proof (rule interleave_invariant [where I = ?I])
    show "\<forall>(e, c) \<in> set ?steps. \<forall>t. ?I t \<longrightarrow> ?I (e t) \<and> ?I (snd (run_eval R c t))"
    proof clarify
      fix e a b t assume mem: "(e, a, b) \<in> set ?steps" and t: "?I t"
      have "e = id" using set_zip_leftD [OF mem] by auto
      with step [OF mem t] t show "?I (e t) \<and> ?I (snd (run_eval R (a, b) t))" by simp
    qed
  qed (rule assms(7))
  ultimately show ?thesis using cmds False
    by (cases "tally (zip ps (map snd cmds)) False st") (simp add: process_batch_def Let_def case_prod_unfold)
qed (use assms(7) in \<open>simp add: process_batch_def\<close>)

text \<open>
  C8. A batch gets through. On a server that accepts writes and runs scripts, with a usable completion
  lifetime, streams where streams are expected, markers that are free or set and decisions that can be
  encoded, a batch that nothing interrupts reports success; whatever is published already and whatever
  the entries contain, no entry can block it.
\<close>

theorem batch_completes:
  assumes "redis_ok R" "accepting R" "runs_scripts R" "pipeline_ok L" "ttl_ok (dec (unat (ttl cfg)))"
    and "\<forall>d. decision_to_json L d \<noteq> None"
    and "serviceable (stream cfg) (group cfg) {result cfg, result cfg @ '':dead''} (marker_keys L m cfg es) (view R s)"
  shows "\<exists>st' s'. process_batch L m cfg R (\<lambda>_. id) Answered es st s = (Done (Inr ()), st', s')"
  using batch_serves [OF assms order_refl] by blast

section \<open>Where batches cannot get through\<close>

text \<open>
  A lifetime of \<open>2 ^ 63\<close> seconds or more passes \<open>positive\<close>, but it is not one that Redis takes.
\<close>

lemma ttl_ok_dec: "ttl_ok (dec n) \<longleftrightarrow> 0 < n \<and> n < 2 ^ 63"
  by (simp add: ttl_ok_def)

lemma run_eval_bad_ttl:
  assumes "redis_ok R" "\<not> ttl_ok (snd c ! 3)" "\<not> is_marked (view R s) (fst c ! 2)"
  shows "view R (snd (run_eval R c s)) = view R s"
proof (cases "refuse R (''EVAL'' # dec (length (fst c)) # fst c @ snd c) s")
  case None
  then show ?thesis
    using finish_bad_ttl [OF assms] by (auto simp: run_eval_def run_finish_def)
qed (simp add: run_eval_def)

lemma bad_ttl_nothing:
  assumes "redis_ok R" "\<forall>(e, c) \<in> set steps. e = id \<and> \<not> ttl_ok (snd c ! 3) \<and> \<not> is_marked (view R s) (fst c ! 2)"
  shows "view R (snd (interleave (run_eval R) steps s)) = view R s"
proof (rule interleave_invariant [where I = "\<lambda>t. view R t = view R s"])
  show "\<forall>(e, c) \<in> set steps. \<forall>t. view R t = view R s \<longrightarrow>
      view R (e t) = view R s \<and> view R (snd (run_eval R c t)) = view R s"
    using assms(2) run_eval_bad_ttl [OF assms(1)] by fastforce
qed simp

text \<open>
  C39. An accepted configuration under which the worker never finishes an event: a completion lifetime of
  \<open>2 ^ 63\<close> seconds or more is positive, so the worker starts with it, but every batch of unmarked
  entries leaves the data set unchanged, however often it is retried.
\<close>

theorem oversized_lifetime_blocks:
  fixes R :: "'s server"
  assumes "redis_ok R" "positive env ''HOOKGUARD_IDEMPOTENCY_TTL_SECONDS'' 86400 = Inr (ttl cfg)"
    and "2 ^ 63 \<le> unat (ttl cfg)"
    and "\<forall>k \<in> marker_keys L m cfg es. \<not> is_marked (view R s) k"
    and "process_batch L m cfg R (\<lambda>_. id) fate es st s = (out, st', s')"
  shows "view R s' = view R s"
proof (cases rule: process_batch_state [OF assms(5), case_names same ran])
  case (ran cmds n)
  have "view R (snd (interleave (run_eval R) (zip (map (\<lambda>_. id) [0..<n]) (map fst cmds)) s)) = view R s"
  proof (rule bad_ttl_nothing [OF assms(1)], clarify)
    fix e a b assume mem: "(e, a, b) \<in> set (zip (map (\<lambda>_. id :: 's \<Rightarrow> 's) [0..<n]) (map fst cmds))"
    obtain j entry flag where "entry \<in> set es" and c: "entry_command L m cfg entry = Some ((a, b), flag)"
      by (rule pipeline_step [OF mem ran(1)])
    then have "a ! 2 \<in> marker_keys L m cfg es" unfolding marker_keys_def by force
    moreover have "e = id" using set_zip_leftD [OF mem] by auto
    ultimately show "e = id \<and> \<not> ttl_ok (snd (a, b) ! 3) \<and> \<not> is_marked (view R s) (fst (a, b) ! 2)"
      using assms(3,4) entry_command_shape(4) [OF c] by (simp add: ttl_ok_dec)
  qed
  then show ?thesis using ran(2) by (simp add: run_pipeline_def)
qed simp


section \<open>Concrete runs\<close>

definition demo_libs :: libs where
  "demo_libs =
     \<lparr>event_of_json = (\<lambda>p. if p = ''{}'' then Some sample_event
         else (case decode p of Some (Inr e) \<Rightarrow> Some e | _ \<Rightarrow> None)),
      decision_to_json = (\<lambda>_. Some ''{decision}''), object_to_json = (\<lambda>_. ''{rejected}''),
      entry_get = (\<lambda>e f. map_of (snd e) f),
      pipeline_reply = (\<lambda>rs. case those (map
          (\<lambda>r. case r of RArr [RInt n, RBulk m] \<Rightarrow> Some (n, m) | _ \<Rightarrow> None) rs) of
            None \<Rightarrow> Inl ResponseError | Some ps \<Rightarrow> Inr ps),
      claim_reply = (\<lambda>r. case r of RErr e \<Rightarrow> Inl (ServerError e) | _ \<Rightarrow> Inr (''0-0'', [])),
      read_reply = (\<lambda>r. case r of
          RNil \<Rightarrow> Inr []
        | RArr [RArr [RBulk k, RArr es]] \<Rightarrow>
            (case those (map dec_entry es) of None \<Rightarrow> Inl ResponseError | Some xs \<Rightarrow> Inr [(k, xs)])
        | RErr e \<Rightarrow> Inl (ServerError e) | _ \<Rightarrow> Inl ResponseError),
      string_reply = (\<lambda>r. case r of RStatus t \<Rightarrow> Inr t | RErr e \<Rightarrow> Inl (ServerError e) | _ \<Rightarrow> Inl ResponseError),
      count_reply = (\<lambda>r. case r of RInt n \<Rightarrow> Inr (word_of_int n) | RErr e \<Rightarrow> Inl (ServerError e) | _ \<Rightarrow> Inl ResponseError),
      error_code = (\<lambda>e. case e of ServerError t \<Rightarrow> Some (takeWhile (\<lambda>c. c \<noteq> CHR '' '') t) | _ \<Rightarrow> None),
      exp64 = exp_ref\<rparr>"

definition demo_config :: config where
  "demo_config = \<lparr>stream = ''payment_events'', result = ''risk_decisions'', group = ''risk-workers'',
     consumer = ''worker-1'', ttl = 86400, reclaim_ms = 5000, batch = 256\<rparr>"

definition demo_entry :: stream_entry where
  "demo_entry = (''1-0'', [(''event_id'', ''test''), (''payload'', ''{}'')])"

lemma demo_pipeline: "pipeline_ok demo_libs"
proof -
  have "those (map (\<lambda>r. case r of RArr [RInt n, RBulk m] \<Rightarrow> Some (n, m) | _ \<Rightarrow> None) (map pair_reply ps)) = Some ps"
    for ps by (induction ps) (auto simp: pair_reply_def)
  moreover have "RErr e \<in> set rs \<Longrightarrow>
      those (map (\<lambda>r. case r of RArr [RInt n, RBulk m] \<Rightarrow> Some (n, m) | _ \<Rightarrow> None) rs) = None" for rs e
    by (induction rs) (auto split: option.splits)
  ultimately show ?thesis by (simp add: pipeline_ok_def demo_libs_def)
qed

lemma demo_entry_event: "entry_event demo_libs demo_entry = Some sample_event"
  by (simp add: entry_event_def demo_libs_def demo_entry_def sample_event_valid)

lemma demo_apart: "streams_apart demo_config"
  by (simp add: streams_apart_def demo_config_def)

lemma demo_command: "entry_command demo_libs artifact demo_config demo_entry =
    Some ((demo_keys, [''risk-workers'', ''1-0'', ''test'', dec 86400, ''{decision}'']), False)"
  using entry_command_event [OF demo_entry_event, of artifact "''{decision}''" demo_config]
  by (simp add: demo_libs_def demo_config_def demo_entry_def demo_keys_def sample_event_def)

lemma demo_serviceable:
  "serviceable ''payment_events'' ''risk-workers'' {''risk_decisions'', ''risk_decisions:dead''}
     {''payment_events:completed:test''} demo_db"
  by (simp add: serviceable_def in_group_def demo_db_def stream_at_def empty_stream_def)

lemma demo_run:
  "\<exists>s'. process_batch demo_libs artifact demo_config mem (\<lambda>_. id) Answered [demo_entry] stats_default demo_db =
     (Done (Inr ()), stats_default\<lparr>decisions := 1\<rparr>, s') \<and> ''1-0'' \<notin> entry_ids s' ''payment_events''"
proof -
  let ?argv = "[''risk-workers'', ''1-0'', ''test'', dec 86400, ''{decision}'']"
  obtain s' where run: "finish mem demo_keys ?argv demo_db = (RArr [RInt 1, RBulk ''''], s')"
  proof
    have "fst (finish mem demo_keys ?argv demo_db) = RArr [RInt 1, RBulk '''']"
      by (simp add: run_script demo_keys_def demo_db_def ttl_ok_dec [unfolded ttl_ok_def] ttl_ok_def db_xadd_def
          db_xack_def db_xdel_def empty_stream_def mem_id_def Let_def)
    then show "finish mem demo_keys ?argv demo_db = (RArr [RInt 1, RBulk ''''], snd (finish mem demo_keys ?argv demo_db))"
      by (metis prod.collapse)
  qed
  then have ev: "run_eval mem (demo_keys, ?argv) demo_db = (RArr [RInt 1, RBulk ''''], s')"
    by (simp add: run_eval_def run_finish_def)
  have "process_batch demo_libs artifact demo_config mem (\<lambda>_. id) Answered [demo_entry] stats_default demo_db =
     (Done (Inr ()), stats_default\<lparr>decisions := 1\<rparr>, s')"
    by (simp add: process_batch_def demo_command run_pipeline_def ev Let_def)
      (simp add: demo_libs_def stats_default_def)
  moreover have "''1-0'' \<notin> entry_ids s' ''payment_events''"
    using finish_success(2) [OF mem_ok run] by (simp add: demo_keys_def)
  ultimately show ?thesis by blast
qed

text \<open>A second delivery of the same event, and an entry nobody can read.\<close>

definition demo_again :: stream_entry where
  "demo_again = (''2-0'', [(''event_id'', ''test''), (''payload'', ''{}'')])"

definition demo_garbage :: stream_entry where
  "demo_garbage = (''3-0'', [])"

lemma demo_commands:
  "entry_command demo_libs artifact demo_config demo_again =
    Some ((demo_keys, [''risk-workers'', ''2-0'', ''test'', dec 86400, ''{decision}'']), False)"
  "entry_command demo_libs artifact demo_config demo_garbage =
    Some (([''payment_events'', ''risk_decisions:dead'', ''payment_events:rejected:3-0''],
      [''risk-workers'', ''3-0'', ''3-0'', dec 86400, ''{rejected}'']), True)"
  by (simp_all add: entry_command_def entry_event_def demo_libs_def demo_again_def demo_garbage_def
      demo_config_def demo_keys_def sample_event_valid Let_def)
    (simp add: sample_event_def)

theorem marker_identifies_event_witness:
  "fst (demo_keys, [''risk-workers'', ''1-0'', ''test'', dec 86400, ''{decision}'']) ! 2 =
   fst (demo_keys, [''risk-workers'', ''2-0'', ''test'', dec 86400, ''{decision}'']) ! 2 \<longleftrightarrow>
     (case (entry_event demo_libs demo_entry, entry_event demo_libs demo_again) of
        (Some x, Some y) \<Rightarrow> event_id x = event_id y
      | (None, None) \<Rightarrow> fst demo_entry = fst demo_again
      | _ \<Rightarrow> False)"
  by (rule marker_identifies_event [OF demo_command demo_commands(1)])

abbreviation demo_batch :: "outcome \<times> stats \<times> db" where
  "demo_batch \<equiv>
     process_batch demo_libs artifact demo_config mem (\<lambda>_. id) Answered [demo_entry] stats_default demo_db"

lemma demo_batch_parts:
  obtains s' where "demo_batch = (Done (Inr ()), stats_default\<lparr>decisions := 1\<rparr>, s')" "snd (snd demo_batch) = s'"
    "''1-0'' \<notin> entry_ids s' ''payment_events''"
  using demo_run by auto

lemma demo_marker_keys: "marker_keys demo_libs artifact demo_config [demo_entry] = {''payment_events:completed:test''}"
  by (auto simp: marker_keys_def demo_command demo_keys_def)

theorem no_entry_lost_witness:
  "''1-0'' \<in> entry_ids demo_db ''payment_events'' \<and>
   (\<exists>entry \<in> set [demo_entry]. \<exists>c flag. fst entry = ''1-0'' \<and>
      entry_command demo_libs artifact demo_config entry = Some (c, flag) \<and>
      is_marked (snd (snd demo_batch)) (fst c ! 2))"
proof -
  obtain s' where s': "demo_batch = (Done (Inr ()), stats_default\<lparr>decisions := 1\<rparr>, s')" "snd (snd demo_batch) = s'"
    "''1-0'' \<notin> entry_ids s' ''payment_events''" by (rule demo_batch_parts)
  have stream: "stream demo_config = ''payment_events''" by (simp add: demo_config_def)
  have present: "''1-0'' \<in> entry_ids demo_db ''payment_events''" by (simp add: entry_ids_def demo_db_def)
  have "keeps_entry mem (stream demo_config) ''1-0'' (\<lambda>_. id)" by (simp add: keeps_entry_def)
  from no_entry_lost [OF mem_ok demo_apart this s'(1)] present s'(3)
  show ?thesis unfolding s'(2) by (simp add: stream)
qed

theorem batch_success_completes_witness:
  "\<exists>c flag. entry_command demo_libs artifact demo_config demo_entry = Some (c, flag) \<and>
     is_marked (snd (snd demo_batch)) (fst c ! 2) \<and>
     fst demo_entry \<notin> entry_ids (snd (snd demo_batch)) ''payment_events''"
proof -
  obtain s' where s': "demo_batch = (Done (Inr ()), stats_default\<lparr>decisions := 1\<rparr>, s')" "snd (snd demo_batch) = s'"
    by (rule demo_batch_parts)
  have stream: "stream demo_config = ''payment_events''" by (simp add: demo_config_def)
  have "keeps_progress mem (stream demo_config) (fst ` set [demo_entry]) (\<lambda>_. id)"
    by (simp add: keeps_progress_def)
  from batch_success_completes [OF mem_ok demo_pipeline demo_apart this s'(1), of demo_entry]
  show ?thesis unfolding s'(2) by (simp add: stream)
qed


lemma mem_runs_scripts: "runs_scripts mem"
  by (simp add: runs_scripts_def)

theorem batch_completes_witness:
  "\<exists>st' s'. process_batch demo_libs artifact demo_config mem (\<lambda>_. id) Answered [demo_entry] stats_default demo_db =
     (Done (Inr ()), st', s')"
proof (rule batch_completes [OF mem_ok mem_accepting mem_runs_scripts demo_pipeline])
  show "ttl_ok (dec (unat (ttl demo_config)))" by (simp add: demo_config_def ttl_ok_dec)
  show "\<forall>d. decision_to_json demo_libs d \<noteq> None" by (simp add: demo_libs_def)
  show "serviceable (stream demo_config) (group demo_config) {result demo_config, result demo_config @ '':dead''}
      (marker_keys demo_libs artifact demo_config [demo_entry]) (view mem demo_db)"
    using demo_serviceable by (simp add: demo_marker_keys) (simp add: demo_config_def)
qed

theorem oversized_lifetime_blocks_witness:
  "snd (snd (process_batch demo_libs artifact (demo_config\<lparr>ttl := 18446744073709551615\<rparr>) mem (\<lambda>_. id) Answered [demo_entry]
     stats_default demo_db)) = demo_db"
proof -
  let ?cfg = "demo_config\<lparr>ttl := 18446744073709551615\<rparr>"
  let ?env = "[''HOOKGUARD_IDEMPOTENCY_TTL_SECONDS'' \<mapsto> dec (unat (18446744073709551615 :: u64))]"
  have "positive ?env ''HOOKGUARD_IDEMPOTENCY_TTL_SECONDS'' 86400 = Inr (ttl ?cfg)"
    using positive_dec [of ?env "''HOOKGUARD_IDEMPOTENCY_TTL_SECONDS''" "18446744073709551615" 86400] by simp
  moreover have "2 ^ 63 \<le> unat (ttl ?cfg)" by simp
  moreover have "\<forall>k \<in> marker_keys demo_libs artifact ?cfg [demo_entry]. \<not> is_marked (view mem demo_db) k"
    using entry_command_event [OF demo_entry_event, of artifact "''{decision}''" ?cfg]
    by (auto simp: marker_keys_def demo_libs_def is_marked_def demo_db_def)
  ultimately show ?thesis
    using oversized_lifetime_blocks [OF mem_ok, of ?env ?cfg demo_libs artifact "[demo_entry]" demo_db Answered
        stats_default] by (metis mem_view prod.collapse)
qed

definition loop_config :: config where
  "loop_config = demo_config\<lparr>stream := ''risk_decisions:dead''\<rparr>"

definition loop_db :: db where
  "loop_db = [''risk_decisions:dead'' \<mapsto> VStream \<lparr>entries = [demo_garbage], used = {''3-0''},
     groups = [''risk-workers'' \<mapsto> \<lparr>delivered = {''3-0''}, pending = [''3-0'' \<mapsto> ''worker-1'']\<rparr>]\<rparr>]"

definition loop_call :: finish_call where
  "loop_call = ([''risk_decisions:dead'', ''risk_decisions:dead'', ''risk_decisions:dead:rejected:3-0''],
     [''risk-workers'', ''3-0'', ''3-0'', dec 86400, ''{rejected}''])"

lemma loop_command:
  "entry_event demo_libs demo_garbage = None"
  "entry_command demo_libs artifact loop_config demo_garbage = Some (loop_call, True)"
  by (simp_all add: entry_command_def entry_event_def demo_libs_def demo_garbage_def
      demo_config_def loop_config_def loop_call_def Let_def)


end
