(* ===== verification/Consumer.thy ===== *)
theory Consumer
  imports Progress
begin

text \<open>
  The consumer task of the worker (\<open>ensure_group\<close>, \<open>consume\<close> and \<open>reconnect\<close> of
  \<open>apps/risk-worker/src/main.rs\<close>): one cycle reclaims abandoned deliveries at most once a second, reads
  new entries and processes both; a failed cycle takes the worker out of rotation, replaces its
  connections after a transport error and ensures the group. What the task cannot control (clocks,
  connections, other clients) is an explicit input of every iteration.
\<close>

section \<open>Requests\<close>

text \<open>
  What becomes of a request on a connection: it is answered; it fails; nothing comes back and the
  deadline drops it. In the last two cases the server may have run it or not.
\<close>

datatype link = Up | Failing bool redis_error | Silent bool

datatype 'a answer = Got 'a | Error redis_error | Expired

definition request :: "'s server \<Rightarrow> link \<Rightarrow> ('s \<Rightarrow> 's) \<Rightarrow> string list \<Rightarrow> 's \<Rightarrow> reply answer \<times> 's" where
  "request R l env argv s =
     (let s0 = env s; (r, s1) = exec R argv s0 in
      case l of
        Up \<Rightarrow> (Got r, s1)
      | Failing hit e \<Rightarrow> (Error e, if hit then s1 else s0)
      | Silent hit \<Rightarrow> (Expired, if hit then s1 else s0))"

section \<open>The consumer group\<close>

definition ensure_group_inner :: "libs \<Rightarrow> config \<Rightarrow> reply answer \<Rightarrow> unit answer" where
  "ensure_group_inner L cfg a =
     (case a of
        Expired \<Rightarrow> Expired
      | Error e \<Rightarrow> if error_code L e = Some ''BUSYGROUP'' then Got () else Error e
      | Got r \<Rightarrow>
          (case string_reply L r of
             Inr _ \<Rightarrow> Got ()
           | Inl e \<Rightarrow> if error_code L e = Some ''BUSYGROUP'' then Got () else Error e))"

definition group_argv :: "config \<Rightarrow> string list" where
  "group_argv cfg = [''XGROUP'', ''CREATE'', stream cfg, group cfg, ''0'', ''MKSTREAM'']"

definition ensure_group ::
  "libs \<Rightarrow> config \<Rightarrow> 's server \<Rightarrow> link \<Rightarrow> ('s \<Rightarrow> 's) \<Rightarrow> 's \<Rightarrow> (redis_error + unit) \<times> 's" where
  "ensure_group L cfg R l env s =
     (case request R l env (group_argv cfg) s of
        (a, s') \<Rightarrow>
          (case ensure_group_inner L cfg a of
             Got u \<Rightarrow> (Inr u, s')
           | Error e \<Rightarrow> (Inl e, s')
           | Expired \<Rightarrow> (Inl IoError, s')))"

section \<open>One cycle\<close>

text \<open>Connections are numbered; what a connection does with a request is an input.\<close>

record 's inputs =
  check_time :: int
  claim_link :: "nat \<Rightarrow> link"
  claim_env :: "'s \<Rightarrow> 's"
  claim_fate :: "nat \<Rightarrow> fate"
  claim_envs :: "nat \<Rightarrow> 's \<Rightarrow> 's"
  claim_time :: int
  read_link :: "nat \<Rightarrow> link"
  read_env :: "'s \<Rightarrow> 's"
  read_fate :: "nat \<Rightarrow> nat \<Rightarrow> fate"
  read_envs :: "nat \<Rightarrow> nat \<Rightarrow> 's \<Rightarrow> 's"
  dials :: "((redis_error + nat) \<times> (redis_error + nat)) option"
  group_link :: "nat \<Rightarrow> link"
  group_env :: "'s \<Rightarrow> 's"

record worker =
  cursor :: string
  last_claim :: int
  reader :: nat
  writer :: nat
  wstats :: stats

definition claim_argv :: "config \<Rightarrow> string \<Rightarrow> string list" where
  "claim_argv cfg cur =
     [''XAUTOCLAIM'', stream cfg, group cfg, consumer cfg, dec (unat (reclaim_ms cfg)), cur,
      ''COUNT'', dec (unat (batch cfg))]"

definition read_argv :: "config \<Rightarrow> string list" where
  "read_argv cfg =
     [''XREADGROUP'', ''GROUP'', group cfg, consumer cfg, ''COUNT'', dec (unat (batch cfg)),
      ''BLOCK'', ''500'', ''STREAMS'', stream cfg, ''>'']"

definition claim_step ::
  "libs \<Rightarrow> model \<Rightarrow> config \<Rightarrow> 's server \<Rightarrow> 's inputs \<Rightarrow> worker \<Rightarrow> 's \<Rightarrow> outcome \<times> worker \<times> 's" where
  "claim_step L m cfg R inp w s =
     (case request R (claim_link inp (reader w)) (claim_env inp) (claim_argv cfg (cursor w)) s of
        (Error e, s1) \<Rightarrow> (Done (Inl e), w, s1)
      | (Expired, s1) \<Rightarrow> (TimedOut, w, s1)
      | (Got r, s1) \<Rightarrow>
          (case claim_reply L r of
             Inl e \<Rightarrow> (Done (Inl e), w, s1)
           | Inr (next, claimed) \<Rightarrow>
               (let st = (wstats w)\<lparr>reclaimed := reclaimed (wstats w) + of_nat (length claimed)\<rparr>;
                    (out, st', s2) = process_batch L m cfg R (claim_envs inp) (claim_fate inp (writer w)) claimed st s1
                in (out, w\<lparr>cursor := next, wstats := st',
                      last_claim := (if out = Done (Inr ()) then claim_time inp else last_claim w)\<rparr>, s2))))"

fun process_keys ::
  "libs \<Rightarrow> model \<Rightarrow> config \<Rightarrow> 's server \<Rightarrow> 's inputs \<Rightarrow> nat \<Rightarrow> (string \<times> stream_entry list) list \<Rightarrow>
   worker \<Rightarrow> 's \<Rightarrow> outcome \<times> worker \<times> 's" where
  "process_keys L m cfg R inp i [] w s = (Done (Inr ()), w, s)"
| "process_keys L m cfg R inp i (key # keys) w s =
     (case process_batch L m cfg R (read_envs inp i) (read_fate inp i (writer w)) (snd key) (wstats w) s of
        (out, st, s1) \<Rightarrow>
          if out = Done (Inr ()) then process_keys L m cfg R inp (Suc i) keys (w\<lparr>wstats := st\<rparr>) s1
          else (out, w\<lparr>wstats := st\<rparr>, s1))"

definition read_step ::
  "libs \<Rightarrow> model \<Rightarrow> config \<Rightarrow> 's server \<Rightarrow> 's inputs \<Rightarrow> worker \<Rightarrow> 's \<Rightarrow> outcome \<times> worker \<times> 's" where
  "read_step L m cfg R inp w s =
     (case request R (read_link inp (reader w)) (read_env inp) (read_argv cfg) s of
        (Error e, s1) \<Rightarrow> (Done (Inl e), w, s1)
      | (Expired, s1) \<Rightarrow> (TimedOut, w, s1)
      | (Got r, s1) \<Rightarrow>
          (case read_reply L r of
             Inl e \<Rightarrow> (Done (Inl e), w, s1)
           | Inr keys \<Rightarrow> process_keys L m cfg R inp 0 keys w s1))"

definition cycle ::
  "libs \<Rightarrow> model \<Rightarrow> config \<Rightarrow> 's server \<Rightarrow> 's inputs \<Rightarrow> worker \<Rightarrow> 's \<Rightarrow> outcome \<times> worker \<times> 's" where
  "cycle L m cfg R inp w s =
     (if 1000 \<le> check_time inp - last_claim w then
        (case claim_step L m cfg R inp w s of
           (out, w1, s1) \<Rightarrow>
             if out = Done (Inr ()) then read_step L m cfg R inp w1 s1 else (out, w1, s1))
      else read_step L m cfg R inp w s)"

section \<open>One iteration and the loop\<close>

definition transport_error :: "outcome \<Rightarrow> bool" where
  "transport_error out = (case out of TimedOut \<Rightarrow> True | Done (Inl e) \<Rightarrow> e = IoError | _ \<Rightarrow> False)"

text \<open>
  \<open>reconnect\<close> dials two connections and succeeds only with both; \<open>dials\<close> is \<open>None\<close> when that takes
  longer than five seconds.
\<close>

definition reconnect :: "redis_error + nat \<Rightarrow> redis_error + nat \<Rightarrow> redis_error + (nat \<times> nat)" where
  "reconnect new_reader new_writer =
     (case new_reader of
        Inl e \<Rightarrow> Inl e
      | Inr r \<Rightarrow> (case new_writer of Inl e \<Rightarrow> Inl e | Inr wr \<Rightarrow> Inr (r, wr)))"

definition fresh :: "'s inputs \<Rightarrow> (nat \<times> nat) option" where
  "fresh inp =
     (case dials inp of
        None \<Rightarrow> None
      | Some (a, b) \<Rightarrow> (case reconnect a b of Inl e \<Rightarrow> None | Inr links \<Rightarrow> Some links))"

text \<open>After a transport error both connections are replaced, if \<open>reconnect\<close> gets two new ones in time.\<close>

definition replace_links :: "outcome \<Rightarrow> (nat \<times> nat) option \<Rightarrow> worker \<Rightarrow> worker" where
  "replace_links out replacement w =
     (if transport_error out
      then (case replacement of
              Some (new_reader, new_writer) \<Rightarrow> w\<lparr>reader := new_reader, writer := new_writer\<rparr>
            | None \<Rightarrow> w)
      else w)"

text \<open>\<open>None\<close> is the end of the task by a panic.\<close>

definition iteration ::
  "libs \<Rightarrow> model \<Rightarrow> config \<Rightarrow> 's server \<Rightarrow> 's inputs \<Rightarrow> worker \<Rightarrow> 's \<Rightarrow> (worker \<times> 's) option" where
  "iteration L m cfg R inp w s =
     (case cycle L m cfg R inp w s of
        (Panicked, w1, s1) \<Rightarrow> None
      | (Done (Inr u), w1, s1) \<Rightarrow> Some (w1\<lparr>wstats := (wstats w1)\<lparr>ready_flag := True\<rparr>\<rparr>, s1)
      | (out, w1, s1) \<Rightarrow>
          (let st = wstats w1;
               w2 = w1\<lparr>wstats := st\<lparr>ready_flag := False, errors := errors st + 1\<rparr>\<rparr>;
               w3 = replace_links out (fresh inp) w2
           in Some (w3, snd (ensure_group L cfg R (group_link inp (writer w3)) (group_env inp) s1))))"

fun iterate ::
  "libs \<Rightarrow> model \<Rightarrow> config \<Rightarrow> 's server \<Rightarrow> 's inputs list \<Rightarrow> worker \<Rightarrow> 's \<Rightarrow> (worker \<times> 's) option" where
  "iterate L m cfg R [] w s = Some (w, s)"
| "iterate L m cfg R (inp # inps) w s =
     (case iteration L m cfg R inp w s of
        None \<Rightarrow> None
      | Some (w1, s1) \<Rightarrow> iterate L m cfg R inps w1 s1)"

text \<open>The task from its start at \<open>now\<close> (in milliseconds) until it sees the stop signal.\<close>

definition initial_worker :: "int \<Rightarrow> nat \<Rightarrow> nat \<Rightarrow> stats \<Rightarrow> worker" where
  "initial_worker now r wr st =
     \<lparr>cursor = ''0-0'', last_claim = now - 2000, reader = r, writer = wr, wstats = st\<rparr>"

definition consume ::
  "libs \<Rightarrow> model \<Rightarrow> config \<Rightarrow> 's server \<Rightarrow> 's inputs list \<Rightarrow> worker \<Rightarrow> 's \<Rightarrow> (worker \<times> 's) option" where
  "consume L m cfg R inps w s =
     (case iterate L m cfg R inps w s of
        None \<Rightarrow> None
      | Some (w1, s1) \<Rightarrow> Some (w1\<lparr>wstats := (wstats w1)\<lparr>ready_flag := False\<rparr>\<rparr>, s1))"

section \<open>Group commands on the data set\<close>

text \<open>
  The documented effect of \<open>XAUTOCLAIM\<close>, \<open>XREADGROUP\<close> and \<open>XGROUP CREATE ... MKSTREAM\<close>: they change the
  consumer groups of the input stream (which the last one creates), remove none of them, and touch no
  entry and no other key.
\<close>

definition delivery_ok :: "'s server \<Rightarrow> config \<Rightarrow> bool" where
  "delivery_ok R cfg \<longleftrightarrow>
     (\<forall>s argv. argv = read_argv cfg \<or> argv = group_argv cfg \<or> (\<exists>cur. argv = claim_argv cfg cur) \<longrightarrow>
        (\<forall>k. k \<noteq> stream cfg \<longrightarrow> view R (snd (exec R argv s)) k = view R s k) \<and>
        (case view R s (stream cfg) of
           Some (VStream st) \<Rightarrow>
             (\<exists>g. dom (groups st) \<subseteq> dom g \<and>
                view R (snd (exec R argv s)) (stream cfg) = Some (VStream (st\<lparr>groups := g\<rparr>)))
         | None \<Rightarrow>
             view R (snd (exec R argv s)) (stream cfg) = None \<or>
             (\<exists>g. view R (snd (exec R argv s)) (stream cfg) = Some (VStream (empty_stream\<lparr>groups := g\<rparr>)))
         | Some v \<Rightarrow> view R (snd (exec R argv s)) (stream cfg) = Some v))"

lemma delivery_keeps:
  assumes "delivery_ok R cfg" "argv = read_argv cfg \<or> argv = group_argv cfg \<or> (\<exists>cur. argv = claim_argv cfg cur)"
  shows "is_marked (view R (snd (exec R argv s))) q = is_marked (view R s) q"
    and "entry_ids (view R (snd (exec R argv s))) q = entry_ids (view R s) q"
proof -
  let ?d = "view R s" and ?d' = "view R (snd (exec R argv s))"
  have other: "q \<noteq> stream cfg \<Longrightarrow> ?d' q = ?d q"
    and here: "case ?d (stream cfg) of
           Some (VStream st) \<Rightarrow> (\<exists>g. dom (groups st) \<subseteq> dom g \<and> ?d' (stream cfg) = Some (VStream (st\<lparr>groups := g\<rparr>)))
         | None \<Rightarrow> ?d' (stream cfg) = None \<or> (\<exists>g. ?d' (stream cfg) = Some (VStream (empty_stream\<lparr>groups := g\<rparr>)))
         | Some v \<Rightarrow> ?d' (stream cfg) = Some v"
    using assms unfolding delivery_ok_def by blast+
  show "is_marked ?d' q = is_marked ?d q"
    by (cases "q = stream cfg") (use other here in \<open>auto simp: is_marked_def split: option.splits rval.splits\<close>)
  show "entry_ids ?d' q = entry_ids ?d q"
    by (cases "q = stream cfg")
      (use other here in \<open>auto simp: entry_ids_def empty_stream_def split: option.splits rval.splits\<close>)
qed

section \<open>No entry is lost by the consumer\<close>

text \<open>What other clients may do around the steps of an iteration.\<close>

definition gentle :: "'s server \<Rightarrow> string \<Rightarrow> string \<Rightarrow> ('s \<Rightarrow> 's) \<Rightarrow> bool" where
  "gentle R k i e \<longleftrightarrow>
     (\<forall>t. (\<forall>q. is_marked (view R t) q \<longrightarrow> is_marked (view R (e t)) q) \<and>
          (i \<in> entry_ids (view R t) k \<longrightarrow> i \<in> entry_ids (view R (e t)) k))"

definition inputs_keep :: "'s server \<Rightarrow> string \<Rightarrow> string \<Rightarrow> 's inputs \<Rightarrow> bool" where
  "inputs_keep R k i inp \<longleftrightarrow>
     gentle R k i (claim_env inp) \<and> keeps_entry R k i (claim_envs inp) \<and> gentle R k i (read_env inp) \<and>
     (\<forall>j. keeps_entry R k i (read_envs inp j)) \<and> gentle R k i (group_env inp)"

lemma request_accounted:
  assumes "delivery_ok R cfg" "argv = read_argv cfg \<or> argv = group_argv cfg \<or> (\<exists>cur. argv = claim_argv cfg cur)"
    and "gentle R (stream cfg) i e" "accounted L m cfg E i (view R s)" "request R l e argv s = (a, s')"
  shows "accounted L m cfg E i (view R s')"
proof -
  have "accounted L m cfg E i (view R (e s))"
    using accounted_keeps [OF assms(4)] assms(3) unfolding gentle_def by blast
  moreover from this have "accounted L m cfg E i (view R (snd (exec R argv (e s))))"
    using delivery_keeps [OF assms(1,2)] by (simp add: accounted_def)
  ultimately show ?thesis using assms(5)
    by (cases l) (auto simp: request_def Let_def case_prod_unfold split: if_splits)
qed

lemma process_keys_accounted:
  assumes "redis_ok R" "streams_apart cfg" "\<forall>j. keeps_entry R (stream cfg) i (read_envs inp j)"
    and "accounted L m cfg UNIV i (view R s)" "process_keys L m cfg R inp j keys w s = (out, w', s')"
  shows "accounted L m cfg UNIV i (view R s')"
  using assms(4,5)
proof (induction keys arbitrary: j w s)
  case (Cons key keys)
  obtain o1 st s1 where b: "process_batch L m cfg R (read_envs inp j) (read_fate inp j (writer w)) (snd key)
      (wstats w) s = (o1, st, s1)" by (metis prod_cases3)
  have "accounted L m cfg UNIV i (view R s1)"
    using process_batch_accounted [OF assms(1,2) _ b subset_UNIV Cons.prems(1)] assms(3) by blast
  with Cons.IH Cons.prems(2) b show ?case by (auto split: if_splits)
qed simp

lemma read_step_accounted:
  assumes "redis_ok R" "delivery_ok R cfg" "streams_apart cfg" "inputs_keep R (stream cfg) i inp"
    and "accounted L m cfg UNIV i (view R s)" "read_step L m cfg R inp w s = (out, w', s')"
  shows "accounted L m cfg UNIV i (view R s')"
proof -
  obtain a s1 where req: "request R (read_link inp (reader w)) (read_env inp) (read_argv cfg) s = (a, s1)"
    by fastforce
  have "accounted L m cfg UNIV i (view R s1)"
    using request_accounted [OF assms(2) _ _ assms(5) req] assms(4) by (simp add: inputs_keep_def)
  moreover have "\<forall>j. keeps_entry R (stream cfg) i (read_envs inp j)" using assms(4) by (simp add: inputs_keep_def)
  ultimately show ?thesis using assms(6) req process_keys_accounted [OF assms(1,3)]
    by (auto simp: read_step_def split: answer.splits sum.splits)
qed

lemma claim_step_accounted:
  assumes "redis_ok R" "delivery_ok R cfg" "streams_apart cfg" "inputs_keep R (stream cfg) i inp"
    and "accounted L m cfg UNIV i (view R s)" "claim_step L m cfg R inp w s = (out, w', s')"
  shows "accounted L m cfg UNIV i (view R s')"
proof -
  obtain a s1 where req: "request R (claim_link inp (reader w)) (claim_env inp) (claim_argv cfg (cursor w)) s = (a, s1)"
    by fastforce
  have "accounted L m cfg UNIV i (view R s1)"
    using request_accounted [OF assms(2) _ _ assms(5) req] assms(4) by (auto simp: inputs_keep_def)
  moreover have "keeps_entry R (stream cfg) i (claim_envs inp)" using assms(4) by (simp add: inputs_keep_def)
  ultimately show ?thesis using assms(6) req process_batch_accounted [OF assms(1,3) _ _ subset_UNIV]
    by (auto simp: claim_step_def Let_def split: answer.splits sum.splits prod.splits)
qed

lemma cycle_accounted:
  assumes "redis_ok R" "delivery_ok R cfg" "streams_apart cfg" "inputs_keep R (stream cfg) i inp"
    and "accounted L m cfg UNIV i (view R s)" "cycle L m cfg R inp w s = (out, w', s')"
  shows "accounted L m cfg UNIV i (view R s')"
proof (cases "1000 \<le> check_time inp - last_claim w")
  case True
  obtain o1 w1 s1 where claim: "claim_step L m cfg R inp w s = (o1, w1, s1)" by (metis prod_cases3)
  have s1: "accounted L m cfg UNIV i (view R s1)" by (rule claim_step_accounted [OF assms(1-5) claim])
  show ?thesis
    using True assms(6) claim s1 read_step_accounted [OF assms(1-4) s1]
    by (auto simp: cycle_def split: if_splits)
qed (use assms(6) read_step_accounted [OF assms(1-5)] in \<open>simp add: cycle_def\<close>)

lemma iteration_cases:
  assumes "iteration L m cfg R inp w s = Some (w', s')"
  obtains (success) w1 where "cycle L m cfg R inp w s = (Done (Inr ()), w1, s')"
      "w' = w1\<lparr>wstats := (wstats w1)\<lparr>ready_flag := True\<rparr>\<rparr>"
    | (failure) out w1 s1 a where "cycle L m cfg R inp w s = (out, w1, s1)" "out \<noteq> Done (Inr ())"
      "wstats w' = (wstats w1)\<lparr>ready_flag := False, errors := errors (wstats w1) + 1\<rparr>"
      "request R (group_link inp (writer w')) (group_env inp) (group_argv cfg) s1 = (a, s')"
      "\<forall>r wr. transport_error out \<longrightarrow> fresh inp = Some (r, wr) \<longrightarrow> reader w' = r \<and> writer w' = wr"
proof -
  obtain out w1 s1 where c: "cycle L m cfg R inp w s = (out, w1, s1)" by (metis prod_cases3)
  show thesis
  proof (cases "out = Done (Inr ())")
    case True
    with assms c success show thesis by (simp add: iteration_def)
  next
    case False
    have g: "snd (ensure_group L cfg R l e t) = snd (request R l e (group_argv cfg) t)" for l e t
      by (simp add: ensure_group_def case_prod_unfold split: answer.splits)
    have "out \<noteq> Panicked" using assms c by (auto simp: iteration_def)
    with False assms c have
      w': "w' = replace_links out (fresh inp)
             (w1\<lparr>wstats := (wstats w1)\<lparr>ready_flag := False, errors := errors (wstats w1) + 1\<rparr>\<rparr>)"
      and s': "s' = snd (ensure_group L cfg R (group_link inp (writer w')) (group_env inp) s1)"
      by (auto simp: iteration_def Let_def split: outcome.splits sum.splits)
    show thesis
    proof (rule failure [OF c False])
      show "wstats w' = (wstats w1)\<lparr>ready_flag := False, errors := errors (wstats w1) + 1\<rparr>"
        unfolding w' by (simp add: replace_links_def split: option.splits prod.splits)
      show "request R (group_link inp (writer w')) (group_env inp) (group_argv cfg) s1 =
          (fst (request R (group_link inp (writer w')) (group_env inp) (group_argv cfg) s1), s')"
        unfolding s' g by simp
      show "\<forall>r wr. transport_error out \<longrightarrow> fresh inp = Some (r, wr) \<longrightarrow> reader w' = r \<and> writer w' = wr"
        unfolding w' by (simp add: replace_links_def)
    qed
  qed
qed

lemma iteration_accounted:
  assumes "redis_ok R" "delivery_ok R cfg" "streams_apart cfg" "inputs_keep R (stream cfg) i inp"
    and "accounted L m cfg UNIV i (view R s)" "iteration L m cfg R inp w s = Some (w', s')"
  shows "accounted L m cfg UNIV i (view R s')"
proof (cases rule: iteration_cases [OF assms(6), case_names success failure])
  case (success w1)
  then show ?thesis using cycle_accounted [OF assms(1-5)] by blast
next
  case (failure out w1 s1 a)
  have "accounted L m cfg UNIV i (view R s1)" by (rule cycle_accounted [OF assms(1-5) failure(1)])
  from request_accounted [OF assms(2) _ _ this failure(4)] assms(4)
  show ?thesis by (simp add: inputs_keep_def)
qed

lemma iterate_accounted:
  assumes "redis_ok R" "delivery_ok R cfg" "streams_apart cfg"
    and "\<forall>inp \<in> set inps. inputs_keep R (stream cfg) i inp"
    and "iterate L m cfg R inps w s = Some (w', s')" "accounted L m cfg UNIV i (view R s)"
  shows "accounted L m cfg UNIV i (view R s')"
  using assms(4-6)
proof (induction inps arbitrary: w s)
  case (Cons inp inps)
  then obtain w2 s2 where step: "iteration L m cfg R inp w s = Some (w2, s2)"
    and rest: "iterate L m cfg R inps w2 s2 = Some (w', s')"
    by (auto split: option.splits)
  have "accounted L m cfg UNIV i (view R s2)"
    using iteration_accounted [OF assms(1-3) _ Cons.prems(3) step] Cons.prems(1) by simp
  with Cons.IH rest Cons.prems(1) show ?case by simp
qed simp

lemma consume_accounted:
  assumes "redis_ok R" "delivery_ok R cfg" "streams_apart cfg"
    and "\<forall>inp \<in> set inps. inputs_keep R (stream cfg) i inp"
    and "consume L m cfg R inps w s = Some (w', s')" "accounted L m cfg UNIV i (view R s)"
  shows "accounted L m cfg UNIV i (view R s')"
  using iterate_accounted [OF assms(1-4) _ assms(6)] assms(5) by (auto simp: consume_def split: option.splits)


section \<open>Readiness\<close>

lemma process_keys_health:
  "process_keys L m cfg R inp j keys w s = (out, w', s') \<Longrightarrow>
   ready_flag (wstats w') = ready_flag (wstats w) \<and> errors (wstats w') = errors (wstats w) \<and>
   reader w' = reader w \<and> writer w' = writer w"
proof (induction keys arbitrary: j w s)
  case (Cons key keys)
  obtain o1 st s1 where b: "process_batch L m cfg R (read_envs inp j) (read_fate inp j (writer w)) (snd key)
      (wstats w) s = (o1, st, s1)" by (metis prod_cases3)
  from Cons.IH Cons.prems b process_batch_keeps [OF b] show ?case by (fastforce split: if_splits)
qed simp

lemma read_step_health:
  "read_step L m cfg R inp w s = (out, w', s') \<Longrightarrow>
   ready_flag (wstats w') = ready_flag (wstats w) \<and> errors (wstats w') = errors (wstats w) \<and>
   reader w' = reader w \<and> writer w' = writer w"
  by (auto simp: read_step_def split: prod.splits answer.splits sum.splits dest: process_keys_health)

lemma claim_step_health:
  assumes "claim_step L m cfg R inp w s = (out, w', s')"
  shows "ready_flag (wstats w') = ready_flag (wstats w) \<and> errors (wstats w') = errors (wstats w) \<and>
   reader w' = reader w \<and> writer w' = writer w"
  using assms process_batch_keeps
  by (fastforce simp: claim_step_def Let_def split: prod.splits answer.splits sum.splits)

lemma cycle_health:
  assumes "cycle L m cfg R inp w s = (out, w', s')"
  shows "ready_flag (wstats w') = ready_flag (wstats w) \<and> errors (wstats w') = errors (wstats w) \<and>
   reader w' = reader w \<and> writer w' = writer w"
  using assms claim_step_health read_step_health
  by (fastforce simp: cycle_def split: prod.splits if_splits)

text \<open>
  C28. Readiness follows the consumer: after an iteration the worker is ready if and only if its cycle
  succeeded, and the error counter has grown by one if and only if it did not.
\<close>

theorem readiness_follows_cycle:
  assumes "iteration L m cfg R inp w s = Some (w', s')"
  shows "ready_flag (wstats w') = (fst (cycle L m cfg R inp w s) = Done (Inr ())) \<and>
     errors (wstats w') =
       errors (wstats w) + (if fst (cycle L m cfg R inp w s) = Done (Inr ()) then 0 else 1)"
proof (cases rule: iteration_cases [OF assms, case_names success failure])
  case (success w1)
  then show ?thesis using cycle_health [OF success(1)] by simp
next
  case (failure out w1 s1 a)
  then show ?thesis using cycle_health [OF failure(1)] by simp
qed

section \<open>Recovery\<close>

text \<open>
  An iteration on which nothing interferes: the given connections answer and no other client acts. The
  clocks and the other connections are arbitrary.
\<close>

definition healthy :: "nat \<Rightarrow> nat \<Rightarrow> 's inputs \<Rightarrow> bool" where
  "healthy r wr inp \<longleftrightarrow>
     claim_link inp r = Up \<and> claim_env inp = id \<and> claim_fate inp wr = Answered \<and> claim_envs inp = (\<lambda>_. id) \<and>
     read_link inp r = Up \<and> read_env inp = id \<and>
     (\<forall>i. read_fate inp i wr = Answered \<and> read_envs inp i = (\<lambda>_. id))"

text \<open>A server and a library that serve the worker: every command gets a reply the worker can read.\<close>

definition serving :: "libs \<Rightarrow> config \<Rightarrow> 's server \<Rightarrow> bool" where
  "serving L cfg R \<longleftrightarrow>
     redis_ok R \<and> delivery_ok R cfg \<and> accepting R \<and> runs_scripts R \<and> pipeline_ok L \<and>
     ttl_ok (dec (unat (ttl cfg))) \<and> (\<forall>d. decision_to_json L d \<noteq> None) \<and>
     (\<forall>s. in_group (view R s) (stream cfg) (group cfg) \<longrightarrow>
        (\<forall>cur. \<exists>x. claim_reply L (fst (exec R (claim_argv cfg cur) s)) = Inr x) \<and>
        (\<exists>x. read_reply L (fst (exec R (read_argv cfg) s)) = Inr x))"

text \<open>All keys that can be completion markers of this input stream.\<close>

definition all_markers :: "config \<Rightarrow> string set" where
  "all_markers cfg = {stream cfg @ CHR '':'' # t |t. True}"

abbreviation in_service :: "config \<Rightarrow> db \<Rightarrow> bool" where
  "in_service cfg \<equiv> serviceable (stream cfg) (group cfg) {result cfg, result cfg @ '':dead''} (all_markers cfg)"

lemma marker_keys_all: "marker_keys L m cfg es \<subseteq> all_markers cfg"
  using entry_command_shape(6) by (fastforce simp: marker_keys_def all_markers_def)

lemma delivery_serviceable:
  assumes "delivery_ok R cfg" "argv = read_argv cfg \<or> argv = group_argv cfg \<or> (\<exists>cur. argv = claim_argv cfg cur)"
    and "in_service cfg (view R s)"
  shows "in_service cfg (view R (snd (exec R argv s)))"
proof (rule serviceable_cong [OF assms(3)])
  let ?d = "view R s" and ?d' = "view R (snd (exec R argv s))"
  show "k \<noteq> stream cfg \<Longrightarrow> ?d' k = ?d k" for k using assms(1,2) unfolding delivery_ok_def by blast
  have "in_group ?d (stream cfg) (group cfg)" using assms(3) by (simp add: serviceable_def)
  moreover have "case ?d (stream cfg) of
           Some (VStream st) \<Rightarrow> (\<exists>g. dom (groups st) \<subseteq> dom g \<and> ?d' (stream cfg) = Some (VStream (st\<lparr>groups := g\<rparr>)))
         | None \<Rightarrow> ?d' (stream cfg) = None \<or> (\<exists>g. ?d' (stream cfg) = Some (VStream (empty_stream\<lparr>groups := g\<rparr>)))
         | Some v \<Rightarrow> ?d' (stream cfg) = Some v"
    using assms(1,2) unfolding delivery_ok_def by blast
  ultimately show "in_group ?d' (stream cfg) (group cfg)"
    by (auto simp: in_group_def split: option.splits rval.splits)
qed

lemma serving_batch:
  assumes "serving L cfg R" "in_service cfg (view R s)"
  obtains st' s' where "process_batch L m cfg R (\<lambda>_. id) Answered es st s = (Done (Inr ()), st', s')"
    "in_service cfg (view R s')"
  using batch_serves [of R L cfg "all_markers cfg" s m es st] assms marker_keys_all [of L m cfg es]
  by (auto simp: serving_def)

lemma serving_keys:
  assumes "serving L cfg R" "healthy r wr inp"
  shows "in_service cfg (view R s) \<Longrightarrow> writer w = wr \<Longrightarrow>
    \<exists>w' s'. process_keys L m cfg R inp j keys w s = (Done (Inr ()), w', s')"
proof (induction keys arbitrary: j w s)
  case (Cons key keys)
  obtain st s1 where "process_batch L m cfg R (\<lambda>_. id) Answered (snd key) (wstats w) s = (Done (Inr ()), st, s1)"
    and s1: "in_service cfg (view R s1)" by (rule serving_batch [OF assms(1) Cons.prems(1)])
  then have b: "process_batch L m cfg R (read_envs inp j) (read_fate inp j (writer w)) (snd key) (wstats w) s =
      (Done (Inr ()), st, s1)" using assms(2) Cons.prems(2) by (simp add: healthy_def)
  have "\<exists>w' s'. process_keys L m cfg R inp (Suc j) keys (w\<lparr>wstats := st\<rparr>) s1 = (Done (Inr ()), w', s')"
    using Cons.IH [OF s1] Cons.prems(2) by simp
  then show ?case by (simp add: b)
qed simp

lemma request_up: "request R Up id argv s = (Got (fst (exec R argv s)), snd (exec R argv s))"
  by (simp add: request_def Let_def case_prod_unfold)

lemma serving_replies:
  assumes "serving L cfg R" "in_service cfg (view R s)"
  obtains keys nxt claimed where "read_reply L (fst (exec R (read_argv cfg) s)) = Inr keys"
    "claim_reply L (fst (exec R (claim_argv cfg cur) s)) = Inr (nxt, claimed)"
proof -
  have "in_group (view R s) (stream cfg) (group cfg)" using assms(2) by (simp add: serviceable_def)
  then obtain keys x where "read_reply L (fst (exec R (read_argv cfg) s)) = Inr keys"
    "claim_reply L (fst (exec R (claim_argv cfg cur) s)) = Inr x"
    using assms(1) unfolding serving_def by blast
  then show thesis using that by (cases x) blast
qed

lemma serving_read:
  assumes "serving L cfg R" "healthy r wr inp" "in_service cfg (view R s)" "reader w = r" "writer w = wr"
  shows "\<exists>w' s'. read_step L m cfg R inp w s = (Done (Inr ()), w', s')"
proof -
  let ?x = "exec R (read_argv cfg) s"
  have "request R (read_link inp (reader w)) (read_env inp) (read_argv cfg) s = (Got (fst ?x), snd ?x)"
    using assms(2,4) by (simp add: healthy_def request_up)
  moreover obtain keys where "read_reply L (fst ?x) = Inr keys" using serving_replies [OF assms(1,3)] by metis
  moreover have "in_service cfg (view R (snd ?x))"
    using assms(1,3) by (intro delivery_serviceable) (auto simp: serving_def)
  ultimately show ?thesis using serving_keys [OF assms(1,2) _ assms(5)] by (simp add: read_step_def)
qed

lemma serving_claim:
  assumes "serving L cfg R" "healthy r wr inp" "in_service cfg (view R s)" "reader w = r" "writer w = wr"
  shows "\<exists>w' s'. claim_step L m cfg R inp w s = (Done (Inr ()), w', s') \<and> in_service cfg (view R s')"
proof -
  let ?x = "exec R (claim_argv cfg (cursor w)) s"
  have req: "request R (claim_link inp (reader w)) (claim_env inp) (claim_argv cfg (cursor w)) s = (Got (fst ?x), snd ?x)"
    using assms(2,4) by (simp add: healthy_def request_up)
  obtain nxt claimed where reply: "claim_reply L (fst ?x) = Inr (nxt, claimed)"
    using serving_replies [OF assms(1,3)] by metis
  have "in_service cfg (view R (snd ?x))"
    using assms(1,3) by (intro delivery_serviceable) (auto simp: serving_def)
  then obtain st' s' where "process_batch L m cfg R (\<lambda>_. id) Answered claimed
      ((wstats w)\<lparr>reclaimed := reclaimed (wstats w) + of_nat (length claimed)\<rparr>) (snd ?x) = (Done (Inr ()), st', s')"
    and s': "in_service cfg (view R s')" by (rule serving_batch [OF assms(1)])
  then have "process_batch L m cfg R (claim_envs inp) (claim_fate inp (writer w)) claimed
      ((wstats w)\<lparr>reclaimed := reclaimed (wstats w) + of_nat (length claimed)\<rparr>) (snd ?x) = (Done (Inr ()), st', s')"
    using assms(2,5) by (simp add: healthy_def)
  with s' show ?thesis by (simp add: claim_step_def req reply Let_def)
qed

lemma serving_cycle:
  assumes "serving L cfg R" "healthy r wr inp" "in_service cfg (view R s)" "reader w = r" "writer w = wr"
  shows "fst (cycle L m cfg R inp w s) = Done (Inr ())"
proof (cases "1000 \<le> check_time inp - last_claim w")
  case True
  obtain w1 s1 where claim: "claim_step L m cfg R inp w s = (Done (Inr ()), w1, s1)" "in_service cfg (view R s1)"
    using serving_claim [OF assms] by blast
  then have "reader w1 = r" "writer w1 = wr" using claim_step_health [OF claim(1)] assms(4,5) by auto
  then show ?thesis using True claim(1) serving_read [OF assms(1,2) claim(2), of w1 m] by (auto simp: cycle_def)
next
  case False
  then show ?thesis using serving_read [OF assms, of m] by (auto simp: cycle_def)
qed


section \<open>Concrete runs\<close>

lemma mem_delivery: "delivery_ok mem demo_config"
  unfolding delivery_ok_def
proof (intro allI impI)
  fix d :: db and argv
  assume "argv = read_argv demo_config \<or> argv = group_argv demo_config \<or> (\<exists>cur. argv = claim_argv demo_config cur)"
  then consider "snd (mem_exec argv d) = d"
    | "snd (mem_exec argv d) = snd (mem_group (stream demo_config) (group demo_config) d)"
    | "argv = read_argv demo_config" "snd (mem_exec argv d) = snd (mem_read (group demo_config) (consumer demo_config) (stream demo_config) d)"
    by (auto simp: read_argv_def group_argv_def claim_argv_def mem_exec_def)
  then show "(\<forall>k. k \<noteq> stream demo_config \<longrightarrow> view mem (snd (exec mem argv d)) k = view mem d k) \<and>
        (case view mem d (stream demo_config) of
           Some (VStream st) \<Rightarrow>
             (\<exists>g. dom (groups st) \<subseteq> dom g \<and>
                view mem (snd (exec mem argv d)) (stream demo_config) = Some (VStream (st\<lparr>groups := g\<rparr>)))
         | None \<Rightarrow>
             view mem (snd (exec mem argv d)) (stream demo_config) = None \<or>
             (\<exists>g. view mem (snd (exec mem argv d)) (stream demo_config) = Some (VStream (empty_stream\<lparr>groups := g\<rparr>)))
         | Some v \<Rightarrow> view mem (snd (exec mem argv d)) (stream demo_config) = Some v)"
  proof cases
    case 1
    then show ?thesis
      by (auto split: option.splits rval.splits intro!: exI [of _ "groups _"])
  next
    case 2
    show ?thesis
    proof (cases rule: mem_group_effect [of "stream demo_config" "group demo_config" d, case_names same changed])
      case (changed st gs)
      from 2 changed(3) have e: "snd (mem_exec argv d) = d(stream demo_config \<mapsto> VStream (st\<lparr>groups := gs\<rparr>))" by simp
      show ?thesis
      proof (cases "d (stream demo_config)")
        case None
        with changed(1) have "st = empty_stream" by (simp add: stream_at_def)
        with None e show ?thesis by auto
      next
        case (Some v)
        with changed(1) have "v = VStream st" by (cases v) (simp_all add: stream_at_def)
        with Some e changed(2) show ?thesis by auto
      qed
    next
      case same
      with 2 have "snd (mem_exec argv d) = d" by simp
      then show ?thesis by (auto split: option.splits rval.splits intro!: exI [of _ "groups _"])
    qed
  next
    case 3
    show ?thesis
    proof (cases "\<exists>st. d (stream demo_config) = Some (VStream st)")
      case True
      then obtain st where st: "d (stream demo_config) = Some (VStream st)" by blast
      obtain gs where "dom (groups st) \<subseteq> dom gs" "snd (mem_exec argv d) = d(stream demo_config \<mapsto> VStream (st\<lparr>groups := gs\<rparr>))"
        unfolding 3(2) by (rule mem_read_stream [where d = d, OF st])
      then show ?thesis using st by auto
    next
      case False
      then have "snd (mem_exec argv d) = d" unfolding 3(2) by (intro mem_read_none) blast
      with False show ?thesis by (auto split: option.splits rval.splits)
    qed
  qed
qed

definition quiet_inputs :: "link \<Rightarrow> fate \<Rightarrow> db inputs" where
  "quiet_inputs l f =
     \<lparr>check_time = 0, claim_link = (\<lambda>_. l), claim_env = id, claim_fate = (\<lambda>_. f), claim_envs = (\<lambda>_. id),
      claim_time = 0, read_link = (\<lambda>_. l), read_env = id, read_fate = (\<lambda>_ _. f), read_envs = (\<lambda>_ _. id),
      dials = Some (Inr 1, Inr 1), group_link = (\<lambda>_. l), group_env = id\<rparr>"

abbreviation demo_worker :: worker where
  "demo_worker \<equiv> initial_worker 0 0 0 stats_default"

theorem readiness_follows_cycle_witness:
  "\<exists>w' s'. iteration demo_libs artifact demo_config mem (quiet_inputs (Silent False) (Cut 0)) demo_worker demo_db =
     Some (w', s') \<and> \<not> ready_flag (wstats w') \<and> errors (wstats w') = 1"
proof -
  let ?inp = "quiet_inputs (Silent False) (Cut 0)"
  have c: "cycle demo_libs artifact demo_config mem ?inp demo_worker demo_db = (TimedOut, demo_worker, demo_db)"
    by (simp add: cycle_def claim_step_def request_def quiet_inputs_def initial_worker_def case_prod_unfold Let_def)
  then obtain w' s' where it: "iteration demo_libs artifact demo_config mem ?inp demo_worker demo_db = Some (w', s')"
    by (simp add: iteration_def Let_def)
  from readiness_follows_cycle [OF it] it c show ?thesis
    by (auto simp: initial_worker_def stats_default_def)
qed

lemma demo_serving: "serving demo_libs demo_config mem"
proof -
  have "in_group d ''payment_events'' ''risk-workers'' \<Longrightarrow>
      \<exists>x. claim_reply demo_libs (fst (mem_exec (claim_argv demo_config cur) d)) = Inr x" for d cur
    by (simp add: claim_argv_def mem_exec_def demo_config_def) (simp add: demo_libs_def)
  moreover have "in_group d ''payment_events'' ''risk-workers'' \<Longrightarrow>
      \<exists>x. read_reply demo_libs (fst (mem_exec (read_argv demo_config) d)) = Inr x" for d
  proof -
    have "those (map dec_entry (map enc_entry es)) = Some es" for es by (induction es) auto
    then show "in_group d ''payment_events'' ''risk-workers'' \<Longrightarrow>
      \<exists>x. read_reply demo_libs (fst (mem_exec (read_argv demo_config) d)) = Inr x"
      by (auto simp: read_argv_def mem_exec_def demo_config_def demo_libs_def mem_read_def in_group_def Let_def o_def
          split: option.splits rval.splits)
  qed
  moreover have "stream demo_config = ''payment_events''" "group demo_config = ''risk-workers''"
    by (simp_all add: demo_config_def)
  moreover have "ttl_ok (dec (unat (ttl demo_config)))" by (simp add: demo_config_def ttl_ok_dec)
  moreover have "\<forall>d. decision_to_json demo_libs d \<noteq> None" by (simp add: demo_libs_def)
  ultimately show ?thesis
    unfolding serving_def by (simp add: mem_ok mem_accepting mem_runs_scripts demo_pipeline mem_delivery)
qed

lemma demo_in_service: "in_service demo_config demo_db"
  by (auto simp: serviceable_def all_markers_def demo_config_def demo_db_def in_group_def stream_at_def
      empty_stream_def is_marked_def)


definition fresh_db :: db where
  "fresh_db = [''payment_events'' \<mapsto> VStream
     \<lparr>entries = [demo_entry], used = {''1-0''},
      groups = [''risk-workers'' \<mapsto> \<lparr>delivered = {}, pending = Map.empty\<rparr>]\<rparr>]"

lemma fresh_in_service: "in_service demo_config fresh_db"
  by (auto simp: serviceable_def all_markers_def demo_config_def fresh_db_def in_group_def stream_at_def
      empty_stream_def is_marked_def)

lemma fresh_claim: "mem_exec (claim_argv demo_config cur) fresh_db = (RArr [RBulk ''0-0'', RArr [], RArr []], fresh_db)"
  by (simp add: claim_argv_def mem_exec_def demo_config_def fresh_db_def in_group_def)

lemma fresh_read: "fst (mem_exec (read_argv demo_config) fresh_db) =
    RArr [RArr [RBulk ''payment_events'', RArr [enc_entry demo_entry]]]"
  by (simp add: read_argv_def mem_exec_def demo_config_def mem_read_def fresh_db_def Let_def)

text \<open>A batch with the one entry finishes it from every state of service.\<close>

lemma demo_single:
  assumes "in_service demo_config d"
  shows "\<exists>st' d'. process_batch demo_libs artifact demo_config mem (\<lambda>_. id) Answered [demo_entry] st d =
      (Done (Inr ()), st', d') \<and> ''1-0'' \<notin> entry_ids d' ''payment_events''"
proof -
  let ?argv = "[''risk-workers'', ''1-0'', ''test'', dec 86400, ''{decision}'']"
  have service: "serviceable (demo_keys ! 0) ''risk-workers'' {''risk_decisions'', ''risk_decisions:dead''}
      (all_markers demo_config) (view mem d)" "demo_keys ! 2 \<in> all_markers demo_config"
    using assms by (simp_all add: demo_config_def demo_keys_def all_markers_def)
  have "\<exists>n \<in> {0, 1}. fst (finish mem demo_keys ?argv d) = pair_reply (n, '''')"
    by (rule serviceable_finish(2) [OF mem_ok mem_accepting _ _ service(2,1)])
      (simp_all add: demo_keys_def ttl_ok_dec)
  then obtain n d' where run: "finish mem demo_keys ?argv d = (RArr [RInt n, RBulk ''''], d')" "0 \<le> n"
    by (metis (no_types, lifting) fst_conv snd_conv insertE pair_reply_def prod.collapse singletonD zero_le_one order_refl)
  then have ev: "run_eval mem (demo_keys, ?argv) d = (RArr [RInt n, RBulk ''''], d')"
    by (simp add: run_eval_def run_finish_def)
  have rep: "pipeline_reply demo_libs [RArr [RInt n, RBulk '''']] = Inr [(n, '''')]" by (simp add: demo_libs_def)
  have "\<exists>st'. process_batch demo_libs artifact demo_config mem (\<lambda>_. id) Answered [demo_entry] st d =
     (Done (Inr ()), st', d')"
    using run(2) by (simp add: process_batch_def demo_command run_pipeline_def ev rep Let_def)
  moreover have "''1-0'' \<notin> entry_ids d' ''payment_events''"
    using finish_success(2) [OF mem_ok run] by (simp add: demo_keys_def)
  ultimately show ?thesis by blast
qed

lemma fresh_run:
  "\<exists>w' s'. consume demo_libs artifact demo_config mem [quiet_inputs Up Answered] demo_worker fresh_db = Some (w', s') \<and>
     ''1-0'' \<notin> entry_ids s' ''payment_events''"
proof -
  let ?inp = "quiet_inputs Up Answered"
  have reply: "claim_reply demo_libs (RArr [RBulk ''0-0'', RArr [], RArr []]) = Inr (''0-0'', [])"
    by (simp add: demo_libs_def)
  have req: "request mem (claim_link ?inp (reader demo_worker)) (claim_env ?inp)
      (claim_argv demo_config (cursor demo_worker)) fresh_db = (Got (RArr [RBulk ''0-0'', RArr [], RArr []]), fresh_db)"
    by (simp add: quiet_inputs_def request_up fresh_claim)
  obtain w1 where claim: "claim_step demo_libs artifact demo_config mem ?inp demo_worker fresh_db =
      (Done (Inr ()), w1, fresh_db)"
    by (simp add: claim_step_def req reply process_batch_def Let_def)
  define d where "d = snd (mem_exec (read_argv demo_config) fresh_db)"
  have "in_service demo_config (view mem (snd (exec mem (read_argv demo_config) fresh_db)))"
    using fresh_in_service by (intro delivery_serviceable [OF mem_delivery]) simp_all
  then have "in_service demo_config d" by (simp add: d_def)
  then obtain st' d' where batch: "process_batch demo_libs artifact demo_config mem (\<lambda>_. id) Answered [demo_entry]
      (wstats w1) d = (Done (Inr ()), st', d')" "''1-0'' \<notin> entry_ids d' ''payment_events''"
    using demo_single by blast
  have "mem_exec (read_argv demo_config) fresh_db = (RArr [RArr [RBulk ''payment_events'', RArr [enc_entry demo_entry]]], d)"
    using fresh_read by (metis d_def prod.collapse)
  moreover have "read_reply demo_libs (RArr [RArr [RBulk ''payment_events'', RArr [enc_entry demo_entry]]]) =
      Inr [(''payment_events'', [demo_entry])]" by (simp add: demo_libs_def)
  ultimately have "\<exists>w2. read_step demo_libs artifact demo_config mem ?inp w1 fresh_db = (Done (Inr ()), w2, d')"
    using batch(1) by (simp add: read_step_def quiet_inputs_def request_up)
  then obtain w2 where "cycle demo_libs artifact demo_config mem ?inp demo_worker fresh_db = (Done (Inr ()), w2, d')"
    using claim by (auto simp: cycle_def initial_worker_def quiet_inputs_def)
  with batch(2) show ?thesis by (simp add: consume_def iteration_def)
qed


end
