(* ===== verification/Lines.thy ===== *)
theory Lines
  imports Prelude
begin

text \<open>
  Text as lines: \<open>str::lines\<close> of the Rust standard library, which the offline mode reads its dataset
  with, and the rendering of lines that \<open>metrics\<close> writes. Each undoes the other.
\<close>

definition newline :: char where
  "newline = CHR 0x0A"

definition carriage_return :: char where
  "carriage_return = CHR 0x0D"

text \<open>A terminated line loses its line feed and then one carriage return.\<close>

definition strip_cr :: "string \<Rightarrow> string" where
  "strip_cr l = (if l \<noteq> [] \<and> last l = carriage_return then butlast l else l)"

function lines :: "string \<Rightarrow> string list" where
  "lines s =
     (if s = [] then []
      else case dropWhile (\<lambda>c. c \<noteq> newline) s of
             [] \<Rightarrow> [s]
           | _ # rest \<Rightarrow> strip_cr (takeWhile (\<lambda>c. c \<noteq> newline) s) # lines rest)"
  by auto

termination
proof (relation "measure length")
  fix s rest :: string and c
  assume "dropWhile (\<lambda>c. c \<noteq> newline) s = c # rest"
  moreover have "length (dropWhile (\<lambda>c. c \<noteq> newline) s) \<le> length s" by (rule length_dropWhile_le)
  ultimately show "(rest, s) \<in> measure length" by simp
qed simp

declare lines.simps [simp del]

definition format_lines :: "string list \<Rightarrow> string" where
  "format_lines ls = concat (map (\<lambda>l. l @ [newline]) ls)"

lemma format_lines_simps [simp]:
  "format_lines [] = []" "format_lines (l # ls) = l @ newline # format_lines ls"
  "format_lines (ls @ ls') = format_lines ls @ format_lines ls'"
  by (simp_all add: format_lines_def)

lemma lines_Nil [simp]: "lines [] = []"
  by (simp add: lines.simps)

lemma lines_Cons:
  assumes "newline \<notin> set l"
  shows "lines (l @ newline # rest) = strip_cr l # lines rest"
proof -
  have "takeWhile (\<lambda>c. c \<noteq> newline) (l @ newline # rest) = l"
    "dropWhile (\<lambda>c. c \<noteq> newline) (l @ newline # rest) = newline # rest"
    using assms by (induction l) auto
  then show ?thesis by (subst lines.simps) simp
qed

text \<open>A line without line breaks.\<close>

definition plain :: "string \<Rightarrow> bool" where
  "plain l \<longleftrightarrow> newline \<notin> set l \<and> carriage_return \<notin> set l"

lemma plain_append [simp]: "plain (a @ b) \<longleftrightarrow> plain a \<and> plain b"
  and plain_Cons [simp]: "plain (c # b) \<longleftrightarrow> c \<noteq> newline \<and> c \<noteq> carriage_return \<and> plain b"
  and plain_Nil [simp]: "plain []"
  by (auto simp: plain_def)

lemma plain_dec [simp]: "plain (dec n)"
proof -
  have "digit_val newline = None" "digit_val carriage_return = None"
    by (simp_all add: digit_val_def newline_def carriage_return_def)
  then have "newline \<notin> set (dec n)" "carriage_return \<notin> set (dec n)" using dec_digits by metis+
  then show ?thesis by (simp add: plain_def)
qed

lemma strip_cr_plain: "plain l \<Longrightarrow> strip_cr l = l"
  by (auto simp: strip_cr_def plain_def dest: last_in_set)

lemma lines_format: "\<forall>l \<in> set ls. plain l \<Longrightarrow> lines (format_lines ls) = ls"
  by (induction ls) (auto simp: lines_Cons strip_cr_plain plain_def)

end
