(* ===== verification/Http.thy ===== *)
theory Http
  imports Consumer Lines
begin

text \<open>
  The HTTP side of the worker (\<open>ready\<close>, \<open>score_endpoint\<close>, \<open>metrics\<close> and the routes of
  \<open>apps/risk-worker/src/main.rs\<close>). The web framework (axum) is outside the repository: a handler is a
  function of the request it is called with, after the framework has parsed the body.
\<close>

section \<open>Status codes and routes\<close>

datatype status = OK | BAD_REQUEST | SERVICE_UNAVAILABLE

datatype endpoint = Healthz | Readyz | Metrics | Score

definition routes :: "((string \<times> string) \<times> endpoint) list" where
  "routes =
     [((''GET'', ''/healthz''), Healthz),
      ((''GET'', ''/readyz''), Readyz),
      ((''GET'', ''/metrics''), Metrics),
      ((''POST'', ''/score''), Score)]"

definition body_limit :: nat where
  "body_limit = 65536"

section \<open>Readiness\<close>

text \<open>\<open>PING\<close> on the writer, within 300 milliseconds.\<close>

definition ready :: "libs \<Rightarrow> 's server \<Rightarrow> link \<Rightarrow> ('s \<Rightarrow> 's) \<Rightarrow> stats \<Rightarrow> 's \<Rightarrow> status \<times> 's" where
  "ready L R l env st s =
     (case request R l env [''PING''] s of
        (ping, s') \<Rightarrow>
          (if ready_flag st \<and> (case ping of Got r \<Rightarrow> (case string_reply L r of Inr _ \<Rightarrow> True | Inl _ \<Rightarrow> False) | _ \<Rightarrow> False)
           then OK else SERVICE_UNAVAILABLE, s'))"

section \<open>Scoring on demand\<close>

definition score_endpoint :: "libs \<Rightarrow> model \<Rightarrow> payment_event \<Rightarrow> status + risk_decision" where
  "score_endpoint L m event = (if \<not> valid event then Inl BAD_REQUEST else Inr (score (exp64 L) m event))"

section \<open>Metrics\<close>

text \<open>Two lines for each metric: its type and its sample.\<close>

definition metric_lines :: "string \<Rightarrow> string \<Rightarrow> string \<Rightarrow> string list" where
  "metric_lines name kind value = [''# TYPE '' @ name @ '' '' @ kind, name @ '' '' @ value]"

definition metrics_body :: "stats \<Rightarrow> u64 option \<Rightarrow> string" where
  "metrics_body st queued =
     format_lines
       (metric_lines ''hookguard_worker_decisions_total'' ''counter'' (dec (unat (decisions st))) @
        metric_lines ''hookguard_worker_duplicates_total'' ''counter'' (dec (unat (duplicates st))) @
        metric_lines ''hookguard_worker_errors_total'' ''counter'' (dec (unat (errors st))) @
        metric_lines ''hookguard_worker_reclaimed_total'' ''counter'' (dec (unat (reclaimed st))) @
        metric_lines ''hookguard_worker_dead_letters_total'' ''counter'' (dec (unat (dead st))) @
        metric_lines ''hookguard_worker_ready'' ''gauge'' (dec (if ready_flag st then 1 else 0))) @
     (case queued of
        None \<Rightarrow> []
      | Some n \<Rightarrow> format_lines (metric_lines ''hookguard_queue_outstanding'' ''gauge'' (dec (unat n))))"

definition metrics ::
  "libs \<Rightarrow> config \<Rightarrow> 's server \<Rightarrow> link \<Rightarrow> ('s \<Rightarrow> 's) \<Rightarrow> stats \<Rightarrow> 's \<Rightarrow> (string \<times> string) \<times> 's" where
  "metrics L cfg R l env st s =
     (case request R l env [''XLEN'', stream cfg] s of
        (a, s') \<Rightarrow>
          ((''text/plain; version=0.0.4'',
            metrics_body st
              (case a of Got r \<Rightarrow> (case count_reply L r of Inr n \<Rightarrow> Some n | Inl e \<Rightarrow> None) | _ \<Rightarrow> None)), s'))"

section \<open>Readiness needs the consumer and Redis\<close>

text \<open>
  C29. The worker reports ready only if its last consumer cycle succeeded and Redis answers: after an
  iteration, \<open>/readyz\<close> is 200 exactly if that cycle succeeded and the \<open>PING\<close> was answered with a string;
  a broken or silent connection makes it 503.
\<close>

theorem ready_needs_cycle_and_redis:
  assumes "iteration L m cfg R inp w s = Some (w', s')"
  shows "fst (ready L R l env (wstats w') t) = OK \<longleftrightarrow>
     fst (cycle L m cfg R inp w s) = Done (Inr ()) \<and> l = Up \<and>
     (\<exists>text. string_reply L (fst (exec R [''PING''] (env t))) = Inr text)"
proof -
  have flag: "ready_flag (wstats w') \<longleftrightarrow> fst (cycle L m cfg R inp w s) = Done (Inr ())"
  proof (cases rule: iteration_cases [OF assms, case_names success failure])
    case (success w1)
    then show ?thesis by simp
  next
    case (failure out w1 s1 a)
    then show ?thesis by simp
  qed
  show ?thesis
    by (cases l; cases "string_reply L (fst (exec R [''PING''] (env t)))")
      (auto simp: ready_def request_def flag case_prod_unfold Let_def)
qed

theorem ready_needs_cycle_and_redis_witness:
  "\<exists>w' s'. iteration demo_libs artifact demo_config mem (quiet_inputs (Silent False) (Cut 0)) demo_worker demo_db =
     Some (w', s') \<and> fst (ready demo_libs mem Up id (wstats w') s') = SERVICE_UNAVAILABLE"
proof -
  let ?inp = "quiet_inputs (Silent False) (Cut 0)"
  have c: "cycle demo_libs artifact demo_config mem ?inp demo_worker demo_db = (TimedOut, demo_worker, demo_db)"
    by (simp add: cycle_def claim_step_def request_def quiet_inputs_def initial_worker_def case_prod_unfold Let_def)
  then obtain w' s' where it: "iteration demo_libs artifact demo_config mem ?inp demo_worker demo_db = Some (w', s')"
    by (simp add: iteration_def Let_def)
  from ready_needs_cycle_and_redis [OF it, of Up id s'] c
  have "fst (ready demo_libs mem Up id (wstats w') s') \<noteq> OK" by simp
  then have "fst (ready demo_libs mem Up id (wstats w') s') = SERVICE_UNAVAILABLE"
    by (simp add: ready_def case_prod_unfold split: if_splits)
  with it show ?thesis by blast
qed

section \<open>The endpoint and the consumer score alike\<close>

text \<open>
  C30. \<open>/score\<close> answers what the consumer would publish: for an entry whose payload is an event, the entry
  is routed to the result stream if and only if the endpoint accepts the event, and then the published
  text is the encoding of the endpoint's answer; otherwise it goes to the dead letters.
\<close>

theorem score_endpoint_agrees:
  assumes "entry_get L entry ''payload'' = Some p" "event_of_json L p = Some event"
    and "entry_command L m cfg entry = Some ((KEYS, ARGV), flag)"
  shows "case score_endpoint L m event of
           Inr decision \<Rightarrow> KEYS ! 1 = result cfg \<and> \<not> flag \<and> decision_to_json L decision = Some (ARGV ! 4)
         | Inl code \<Rightarrow> KEYS ! 1 = result cfg @ '':dead'' \<and> flag \<and> code = BAD_REQUEST"
proof -
  have ev: "entry_event L entry = (if valid event then Some event else None)"
    using assms(1,2) by (simp add: entry_event_def)
  show ?thesis
    by (cases rule: entry_command_cases [OF assms(3), case_names event rejected])
      (use ev in \<open>auto simp: score_endpoint_def split: if_splits\<close>)
qed

theorem score_endpoint_agrees_witness:
  "case score_endpoint demo_libs artifact sample_event of
     Inr decision \<Rightarrow> demo_keys ! 1 = ''risk_decisions'' \<and> decision_to_json demo_libs decision = Some ''{decision}''
   | Inl code \<Rightarrow> False"
proof -
  have "entry_get demo_libs demo_entry ''payload'' = Some ''{}''" "event_of_json demo_libs ''{}'' = Some sample_event"
    by (simp_all add: demo_libs_def demo_entry_def)
  from score_endpoint_agrees [OF this demo_command] show ?thesis
    by (simp add: score_endpoint_def sample_event_valid demo_config_def)
qed

section \<open>Scraping the metrics\<close>

text \<open>What a scraper reads: the value on the sample line of a metric.\<close>

definition scrape :: "string \<Rightarrow> string \<Rightarrow> nat option" where
  "scrape body name =
     (case find (\<lambda>l. take (Suc (length name)) l = name @ '' '') (lines body) of
        None \<Rightarrow> None
      | Some l \<Rightarrow> nat_of_digits 0 (drop (Suc (length name)) l))"

lemma plain_metric [simp]:
  "list_all plain (metric_lines name kind value) \<longleftrightarrow> plain name \<and> plain kind \<and> plain value"
  by (auto simp: metric_lines_def newline_def carriage_return_def)

text \<open>A metric name: not empty, no comment sign in front, no blanks and no line breaks.\<close>

definition metric_name :: "string \<Rightarrow> bool" where
  "metric_name n \<longleftrightarrow> n \<noteq> [] \<and> hd n \<noteq> CHR ''#'' \<and> CHR '' '' \<notin> set n \<and> plain n"

lemma name_prefix:
  assumes "CHR '' '' \<notin> set a" "CHR '' '' \<notin> set b" "take (Suc (length a)) (b @ CHR '' '' # v) = a @ '' ''"
  shows "a = b"
proof -
  have "b @ CHR '' '' # v = (a @ '' '') @ drop (Suc (length a)) (b @ CHR '' '' # v)"
    using assms(3) by (metis append_take_drop_id)
  moreover have "takeWhile (\<lambda>c. c \<noteq> CHR '' '') (x @ CHR '' '' # y) = x" if "CHR '' '' \<notin> set x" for x y
    using that by (induction x) auto
  ultimately show ?thesis using assms(1,2) by (metis append_Cons append_Nil append_assoc)
qed

lemma find_metric:
  assumes "metric_name name" "metric_name n"
  shows "find (\<lambda>l. take (Suc (length name)) l = name @ '' '') (metric_lines n kind v @ ls) =
     (if n = name then Some (name @ '' '' @ v)
      else find (\<lambda>l. take (Suc (length name)) l = name @ '' '') ls)"
proof -
  have "take (Suc (length name)) (''# TYPE '' @ n @ '' '' @ kind) \<noteq> name @ '' ''"
    using assms(1) by (cases name) (auto simp: metric_name_def)
  moreover have "take (Suc (length name)) (n @ '' '' @ v) = name @ '' '' \<longleftrightarrow> n = name"
    using assms name_prefix [of name n v] by (auto simp: metric_name_def)
  ultimately show ?thesis by (simp add: metric_lines_def)
qed

lemma scrape_metrics:
  assumes "metric_name name" "\<forall>(n, k, v) \<in> set ms. metric_name n \<and> plain k"
  shows "scrape (format_lines (concat (map (\<lambda>(n, k, v). metric_lines n k (dec v)) ms))) name =
     map_of (map (\<lambda>(n, k, v). (n, v)) ms) name"
proof -
  let ?ls = "concat (map (\<lambda>(n, k, v). metric_lines n k (dec v)) ms)"
  have "\<forall>l \<in> set ?ls. plain l"
    using assms(2) by (fastforce simp: metric_lines_def metric_name_def newline_def carriage_return_def)
  then have "lines (format_lines ?ls) = ?ls" by (rule lines_format)
  moreover have "(case find (\<lambda>l. take (Suc (length name)) l = name @ '' '') ?ls of
        None \<Rightarrow> None | Some l \<Rightarrow> nat_of_digits 0 (drop (Suc (length name)) l)) =
      map_of (map (\<lambda>(n, k, v). (n, v)) ms) name"
    using assms(2)
  proof (induction ms)
    case (Cons x ms)
    then show ?case
      by (cases x) (auto simp: find_metric [OF assms(1)])
  qed simp
  ultimately show ?thesis by (simp add: scrape_def)
qed

text \<open>
  C31. A scraper reads back exactly the counters the worker holds: the value on the sample line of each
  metric is the counter, at any value of its 64 bits, the readiness gauge is 1 or 0, and the queue
  length is there exactly when Redis answered.
\<close>

theorem metrics_read_back:
  "scrape (metrics_body st queued) ''hookguard_worker_decisions_total'' = Some (unat (decisions st)) \<and>
   scrape (metrics_body st queued) ''hookguard_worker_duplicates_total'' = Some (unat (duplicates st)) \<and>
   scrape (metrics_body st queued) ''hookguard_worker_errors_total'' = Some (unat (errors st)) \<and>
   scrape (metrics_body st queued) ''hookguard_worker_reclaimed_total'' = Some (unat (reclaimed st)) \<and>
   scrape (metrics_body st queued) ''hookguard_worker_dead_letters_total'' = Some (unat (dead st)) \<and>
   scrape (metrics_body st queued) ''hookguard_worker_ready'' = Some (if ready_flag st then 1 else 0) \<and>
   scrape (metrics_body st queued) ''hookguard_queue_outstanding'' = map_option unat queued"
proof -
  define ms where "ms =
    [(''hookguard_worker_decisions_total'', ''counter'', unat (decisions st)),
     (''hookguard_worker_duplicates_total'', ''counter'', unat (duplicates st)),
     (''hookguard_worker_errors_total'', ''counter'', unat (errors st)),
     (''hookguard_worker_reclaimed_total'', ''counter'', unat (reclaimed st)),
     (''hookguard_worker_dead_letters_total'', ''counter'', unat (dead st)),
     (''hookguard_worker_ready'', ''gauge'', if ready_flag st then 1 else 0)] @
    (case queued of None \<Rightarrow> [] | Some n \<Rightarrow> [(''hookguard_queue_outstanding'', ''gauge'', unat n)])"
  have body: "metrics_body st queued = format_lines (concat (map (\<lambda>(n, k, v). metric_lines n k (dec v)) ms))"
    by (cases queued) (simp_all add: metrics_body_def ms_def)
  have good: "\<forall>(n, k, v) \<in> set ms. metric_name n \<and> plain k"
    by (cases queued) (simp_all add: ms_def metric_name_def newline_def carriage_return_def)
  have name: "metric_name ''hookguard_worker_decisions_total''" "metric_name ''hookguard_worker_duplicates_total''"
    "metric_name ''hookguard_worker_errors_total''" "metric_name ''hookguard_worker_reclaimed_total''"
    "metric_name ''hookguard_worker_dead_letters_total''" "metric_name ''hookguard_worker_ready''"
    "metric_name ''hookguard_queue_outstanding''"
    by (simp_all add: metric_name_def newline_def carriage_return_def)
  show ?thesis
    unfolding body scrape_metrics [OF name(1) good] scrape_metrics [OF name(2) good] scrape_metrics [OF name(3) good]
      scrape_metrics [OF name(4) good] scrape_metrics [OF name(5) good] scrape_metrics [OF name(6) good]
      scrape_metrics [OF name(7) good]
    by (cases queued) (simp_all add: ms_def)
qed

end
