(* ===== verification/Offline.thy ===== *)
theory Offline
  imports Progress Lines
begin

text \<open>
  The offline mode of the worker (\<open>offline\<close> of \<open>apps/risk-worker/src/main.rs\<close>): predictions for a
  dataset of labelled events, one JSON object per line, and a latency benchmark of the scoring function.
  The JSON values are those of \<open>serde_json\<close>, an abstract type \<open>'v\<close>; the file system and the clock are
  arguments.
\<close>

section \<open>Reading the dataset\<close>

record 'v json =
  value_of :: "string \<Rightarrow> 'v option"
  without_label :: "'v \<Rightarrow> 'v option"
  event_of_value :: "'v \<Rightarrow> payment_event option"

datatype offline_error = Text string | Io | Json | BadInt

fun read_events :: "'v json \<Rightarrow> string list \<Rightarrow> offline_error + payment_event list" where
  "read_events J [] = Inr []"
| "read_events J (line # rest) =
     (case value_of J line of
        None \<Rightarrow> Inl Json
      | Some v \<Rightarrow>
      case without_label J v of
        None \<Rightarrow> Inl (Text ''object required'')
      | Some v' \<Rightarrow>
      case event_of_value J v' of
        None \<Rightarrow> Inl Json
      | Some event \<Rightarrow>
          if \<not> valid event then Inl (Text ''invalid dataset event'')
          else (case read_events J rest of Inl e \<Rightarrow> Inl e | Inr events \<Rightarrow> Inr (event # events)))"

section \<open>Predictions\<close>

text \<open>The lines printed, and how the run ends.\<close>

fun predict :: "libs \<Rightarrow> model \<Rightarrow> payment_event list \<Rightarrow> string list \<times> (offline_error + unit)" where
  "predict L m [] = ([], Inr ())"
| "predict L m (e # events) =
     (case decision_to_json L (score (exp64 L) m e) of
        None \<Rightarrow> ([], Inl Json)
      | Some line \<Rightarrow> (case predict L m events of (out, end_state) \<Rightarrow> (line # out, end_state)))"

section \<open>The benchmark\<close>

record summary =
  samples :: u64
  elapsed_seconds :: f64
  scores_per_second :: f64
  p50_ns :: u64
  p99_ns :: u64
  max_ns :: u64
  version :: string

text \<open>
  \<open>clock i\<close> is the reading of the \<open>i\<close>-th sample in nanoseconds and \<open>elapsed\<close> the elapsed seconds. The
  arithmetic on \<open>usize\<close> wraps, as in a release build.
\<close>

definition scored :: "payment_event list \<Rightarrow> u64 \<Rightarrow> payment_event list" where
  "scored events count = map (\<lambda>i. events ! (i mod length events)) [0..<unat count]"

definition summarize :: "model \<Rightarrow> u64 \<Rightarrow> u64 list \<Rightarrow> f64 \<Rightarrow> summary" where
  "summarize m count ts elapsed =
     \<lparr>samples = count, elapsed_seconds = elapsed,
      scores_per_second = f_div (f64_of_int (uint count)) elapsed,
      p50_ns = ts ! unat (count div 2),
      p99_ns = ts ! unat (min ((count * 99) div 100) (count - 1)),
      max_ns = ts ! unat (count - 1),
      version = model_version m\<rparr>"

datatype offline_outcome = Printed "string list" "offline_error + unit" | Summary summary | Aborted

text \<open>
  \<open>Vec::with_capacity\<close> panics when the samples exceed \<open>isize::MAX\<close> bytes, and aborts when the
  allocator has no room for them (\<open>room\<close>).
\<close>

definition benchmark ::
  "model \<Rightarrow> (u64 \<Rightarrow> bool) \<Rightarrow> (nat \<Rightarrow> u64) \<Rightarrow> f64 \<Rightarrow> payment_event list \<Rightarrow> string option \<Rightarrow> offline_outcome" where
  "benchmark m room clock elapsed events arg =
     (case (case arg of None \<Rightarrow> Some 1000000 | Some t \<Rightarrow> parse_u64 t) of
        None \<Rightarrow> Printed [] (Inl BadInt)
      | Some count \<Rightarrow>
          if count = 0 then Printed [] (Inl (Text ''count must be positive''))
          else if 2 ^ 63 \<le> 8 * unat count \<or> \<not> room count then Aborted
          else Summary (summarize m count (sort (map clock [0..<unat count])) elapsed))"

section \<open>The whole mode\<close>

definition nth_arg :: "string list \<Rightarrow> nat \<Rightarrow> string option" where
  "nth_arg args i = (if i < length args then Some (args ! i) else None)"

definition offline ::
  "libs \<Rightarrow> 'v json \<Rightarrow> model \<Rightarrow> (string \<Rightarrow> string option) \<Rightarrow> (u64 \<Rightarrow> bool) \<Rightarrow> (nat \<Rightarrow> u64) \<Rightarrow> f64 \<Rightarrow>
   string list \<Rightarrow> offline_outcome" where
  "offline L J m files room clock elapsed args =
     (case nth_arg args 2 of
        None \<Rightarrow> Printed [] (Inl (Text ''dataset path required''))
      | Some path \<Rightarrow>
      case files path of
        None \<Rightarrow> Printed [] (Inl Io)
      | Some text \<Rightarrow>
      case read_events J (lines text) of
        Inl e \<Rightarrow> Printed [] (Inl e)
      | Inr events \<Rightarrow>
          if events = [] then Printed [] (Inl (Text ''empty dataset''))
          else if nth_arg args 1 = Some ''--predict-jsonl'' then
            (case predict L m events of (out, end_state) \<Rightarrow> Printed out end_state)
          else benchmark m room clock elapsed events (nth_arg args 3))"

section \<open>Predictions are the served decisions\<close>

text \<open>The event a line of the dataset holds, if it is a usable one.\<close>

definition line_event :: "'v json \<Rightarrow> string \<Rightarrow> payment_event option" where
  "line_event J line =
     (case value_of J line of None \<Rightarrow> None
      | Some v \<Rightarrow> (case without_label J v of None \<Rightarrow> None
      | Some v' \<Rightarrow> (case event_of_value J v' of None \<Rightarrow> None
      | Some e \<Rightarrow> if valid e then Some e else None)))"

lemma read_events_Cons:
  obtains (bad) e where "line_event J l = None" "read_events J (l # ls) = Inl e"
    | (good) ev where "line_event J l = Some ev"
      "read_events J (l # ls) = (case read_events J ls of Inl e \<Rightarrow> Inl e | Inr es \<Rightarrow> Inr (ev # es))"
proof (cases "line_event J l")
  case None
  then have "\<exists>e. read_events J (l # ls) = Inl e" by (auto simp: line_event_def split: option.splits if_splits)
  with None bad show thesis by blast
next
  case (Some ev)
  then have "read_events J (l # ls) = (case read_events J ls of Inl e \<Rightarrow> Inl e | Inr es \<Rightarrow> Inr (ev # es))"
    by (auto simp: line_event_def split: option.splits if_splits)
  with Some good show thesis by blast
qed

lemma read_events_Inr: "read_events J ls = Inr events \<Longrightarrow> map (line_event J) ls = map Some events"
proof (induction ls arbitrary: events)
  case (Cons l ls)
  show ?case
  proof (cases rule: read_events_Cons [where J = J and l = l and ls = ls, case_names bad good])
    case (good ev)
    with Cons show ?thesis by (cases "read_events J ls") auto
  qed (use Cons.prems in simp)
qed simp

lemma predict_Inr:
  "predict L m events = (out, Inr ()) \<Longrightarrow>
   map Some out = map (\<lambda>e. decision_to_json L (score (exp64 L) m e)) events"
  by (induction events arbitrary: out) (auto split: option.splits prod.splits)

text \<open>
  C32. The offline predictions are the decisions the worker would serve: a run that succeeds prints exactly
  one line for each line of the dataset, in order, and each is the encoded decision of that line's event,
  scored by the same function.
\<close>

theorem predictions_match_serving:
  assumes "offline L J m files room clock elapsed args = Printed out (Inr ())"
    and "nth_arg args 1 = Some ''--predict-jsonl''" "nth_arg args 2 = Some path" "files path = Some text"
  shows "length out = length (lines text) \<and> out \<noteq> [] \<and>
     (\<forall>i < length out. \<exists>event. line_event J (lines text ! i) = Some event \<and>
        decision_to_json L (score (exp64 L) m event) = Some (out ! i))"
proof -
  obtain events where ev: "read_events J (lines text) = Inr events" "events \<noteq> []"
    and p: "predict L m events = (out, Inr ())"
    using assms by (auto simp: offline_def split: sum.splits if_splits prod.splits)
  from ev(1) have le: "map (line_event J) (lines text) = map Some events" by (simp add: read_events_Inr)
  from predict_Inr [OF p] have out: "map Some out = map (\<lambda>e. decision_to_json L (score (exp64 L) m e)) events" .
  have len: "length out = length events" "length (lines text) = length events"
    using arg_cong [OF out, of length] arg_cong [OF le, of length] by simp_all
  have "line_event J (lines text ! i) = Some (events ! i)"
    "decision_to_json L (score (exp64 L) m (events ! i)) = Some (out ! i)" if "i < length out" for i
    using that len arg_cong [OF le, of "\<lambda>xs. xs ! i"] arg_cong [OF out, of "\<lambda>xs. xs ! i"] by simp_all
  with len ev(2) show ?thesis by auto
qed

text \<open>
  The dataset is accepted or rejected as a whole: if any line does not hold a valid event, the run
  prints nothing and ends in an error, in both modes.
\<close>

theorem offline_rejects_whole:
  assumes "nth_arg args 2 = Some path" "files path = Some text"
    and "line \<in> set (lines text)" "line_event J line = None"
  shows "\<exists>e. offline L J m files room clock elapsed args = Printed [] (Inl e)"
proof (cases "read_events J (lines text)")
  case (Inl e)
  with assms(1,2) show ?thesis by (simp add: offline_def)
next
  case (Inr events)
  have "line_event J line \<in> Some ` set events"
    using arg_cong [OF read_events_Inr [OF Inr], of set] assms(3) by (metis imageI list.set_map)
  with assms(4) show ?thesis by auto
qed

section \<open>The percentiles\<close>

lemma sorted_rank: "sorted xs \<Longrightarrow> k < length xs \<Longrightarrow> Suc k \<le> length (filter (\<lambda>x. x \<le> xs ! k) xs)"
proof -
  assume s: "sorted xs" "k < length xs"
  have "filter (\<lambda>x. x \<le> xs ! k) (take (Suc k) xs) = take (Suc k) xs"
    using s by (auto simp: filter_id_conv in_set_conv_nth less_Suc_eq_le intro!: sorted_nth_mono)
  then have "length (filter (\<lambda>x. x \<le> xs ! k) (take (Suc k) xs)) = Suc k" using s(2) by simp
  moreover have "filter (\<lambda>x. x \<le> xs ! k) xs =
      filter (\<lambda>x. x \<le> xs ! k) (take (Suc k) xs) @ filter (\<lambda>x. x \<le> xs ! k) (drop (Suc k) xs)"
    by (metis append_take_drop_id filter_append)
  ultimately show ?thesis by simp
qed

lemma sorted_bounds: "sorted xs \<Longrightarrow> i \<le> k \<Longrightarrow> k < length xs \<Longrightarrow> xs ! i \<le> xs ! k"
  by (rule sorted_nth_mono)

text \<open>The indices of the percentiles on 64 bits, for a count that is not zero.\<close>

lemma half_index: "unat (count div 2) = unat (count :: u64) div 2"
  by (simp add: unat_div_distrib)

lemma last_index: "count \<noteq> 0 \<Longrightarrow> unat (count - 1) = unat (count :: u64) - 1"
  by (metis unat_minus_one)

lemma p99_index:
  assumes "count \<noteq> (0 :: u64)"
  shows "unat (min ((count * 99) div 100) (count - 1)) < unat count"
    and "unat count * 99 < 2 ^ 64 \<Longrightarrow>
         unat (min ((count * 99) div 100) (count - 1)) = min (unat count * 99 div 100) (unat count - 1)"
proof -
  have pos: "0 < unat count" using assms by (simp add: unat_gt_0)
  have "unat (min ((count * 99) div 100) (count - 1)) \<le> unat (count - 1)"
    by (simp add: min_def word_le_nat_alt)
  then show "unat (min ((count * 99) div 100) (count - 1)) < unat count"
    using pos last_index [OF assms] by simp
  assume "unat count * 99 < 2 ^ 64"
  then have "unat (count * 99) = unat count * 99"
    by (simp add: unat_mult_lem [of count 99, THEN iffD1])
  then have "unat ((count * 99) div 100) = unat count * 99 div 100" by (simp add: unat_div_distrib)
  then show "unat (min ((count * 99) div 100) (count - 1)) = min (unat count * 99 div 100) (unat count - 1)"
    using last_index [OF assms] by (simp add: min_def word_le_nat_alt)
qed

text \<open>The sorted samples: their members, their order, and how many samples a position dominates.\<close>

lemma samples_mem: "i < n \<Longrightarrow> sort (map clock [0..<n]) ! i \<in> clock ` {..<n}"
proof -
  assume "i < n"
  then have "sort (map clock [0..<n]) ! i \<in> set (sort (map clock [0..<n]))" by (intro nth_mem) simp
  then show ?thesis by (simp add: atLeast0LessThan)
qed

lemma samples_mono: "i \<le> j \<Longrightarrow> j < n \<Longrightarrow> sort (map clock [0..<n]) ! i \<le> sort (map clock [0..<n]) ! j"
  by (intro sorted_bounds) simp_all

lemma samples_top: "i < n \<Longrightarrow> clock i \<le> sort (map clock [0..<n]) ! (n - 1)"
proof -
  assume i: "i < n"
  then have "clock i \<in> set (sort (map clock [0..<n]))" by simp
  then obtain j where "j < n" "sort (map clock [0..<n]) ! j = clock i"
    by (metis in_set_conv_nth length_map length_sort length_upt minus_nat.diff_0)
  then show ?thesis using samples_mono [of j "n - 1" n clock] i by simp
qed

lemma samples_rank: "i < n \<Longrightarrow> Suc i \<le> card {j. j < n \<and> clock j \<le> sort (map clock [0..<n]) ! i}"
proof -
  assume "i < n"
  let ?v = "sort (map clock [0..<n]) ! i"
  have "Suc i \<le> length (filter (\<lambda>x. x \<le> ?v) (sort (map clock [0..<n])))"
    using \<open>i < n\<close> by (intro sorted_rank) simp_all
  also have "\<dots> = length (filter (\<lambda>x. x \<le> ?v) (map clock [0..<n]))" by (simp add: filter_sort)
  also have "\<dots> = card {j. j < n \<and> clock j \<le> ?v}"
    by (simp add: filter_map o_def length_filter_conv_card cong: conj_cong)
  finally show ?thesis .
qed

lemma benchmark_summary:
  assumes "benchmark m room clock elapsed events arg = Summary r"
  obtains count where "count \<noteq> 0" "r = summarize m count (sort (map clock [0..<unat count])) elapsed"
proof -
  obtain count where c: "(case arg of None \<Rightarrow> Some 1000000 | Some t \<Rightarrow> parse_u64 t) = Some count"
    using assms unfolding benchmark_def
    by (cases "case arg of None \<Rightarrow> Some 1000000 | Some t \<Rightarrow> parse_u64 t") (simp_all only: option.case offline_outcome.distinct)
  with assms show thesis using that unfolding benchmark_def c by (auto split: if_splits)
qed

text \<open>
  C33. The benchmark's figures are what they say, whatever the clock: every index is in range for every
  count that is accepted, even where \<open>count * 99\<close> wraps; \<open>max_ns\<close> is the largest sample; more than half
  of the samples are at most \<open>p50_ns\<close>; and while \<open>count * 99\<close> fits 64 bits, at least 99 in 100 samples
  are at most \<open>p99_ns\<close> and the three figures are in order.
\<close>

theorem benchmark_percentiles:
  assumes "benchmark m room clock elapsed events arg = Summary r"
  shows "0 < unat (samples r) \<and>
     {p50_ns r, p99_ns r, max_ns r} \<subseteq> clock ` {..<unat (samples r)} \<and>
     (\<forall>i < unat (samples r). clock i \<le> max_ns r) \<and>
     unat (samples r) < 2 * card {i. i < unat (samples r) \<and> clock i \<le> p50_ns r} \<and>
     (unat (samples r) * 99 < 2 ^ 64 \<longrightarrow>
        99 * unat (samples r) \<le> 100 * card {i. i < unat (samples r) \<and> clock i \<le> p99_ns r} \<and>
        p50_ns r \<le> p99_ns r \<and> p99_ns r \<le> max_ns r)"
proof -
  obtain count where count: "count \<noteq> 0"
    and r: "r = summarize m count (sort (map clock [0..<unat count])) elapsed" by (rule benchmark_summary [OF assms])
  let ?n = "unat count" and ?ts = "sort (map clock [0..<unat count])"
  let ?k50 = "unat (count div 2)" and ?k99 = "unat (min ((count * 99) div 100) (count - 1))"
    and ?kmax = "unat (count - 1)"
  have n: "0 < ?n" using count by (simp add: unat_gt_0)
  have k: "?k50 < ?n" "?k99 < ?n" "?kmax < ?n" "?kmax = ?n - 1"
    using n p99_index(1) [OF count] last_index [OF count] by (simp_all add: half_index)
  have sel: "samples r = count" "p50_ns r = ?ts ! ?k50" "p99_ns r = ?ts ! ?k99" "max_ns r = ?ts ! ?kmax"
    by (simp_all add: r summarize_def)
  have top: "clock i \<le> ?ts ! ?kmax" if "i < ?n" for i using samples_top [OF that, of clock] by (simp add: k(4))
  have "?n < 2 * card {j. j < ?n \<and> clock j \<le> ?ts ! ?k50}"
    using samples_rank [OF k(1), of clock] by (simp add: half_index)
  moreover have "99 * ?n \<le> 100 * card {j. j < ?n \<and> clock j \<le> ?ts ! ?k99} \<and>
      ?ts ! ?k50 \<le> ?ts ! ?k99 \<and> ?ts ! ?k99 \<le> ?ts ! ?kmax" if fits: "?n * 99 < 2 ^ 64"
  proof (intro conjI)
    have k99: "?k99 = min (?n * 99 div 100) (?n - 1)" by (rule p99_index(2) [OF count fits])
    then have "99 * ?n \<le> 100 * Suc ?k99" by (simp add: min_def) linarith
    also have "\<dots> \<le> 100 * card {j. j < ?n \<and> clock j \<le> ?ts ! ?k99}"
      using samples_rank [OF k(2), of clock] by (rule mult_le_mono2)
    finally show "99 * ?n \<le> 100 * card {j. j < ?n \<and> clock j \<le> ?ts ! ?k99}" .
    have "?k50 \<le> ?k99" unfolding k99 half_index using n by linarith
    then show "?ts ! ?k50 \<le> ?ts ! ?k99" using samples_mono k(2) by blast
    have "?k99 \<le> ?kmax" using k(2,4) by linarith
    then show "?ts ! ?k99 \<le> ?ts ! ?kmax" using samples_mono k(3) by blast
  qed
  ultimately show ?thesis
    unfolding sel using n samples_mem [of _ ?n clock] k(1-3) top by blast
qed

theorem benchmark_percentiles_witness:
  "\<exists>r. benchmark artifact (\<lambda>_. True) of_nat (Fin 1) [sample_event] (Some ''7'') = Summary r \<and>
     samples r = 7 \<and> p50_ns r \<le> p99_ns r \<and> p99_ns r \<le> max_ns r"
proof -
  have "parse_u64 ''7'' = Some 7" by (simp add: parse_u64_def strip_plus_def digit_val_def)
  then obtain r where r: "benchmark artifact (\<lambda>_. True) of_nat (Fin 1) [sample_event] (Some ''7'') = Summary r"
    "samples r = 7" by (simp add: benchmark_def summarize_def)
  from benchmark_percentiles [OF r(1)] r show ?thesis by simp
qed

definition demo_json :: "string json" where
  "demo_json = \<lparr>value_of = (\<lambda>l. if l = ''garbage'' then None else Some l), without_label = Some,
     event_of_value = (\<lambda>v. if v = ''{}'' then Some sample_event else None)\<rparr>"

definition demo_files :: "string \<Rightarrow> string option" where
  "demo_files path =
     (if path = ''good'' then Some (format_lines [''{}'', ''{}''])
      else if path = ''bad'' then Some (format_lines [''{}'', ''garbage'']) else None)"

lemma demo_lines: "lines (format_lines [''{}'', ''{}'']) = [''{}'', ''{}'']"
  "lines (format_lines [''{}'', ''garbage'']) = [''{}'', ''garbage'']"
  by (rule lines_format, simp add: newline_def carriage_return_def)+

theorem predictions_match_serving_witness:
  "offline demo_libs demo_json artifact demo_files (\<lambda>_. True) of_nat (Fin 1)
     [''worker'', ''--predict-jsonl'', ''good''] = Printed [''{decision}'', ''{decision}''] (Inr ()) \<and>
   (\<exists>event. line_event demo_json (lines (format_lines [''{}'', ''{}'']) ! 1) = Some event \<and>
      decision_to_json demo_libs (score (exp64 demo_libs) artifact event) = Some ''{decision}'')"
proof -
  have run: "offline demo_libs demo_json artifact demo_files (\<lambda>_. True) of_nat (Fin 1)
     [''worker'', ''--predict-jsonl'', ''good''] = Printed [''{decision}'', ''{decision}''] (Inr ())"
    unfolding offline_def nth_arg_def demo_files_def
    by (simp add: demo_lines del: format_lines_simps) (simp add: demo_json_def demo_libs_def sample_event_valid)
  have "nth_arg [''worker'', ''--predict-jsonl'', ''good''] 1 = Some ''--predict-jsonl''"
    "nth_arg [''worker'', ''--predict-jsonl'', ''good''] 2 = Some ''good''"
    "demo_files ''good'' = Some (format_lines [''{}'', ''{}''])"
    by (simp_all add: nth_arg_def demo_files_def)
  note all = predictions_match_serving [OF run this, THEN conjunct2, THEN conjunct2, rule_format]
  have "\<exists>event.
      line_event demo_json (lines (format_lines [''{}'', ''{}'']) ! 1) = Some event \<and>
      decision_to_json demo_libs (score (exp64 demo_libs) artifact event) = Some ([''{decision}'', ''{decision}''] ! 1)"
    by (rule all) simp
  with run show ?thesis by simp
qed

theorem offline_rejects_whole_witness:
  "\<exists>e. offline demo_libs demo_json artifact demo_files (\<lambda>_. True) of_nat (Fin 1)
     [''worker'', ''--predict-jsonl'', ''bad''] = Printed [] (Inl e)"
proof (rule offline_rejects_whole)
  show "nth_arg [''worker'', ''--predict-jsonl'', ''bad''] 2 = Some ''bad''"
    "demo_files ''bad'' = Some (format_lines [''{}'', ''garbage''])"
    by (simp_all add: nth_arg_def demo_files_def)
  show "''garbage'' \<in> set (lines (format_lines [''{}'', ''garbage'']))" by (simp add: demo_lines del: format_lines_simps)
  show "line_event demo_json ''garbage'' = None" by (simp add: line_event_def demo_json_def)
qed

end
