(* ===== verification/Startup.thy ===== *)
theory Startup
  imports Http Offline
begin

text \<open>
  The life of the worker process (\<open>main\<close> of \<open>apps/risk-worker/src/main.rs\<close>): the offline modes, the
  start of the service step by step, and the serving phase, in which the consumer task runs until the
  shutdown signal.
\<close>

section \<open>Starting the service\<close>

text \<open>What the process finds outside: the Redis client library, the network and the listener.\<close>

record 's boot =
  url_ok :: "string \<Rightarrow> bool"
  dial_writer :: "redis_error + nat"
  dial_reader :: "redis_error + nat"
  boot_link :: link
  boot_env :: "'s \<Rightarrow> 's"
  bind_ok :: "string \<Rightarrow> bool"
  boot_time :: int

datatype main_error = Startup startup_error | Url | Redis redis_error

datatype 's started = Running model config worker 's | Refused main_error | Crashed

definition redis_url :: "environment \<Rightarrow> string" where
  "redis_url env = ''redis://'' @ setting env ''HOOKGUARD_REDIS_ADDR'' ''redis:6379'' @ ''/''"

text \<open>\<open>parsed\<close> is the embedded model artifact as \<open>serde_json\<close> reads it.\<close>

definition start ::
  "libs \<Rightarrow> model option \<Rightarrow> environment \<Rightarrow> u32 \<Rightarrow> 's server \<Rightarrow> 's boot \<Rightarrow> 's \<Rightarrow> 's started" where
  "start L parsed env pid R b s =
     (case parameters parsed of
        None \<Rightarrow> Crashed
      | Some m \<Rightarrow>
      case load_config env pid of
        Inl e \<Rightarrow> Refused (Startup e)
      | Inr cfg \<Rightarrow>
          if \<not> url_ok b (redis_url env) then Refused Url
          else
      case dial_writer b of
        Inl e \<Rightarrow> Refused (Redis e)
      | Inr wr \<Rightarrow>
      case dial_reader b of
        Inl e \<Rightarrow> Refused (Redis e)
      | Inr r \<Rightarrow>
      case ensure_group L cfg R (boot_link b) (boot_env b) s of
        (Inl e, s') \<Rightarrow> Refused (Redis e)
      | (Inr u, s') \<Rightarrow> Running m cfg (initial_worker (boot_time b) r wr stats_default) s')"

section \<open>The process\<close>

text \<open>
  The task that the runtime abandons at one of its waits: in the cycle, where it stops as if the cycle's
  deadline had passed (the outcome \<open>TimedOut\<close> of the inputs), or after a failed one, while the group
  request is on its way (its link is then silent) or during the pause.
\<close>

definition abandoned ::
  "libs \<Rightarrow> model \<Rightarrow> config \<Rightarrow> 's server \<Rightarrow> 's inputs \<Rightarrow> worker \<Rightarrow> 's \<Rightarrow> 's option" where
  "abandoned L m cfg R inp w s =
     (case cycle L m cfg R inp w s of
        (TimedOut, w1, s1) \<Rightarrow> Some s1
      | _ \<Rightarrow> map_option snd (iteration L m cfg R inp w s))"

text \<open>
  The life of the task: the iterations \<open>inps\<close> up to the shutdown signal, and perhaps a last one that is
  not finished five seconds after it, when \<open>main\<close> returns. \<open>None\<close> is the end by a panic, which \<open>main\<close>
  ignores.
\<close>

definition life ::
  "libs \<Rightarrow> model \<Rightarrow> config \<Rightarrow> 's server \<Rightarrow> 's inputs list \<Rightarrow> 's inputs option \<Rightarrow> worker \<Rightarrow> 's \<Rightarrow> 's option" where
  "life L m cfg R inps final w s =
     (case final of
        None \<Rightarrow> map_option snd (consume L m cfg R inps w s)
      | Some inp \<Rightarrow>
          (case iterate L m cfg R inps w s of
             None \<Rightarrow> None
           | Some (w1, s1) \<Rightarrow> abandoned L m cfg R inp w1 s1))"

text \<open>
  The listener is bound after the consumer has been spawned; when that fails the process ends, and the
  task is abandoned wherever it is.
\<close>

datatype 's exit = Offline offline_outcome | Failed main_error | Panic | BindFailed "'s option" | Served "'s option"

definition main ::
  "libs \<Rightarrow> 'v json \<Rightarrow> (string \<Rightarrow> string option) \<Rightarrow> (u64 \<Rightarrow> bool) \<Rightarrow> (nat \<Rightarrow> u64) \<Rightarrow> f64 \<Rightarrow>
   model \<Rightarrow> model option \<Rightarrow> string list \<Rightarrow> environment \<Rightarrow> u32 \<Rightarrow> 's server \<Rightarrow> 's boot \<Rightarrow> 's inputs list \<Rightarrow>
   's inputs option \<Rightarrow> 's \<Rightarrow> 's exit" where
  "main L J files room clock elapsed m0 parsed args env pid R b inps final s =
     (if nth_arg args 1 = Some ''--benchmark'' \<or> nth_arg args 1 = Some ''--predict-jsonl''
      then Offline (offline L J m0 files room clock elapsed args)
      else case start L parsed env pid R b s of
        Crashed \<Rightarrow> Panic
      | Refused e \<Rightarrow> Failed e
      | Running m cfg w s1 \<Rightarrow>
          if \<not> bind_ok b (setting env ''HOOKGUARD_WORKER_HTTP_ADDR'' ''0.0.0.0:8081'')
          then BindFailed (life L m cfg R inps final w s1)
          else Served (life L m cfg R inps final w s1))"

section \<open>What a started service can rely on\<close>

text \<open>
  The documented replies of \<open>XGROUP CREATE\<close>: a status when it made the group, and an error with the code
  \<open>BUSYGROUP\<close> when there is one; in both cases the group exists.
\<close>

definition group_ok :: "libs \<Rightarrow> 's server \<Rightarrow> config \<Rightarrow> bool" where
  "group_ok L R cfg \<longleftrightarrow>
     (\<forall>s. (case string_reply L (fst (exec R (group_argv cfg) s)) of
             Inr t \<Rightarrow> True | Inl e \<Rightarrow> error_code L e = Some ''BUSYGROUP'') \<longrightarrow>
          in_group (view R (snd (exec R (group_argv cfg) s))) (stream cfg) (group cfg))"

text \<open>A connection does not make up an error of the server.\<close>

definition honest :: "libs \<Rightarrow> link \<Rightarrow> bool" where
  "honest L l \<longleftrightarrow> (\<forall>hit e. l = Failing hit e \<longrightarrow> error_code L e \<noteq> Some ''BUSYGROUP'')"

lemma ensure_group_exists:
  assumes "group_ok L R cfg" "honest L l" "ensure_group L cfg R l e s = (Inr u, s')"
  shows "l = Up" "in_group (view R s') (stream cfg) (group cfg)"
proof -
  obtain a where req: "request R l e (group_argv cfg) s = (a, s')" and "ensure_group_inner L cfg a = Got u"
    using assms(3) by (auto simp: ensure_group_def split: prod.splits answer.splits)
  then obtain r where "l = Up" "a = Got r" "r = fst (exec R (group_argv cfg) (e s))" "s' = snd (exec R (group_argv cfg) (e s))"
    and ok: "case string_reply L r of Inr t \<Rightarrow> True | Inl x \<Rightarrow> error_code L x = Some ''BUSYGROUP''"
    using assms(2)
    by (cases l) (auto simp: request_def ensure_group_inner_def honest_def case_prod_unfold Let_def
        split: sum.splits if_splits)
  then show "l = Up" "in_group (view R s') (stream cfg) (group cfg)"
    using assms(1) unfolding group_ok_def by blast+
qed

text \<open>
  C34. A service that comes up is fit to run: the configuration is usable, the model has passed its
  checks, the consumer group exists on the input stream, and the worker starts out not ready, with
  empty counters, the cursor at the beginning and the first reclaim due at once.
\<close>

theorem start_establishes_service:
  assumes "start L parsed env pid R b s = Running m cfg w s'"
    and "group_ok L R cfg" "honest L (boot_link b)"
  shows "load_config env pid = Inr cfg \<and> parameters parsed = Some m \<and>
     in_group (view R s') (stream cfg) (group cfg) \<and>
     wstats w = stats_default \<and> \<not> ready_flag (wstats w) \<and> cursor w = ''0-0'' \<and>
     1000 \<le> boot_time b - last_claim w"
proof -
  obtain r wr u where "parameters parsed = Some m" "load_config env pid = Inr cfg"
    and g: "ensure_group L cfg R (boot_link b) (boot_env b) s = (Inr u, s')"
    and "w = initial_worker (boot_time b) r wr stats_default"
    using assms(1) by (auto simp: start_def split: option.splits sum.splits if_splits prod.splits)
  then show ?thesis
    using ensure_group_exists(2) [OF assms(2,3) g] by (simp add: initial_worker_def stats_default_def)
qed

lemma life_accounted:
  assumes "redis_ok R" "delivery_ok R cfg" "streams_apart cfg"
    and "\<forall>inp \<in> set inps \<union> set_option final. inputs_keep R (stream cfg) i inp"
    and "life L m cfg R inps final w s = Some s'" "accounted L m cfg UNIV i (view R s)"
  shows "accounted L m cfg UNIV i (view R s')"
proof (cases final)
  case None
  then show ?thesis using assms consume_accounted [OF assms(1-3)] by (force simp: life_def)
next
  case (Some inp)
  then obtain w1 s1 where it: "iterate L m cfg R inps w s = Some (w1, s1)" and ab: "abandoned L m cfg R inp w1 s1 = Some s'"
    using assms(5) by (auto simp: life_def split: option.splits)
  have s1: "accounted L m cfg UNIV i (view R s1)" using iterate_accounted [OF assms(1-3) _ it assms(6)] assms(4) by simp
  have keep: "inputs_keep R (stream cfg) i inp" using assms(4) Some by simp
  obtain out w2 s2 where cyc: "cycle L m cfg R inp w1 s1 = (out, w2, s2)" by (metis prod_cases3)
  show ?thesis
  proof (cases "out = TimedOut")
    case True
    then show ?thesis using ab cycle_accounted [OF assms(1-3) keep s1 cyc] by (simp add: abandoned_def cyc)
  next
    case False
    then obtain w3 where "iteration L m cfg R inp w1 s1 = Some (w3, s')"
      using ab by (cases out) (auto simp: abandoned_def cyc)
    then show ?thesis by (rule iteration_accounted [OF assms(1-3) keep s1])
  qed
qed


section \<open>A start on the reference server\<close>

definition demo_boot :: "db boot" where
  "demo_boot = \<lparr>url_ok = (\<lambda>_. True), dial_writer = Inr 0, dial_reader = Inr 0, boot_link = Up, boot_env = id,
     bind_ok = (\<lambda>_. True), boot_time = 0\<rparr>"

lemma mem_group_ok: "group_ok demo_libs mem cfg"
proof -
  have "in_group (snd (mem_group k g d)) k g"
    if "fst (mem_group k g d) \<noteq> RErr wrongtype" for k g d
    using that by (auto simp: mem_group_def in_group_def stream_at_def empty_stream_def split: option.splits rval.splits)
  moreover have "error_code demo_libs (ServerError wrongtype) \<noteq> Some ''BUSYGROUP''"
    by (simp add: demo_libs_def wrongtype_def)
  moreover have "string_reply demo_libs (RErr wrongtype) = Inl (ServerError wrongtype)" by (simp add: demo_libs_def)
  moreover have "mem_exec (group_argv cfg) d = mem_group (stream cfg) (group cfg) d" for d
    by (simp add: mem_exec_def group_argv_def)
  ultimately show ?thesis unfolding group_ok_def by (auto split: sum.splits) (metis sum.inject(1) sum.distinct(1))+
qed

lemma default_config:
  obtains cfg where "load_config Map.empty 7 = Inr cfg" "stream cfg = ''payment_events''"
    "result cfg = ''risk_decisions''" "group cfg = ''risk-workers''"
  by (simp add: load_config_def positive_default Let_def)

lemma demo_start:
  obtains cfg w s' where "start demo_libs (Some artifact) Map.empty 7 mem demo_boot Map.empty = Running artifact cfg w s'"
    "load_config Map.empty 7 = Inr cfg" "stream cfg = ''payment_events''" "group cfg = ''risk-workers''"
proof -
  obtain cfg where cfg: "load_config Map.empty 7 = Inr cfg" "stream cfg = ''payment_events''"
    "result cfg = ''risk_decisions''" "group cfg = ''risk-workers''" by (rule default_config)
  have "fst (ensure_group demo_libs cfg mem Up id Map.empty) = Inr ()"
    by (simp add: ensure_group_def request_up group_argv_def mem_exec_def mem_group_def stream_at_def empty_stream_def
        ensure_group_inner_def) (simp add: demo_libs_def)
  then obtain s' where "ensure_group demo_libs cfg mem Up id Map.empty = (Inr (), s')" by (metis prod.collapse)
  then have "start demo_libs (Some artifact) Map.empty 7 mem demo_boot Map.empty =
      Running artifact cfg (initial_worker 0 0 0 stats_default) s'"
    by (simp add: start_def artifact_accepted cfg(1) demo_boot_def)
  then show thesis using that cfg by blast
qed

theorem start_establishes_service_witness:
  "\<exists>cfg w s'. start demo_libs (Some artifact) Map.empty 7 mem demo_boot Map.empty = Running artifact cfg w s' \<and>
     in_group s' ''payment_events'' ''risk-workers'' \<and> \<not> ready_flag (wstats w)"
proof -
  obtain cfg w s' where st: "start demo_libs (Some artifact) Map.empty 7 mem demo_boot Map.empty = Running artifact cfg w s'"
    and n: "stream cfg = ''payment_events''" "group cfg = ''risk-workers''" by (rule demo_start)
  have "honest demo_libs (boot_link demo_boot)" by (simp add: honest_def demo_boot_def)
  from start_establishes_service [OF st mem_group_ok this] st n show ?thesis by auto
qed

definition demo_env :: environment where
  "demo_env = [''HOOKGUARD_WORKER_CONSUMER'' \<mapsto> ''worker-1'']"

lemma demo_env_config: "load_config demo_env pid = Inr demo_config"
  by (simp add: load_config_def positive_default demo_env_def setting_def demo_config_def Let_def min_def
      word_le_nat_alt)

lemma fresh_start: "start demo_libs (Some artifact) demo_env 7 mem demo_boot fresh_db =
    Running artifact demo_config demo_worker fresh_db"
proof -
  have "mem_exec (group_argv demo_config) fresh_db =
      (RErr ''BUSYGROUP Consumer Group name already exists'', fresh_db)"
    by (simp add: group_argv_def mem_exec_def mem_group_def stream_at_def fresh_db_def demo_config_def)
  then have "ensure_group demo_libs demo_config mem Up id fresh_db = (Inr (), fresh_db)"
    by (simp add: ensure_group_def request_up ensure_group_inner_def) (simp add: demo_libs_def)
  then show ?thesis by (simp add: start_def artifact_accepted demo_env_config demo_boot_def)
qed


end
