(* ===== verification/Admission.thy ===== *)
theory Admission
  imports Decode Consumer
begin

text \<open>
  The gateway's side of the stream (\<open>apps/gateway/internal/admission/redis.go\<close>,
  \<open>internal/signature/hmac.go\<close> and \<open>handleEvent\<close> of \<open>internal/server/server.go\<close>): the admission script,
  the Go function around it, and the request handler. The script is a second instance of the guarded
  operation of \<open>Once\<close>.
\<close>

section \<open>The script\<close>

definition admit_body :: "'s server \<Rightarrow> string list \<Rightarrow> string list \<Rightarrow> ('s, reply) lua" where
  "admit_body R KEYS ARGV =
     lua_bind (redis_call R [''GET'', KEYS ! 0]) (\<lambda>prior.
     if truthy prior then
       (if prior \<noteq> RBulk (ARGV ! 3) then lua_return (RArr [RInt (- 1), RBulk ''''])
        else lua_return (RArr [RInt 0, RBulk '''']))
     else
       lua_bind (redis_call R [''XLEN'', KEYS ! 1]) (\<lambda>len.
       case (len, nat_of_digits 0 (ARGV ! 4)) of
         (RInt n, Some bound) \<Rightarrow>
           if int bound \<le> n then lua_return (RArr [RInt (- 2), RBulk ''''])
           else
             lua_bind (redis_call R [''SET'', KEYS ! 0, ARGV ! 3, ''EX'', ARGV ! 0]) (\<lambda>_.
             lua_bind (redis_pcall R [''XADD'', KEYS ! 1, ''*'', ''event_id'', ARGV ! 2, ''payload'', ARGV ! 1]) (\<lambda>added.
             case added of
               RErr err \<Rightarrow> lua_bind (redis_call R [''DEL'', KEYS ! 0]) (\<lambda>_. lua_return (RErr err))
             | _ \<Rightarrow> lua_return (RArr [RInt 1, added])))
       | _ \<Rightarrow> lua_raise (ErrText ''attempt to compare nil with number'')))"

text \<open>An error that leaves the script is its reply.\<close>

definition admit_script :: "'s server \<Rightarrow> finish_call \<Rightarrow> 's \<Rightarrow> reply \<times> 's" where
  "admit_script R c s =
     (case admit_body R (fst c) (snd c) s of
        (Inl err, s') \<Rightarrow> (RErr (tostring R err), s')
      | (Inr r, s') \<Rightarrow> (r, s'))"

definition run_admit :: "'s server \<Rightarrow> finish_call \<Rightarrow> 's \<Rightarrow> reply \<times> 's" where
  "run_admit R c s =
     (case refuse R (''EVAL'' # dec (length (fst c)) # fst c @ snd c) s of
        Some e \<Rightarrow> (RErr e, s)
      | None \<Rightarrow> admit_script R c s)"

section \<open>What a run does\<close>

text \<open>The data set after an admission: the marker with the payload's digest and one new entry.\<close>

definition admitted :: "finish_call \<Rightarrow> db \<Rightarrow> string \<Rightarrow> db \<Rightarrow> bool" where
  "admitted c d i d' \<longleftrightarrow>
     (\<exists>st bound. nat_of_digits 0 (snd c ! 4) = Some bound \<and>
        stream_at d (fst c ! 1) = Some st \<and> length (entries st) < bound \<and>
        (\<exists>st'. stream_at (d(fst c ! 0 \<mapsto> VStr (snd c ! 3))) (fst c ! 1) = Some st' \<and> i \<notin> used st' \<and>
           d' = db_xadd (fst c ! 1) i [(''event_id'', snd c ! 2), (''payload'', snd c ! 1)] 0 st'
                  (d(fst c ! 0 \<mapsto> VStr (snd c ! 3)))))"

lemma admit_body_cases:
  assumes ok: "redis_ok R" and run: "admit_script R c s = (r, s')"
  obtains (prior) v where "view R s (fst c ! 0) = Some (VStr v)" "view R s' = view R s"
      "r = RArr [RInt (if v = snd c ! 3 then 0 else - 1), RBulk '''']"
    | (full) "view R s (fst c ! 0) = None" "view R s' = view R s" "r = RArr [RInt (- 2), RBulk '''']"
    | (accepted) i where "view R s (fst c ! 0) = None" "admitted c (view R s) i (view R s')"
      "r = RArr [RInt 1, RBulk i]"
    | (failed) e where "view R s' = view R s" "r = RErr e"
proof (cases rule: call_get [OF ok, of "fst c ! 0" s, case_names absent marked wrong])
  case (marked s1 v)
  then show thesis using run prior [of v]
    by (auto simp: admit_script_def admit_body_def lua_bind_def lua_return_def truthy_def split: if_splits)
next
  case (wrong s1 e)
  then show thesis using run failed by (auto simp: admit_script_def admit_body_def lua_bind_def)
next
  case (absent s1)
  show thesis
  proof (cases rule: call_xlen [OF ok, of "fst c ! 1" s1, case_names ok wrong])
    case (wrong s2 e)
    then show thesis using run failed absent
      by (auto simp: admit_script_def admit_body_def lua_bind_def truthy_def)
  next
    case (ok s2 st)
    have v2: "view R s2 = view R s" and st: "stream_at (view R s) (fst c ! 1) = Some st"
      using ok absent by simp_all
    show thesis
    proof (cases "nat_of_digits 0 (snd c ! 4)")
      case None
      then show thesis using run failed absent ok v2
        by (auto simp: admit_script_def admit_body_def lua_bind_def lua_raise_def truthy_def)
    next
      case (Some bound)
      show thesis
      proof (cases "bound \<le> length (entries st)")
        case True
        then show thesis using run full absent ok(1) v2 Some
          by (auto simp: admit_script_def admit_body_def lua_bind_def lua_return_def truthy_def)
      next
        case False
        let ?fs = "[(''event_id'', snd c ! 2), (''payload'', snd c ! 1)]"
        let ?rest = "lua_bind (redis_pcall R (''XADD'' # fst c ! 1 # ''*'' # flat ?fs)) (\<lambda>added.
             case added of
               RErr err \<Rightarrow> lua_bind (redis_call R [''DEL'', fst c ! 0]) (\<lambda>_. lua_return (RErr err))
             | _ \<Rightarrow> lua_return (RArr [RInt 1, added]))"
        have body: "admit_body R (fst c) (snd c) s =
            lua_bind (redis_call R [''SET'', fst c ! 0, snd c ! 3, ''EX'', snd c ! 0]) (\<lambda>_. ?rest) s2"
          using absent ok(1) Some False by (simp add: admit_body_def lua_bind_def truthy_def)
        show thesis
        proof (cases rule: call_set [OF assms(1), of "fst c ! 0" "snd c ! 3" "snd c ! 0" s2, case_names stored refused])
          case (refused s3 e)
          then show thesis using run failed body v2 by (auto simp: admit_script_def lua_bind_def)
        next
          case (stored s3 q)
          show thesis
          proof (cases rule: pcall_xadd [OF assms(1), of "fst c ! 1" ?fs s3, case_names added refused])
            case (refused s4 e)
            obtain s5 x where del: "redis_call R [''DEL'', fst c ! 0] s4 = (Inr x, s5)"
              and v5: "view R s5 = (view R s4)(fst c ! 0 := None)" by (rule call_del [OF assms(1)])
            have "view R s5 = view R s"
              using v5 refused(2) stored(3) v2 absent(3) by (simp add: fun_upd_idem)
            then show thesis using run failed body stored(1) refused(1) del
              by (auto simp: admit_script_def lua_bind_def lua_return_def)
          next
            case (added s4 i st')
            have "admitted c (view R s) i (view R s4)"
              unfolding admitted_def using Some False st added(2-4) stored(3) v2
              by (intro exI [of _ st] exI [of _ bound] conjI exI [of _ st']) simp_all
            then show thesis using run accepted [of i] absent(3) body stored(1) added(1)
              by (auto simp: admit_script_def lua_bind_def lua_return_def)
          qed
        qed
      qed
    qed
  qed
qed

lemma admitted_marks: "admitted c d i d' \<Longrightarrow> is_marked d' (fst c ! 0)"
  by (auto simp: admitted_def is_marked_xadd)

lemma admitted_keeps: "admitted c d i d' \<Longrightarrow> is_marked d k \<Longrightarrow> is_marked d' k"
  by (auto simp: admitted_def is_marked_xadd)

lemma run_admit_cases:
  assumes "redis_ok R" "run_admit R c s = (r, s')"
  obtains (prior) v where "view R s (fst c ! 0) = Some (VStr v)" "view R s' = view R s"
      "r = RArr [RInt (if v = snd c ! 3 then 0 else - 1), RBulk '''']"
    | (full) "view R s (fst c ! 0) = None" "view R s' = view R s" "r = RArr [RInt (- 2), RBulk '''']"
    | (accepted) i where "view R s (fst c ! 0) = None" "admitted c (view R s) i (view R s')"
      "r = RArr [RInt 1, RBulk i]"
    | (failed) e where "view R s' = view R s" "r = RErr e"
proof (cases "refuse R (''EVAL'' # dec (length (fst c)) # fst c @ snd c) s")
  case None
  then have run: "admit_script R c s = (r, s')" using assms(2) by (simp add: run_admit_def)
  show thesis by (rule admit_body_cases [OF assms(1) run]) (use that in blast)+
next
  case (Some e)
  then have "r = RErr e" "s' = s" using assms(2) by (simp_all add: run_admit_def)
  then show thesis using failed by blast
qed

definition first_admission :: "reply \<Rightarrow> bool" where
  "first_admission r = (case r of RArr [RInt n, RBulk i] \<Rightarrow> n = 1 | _ \<Rightarrow> False)"

interpretation adm: guarded_once redis_ok run_admit "\<lambda>c. fst c ! 0" "\<lambda>R s. is_marked (view R s)" first_admission
proof unfold_locales
  fix R :: "'s server" and c s out s'
  assume ok: "redis_ok R" and x: "run_admit R c s = (out, s')" and f: "first_admission out"
  show "\<not> is_marked (view R s) (fst c ! 0)"
    by (cases rule: run_admit_cases [OF ok x, case_names prior full accepted failed])
      (use f in \<open>auto simp: first_admission_def is_marked_def split: if_splits\<close>)
  show "is_marked (view R s') (fst c ! 0)"
    by (cases rule: run_admit_cases [OF ok x, case_names prior full accepted failed])
      (use f in \<open>auto simp: first_admission_def admitted_marks split: if_splits\<close>)
next
  fix R :: "'s server" and c s out s' k
  assume ok: "redis_ok R" and x: "run_admit R c s = (out, s')" and m: "is_marked (view R s) k"
  show "is_marked (view R s') k"
    by (cases rule: run_admit_cases [OF ok x, case_names prior full accepted failed])
      (use m in \<open>auto simp: admitted_keeps\<close>)
qed

section \<open>Admit\<close>

text \<open>The hash functions of the Go library: SHA-256 as a hexadecimal string, and HMAC-SHA-256.\<close>

record go_libs =
  sha256_hex :: "string \<Rightarrow> string"
  hmac_sha256 :: "string \<Rightarrow> string \<Rightarrow> string"

record gateway =
  g_stream :: string
  g_ttl :: nat
  max_queue :: nat
  secret :: string

datatype admit_error = ErrConflict | ErrFull | Unavailable

record admission =
  is_accepted :: bool
  is_duplicate :: bool
  stream_id :: string

definition admit_call :: "go_libs \<Rightarrow> gateway \<Rightarrow> string \<Rightarrow> string \<Rightarrow> finish_call" where
  "admit_call G gw i payload =
     ([g_stream gw @ '':idempotency:'' @ i, g_stream gw],
      [dec (g_ttl gw), payload, i, sha256_hex G payload, dec (max_queue gw)])"

definition read_admission :: "reply answer \<Rightarrow> admit_error + admission" where
  "read_admission a =
     (case a of
        Got (RArr [RInt code, x]) \<Rightarrow>
          if code = - 1 then Inl ErrConflict
          else if code = - 2 then Inl ErrFull
          else if code = 0 then Inr \<lparr>is_accepted = False, is_duplicate = True, stream_id = ''''\<rparr>
          else if code = 1 then
            (case x of RBulk i \<Rightarrow> Inr \<lparr>is_accepted = True, is_duplicate = False, stream_id = i\<rparr> | _ \<Rightarrow> Inl Unavailable)
          else Inl Unavailable
      | _ \<Rightarrow> Inl Unavailable)"

definition admit ::
  "go_libs \<Rightarrow> gateway \<Rightarrow> 's server \<Rightarrow> link \<Rightarrow> string \<Rightarrow> string \<Rightarrow> 's \<Rightarrow> (admit_error + admission) \<times> 's" where
  "admit G gw R l i payload s =
     (let (r, s') = run_admit R (admit_call G gw i payload) s in
      case l of
        Up \<Rightarrow> (read_admission (Got r), s')
      | Failing hit e \<Rightarrow> (read_admission (Error e), if hit then s' else s)
      | Silent hit \<Rightarrow> (read_admission Expired, if hit then s' else s))"

section \<open>The request handler\<close>

text \<open>\<open>hex.DecodeString\<close>, and the comparison of the decoded bytes with the code of the body.\<close>

fun hex_decode :: "string \<Rightarrow> string option" where
  "hex_decode [] = Some []"
| "hex_decode [a] = None"
| "hex_decode (a # b # cs) =
     (case (hex_val a, hex_val b) of
        (Some x, Some y) \<Rightarrow> map_option ((#) (char_of (16 * x + y))) (hex_decode cs)
      | _ \<Rightarrow> None)"

definition signature_valid :: "go_libs \<Rightarrow> string \<Rightarrow> string \<Rightarrow> string \<Rightarrow> bool" where
  "signature_valid G key body provided =
     (case hex_decode provided of None \<Rightarrow> False | Some decoded \<Rightarrow> hmac_sha256 G key body = decoded)"

datatype body_read = TooLarge | Unreadable | Body string

text \<open>
  The status code, whether the duplicate header is set, and the server afterwards. Decoding always
  returns (\<open>decode_returns\<close>), and \<open>json.Marshal\<close> does not fail on the struct.
\<close>

definition handle_event ::
  "go_libs \<Rightarrow> gateway \<Rightarrow> 's server \<Rightarrow> link \<Rightarrow> body_read \<Rightarrow> string \<Rightarrow> 's \<Rightarrow> (nat \<times> bool) \<times> 's" where
  "handle_event G gw R l input signature s =
     (case input of
        TooLarge \<Rightarrow> ((413, False), s)
      | Unreadable \<Rightarrow> ((400, False), s)
      | Body body \<Rightarrow>
          if \<not> signature_valid G (secret gw) body signature then ((401, False), s)
          else case decode body of
            None \<Rightarrow> ((400, False), s)
          | Some (Inl e) \<Rightarrow> ((400, False), s)
          | Some (Inr event) \<Rightarrow>
          let payload = marshal event in
          case admit G gw R l (event_id event) payload s of
            (Inl ErrConflict, s') \<Rightarrow> ((409, False), s')
          | (Inl _, s') \<Rightarrow> ((503, False), s')
          | (Inr a, s') \<Rightarrow> ((202, is_duplicate a), s'))"

section \<open>What the gateway promises\<close>

lemma admit_reply:
  assumes "redis_ok R" "admit G gw R l i p s = (Inr a, s')"
  shows "view R s' (g_stream gw @ '':idempotency:'' @ i) = Some (VStr (sha256_hex G p)) \<or>
         (\<exists>x. admitted (admit_call G gw i p) (view R s) x (view R s'))"
    and "is_accepted a \<Longrightarrow> admitted (admit_call G gw i p) (view R s) (stream_id a) (view R s')"
    and "is_duplicate a \<Longrightarrow> view R s' = view R s"
proof -
  obtain r t where run: "run_admit R (admit_call G gw i p) s = (r, t)" by (cases "run_admit R (admit_call G gw i p) s")
  have up: "l = Up" and a: "read_admission (Got r) = Inr a" and t: "s' = t"
    using assms(2) run by (auto simp: admit_def read_admission_def split: link.splits)
  have "(view R s' (g_stream gw @ '':idempotency:'' @ i) = Some (VStr (sha256_hex G p)) \<or>
         (\<exists>x. admitted (admit_call G gw i p) (view R s) x (view R s'))) \<and>
     (is_accepted a \<longrightarrow> admitted (admit_call G gw i p) (view R s) (stream_id a) (view R s')) \<and>
     (is_duplicate a \<longrightarrow> view R s' = view R s)"
    by (cases rule: run_admit_cases [OF assms(1) run, case_names prior full accepted failed])
      (use a t in \<open>auto simp: read_admission_def admit_call_def split: if_splits\<close>)
  then show "view R s' (g_stream gw @ '':idempotency:'' @ i) = Some (VStr (sha256_hex G p)) \<or>
         (\<exists>x. admitted (admit_call G gw i p) (view R s) x (view R s'))"
    and "is_accepted a \<Longrightarrow> admitted (admit_call G gw i p) (view R s) (stream_id a) (view R s')"
    and "is_duplicate a \<Longrightarrow> view R s' = view R s" by blast+
qed

text \<open>The state after an admission by \<open>admit\<close>: marker and entry.\<close>

definition queue_length :: "db \<Rightarrow> string \<Rightarrow> nat" where
  "queue_length d k = (case stream_at d k of None \<Rightarrow> 0 | Some st \<Rightarrow> length (entries st))"

definition queued :: "db \<Rightarrow> string \<Rightarrow> stream_entry \<Rightarrow> bool" where
  "queued d k entry = (case stream_at d k of None \<Rightarrow> False | Some st \<Rightarrow> entry \<in> set (entries st))"

lemma admitted_state:
  assumes "admitted (admit_call G gw i p) d x d'"
  shows "d' (g_stream gw @ '':idempotency:'' @ i) = Some (VStr (sha256_hex G p))"
    and "queued d' (g_stream gw) (x, [(''event_id'', i), (''payload'', p)])"
    and "queue_length d' (g_stream gw) = Suc (queue_length d (g_stream gw))"
    and "queue_length d' (g_stream gw) \<le> max_queue gw"
    and "entry_ids d' (g_stream gw) = insert x (entry_ids d (g_stream gw))"
    and "d (g_stream gw) = Some (VStream st) \<Longrightarrow> x \<notin> used st"
proof -
  obtain st where st: "stream_at d (g_stream gw) = Some st" "length (entries st) < max_queue gw" "x \<notin> used st"
    and d': "d' = db_xadd (g_stream gw) x [(''event_id'', i), (''payload'', p)] 0 st
        (d(g_stream gw @ '':idempotency:'' @ i \<mapsto> VStr (sha256_hex G p)))"
    using assms by (auto simp: admitted_def admit_call_def stream_at_def)
  show "d' (g_stream gw @ '':idempotency:'' @ i) = Some (VStr (sha256_hex G p))"
    by (simp add: d' db_xadd_def)
  show "queued d' (g_stream gw) (x, [(''event_id'', i), (''payload'', p)])"
    by (simp add: d' db_xadd_def queued_def stream_at_def)
  show "queue_length d' (g_stream gw) = Suc (queue_length d (g_stream gw))"
    by (simp add: queue_length_def st(1)) (simp add: d' db_xadd_def stream_at_def)
  then show "queue_length d' (g_stream gw) \<le> max_queue gw" using st(1,2) by (simp add: queue_length_def)
  show "entry_ids d' (g_stream gw) = insert x (entry_ids d (g_stream gw))"
    using st(1) by (auto simp: d' db_xadd_def entry_ids_def stream_at_def empty_stream_def split: option.splits rval.splits)
  show "d (g_stream gw) = Some (VStream st') \<Longrightarrow> x \<notin> used st'" for st'
    using st(1,3) by (simp add: stream_at_def)
qed


lemma handle_event_cases:
  assumes "handle_event G gw R l input sig s = ((code, dup), s')"
  obtains (rejected) "s' = s" "code \<in> {400, 401, 413}"
    | (conflict) i payload where "admit G gw R l i payload s = (Inl ErrConflict, s')" "code = 409"
    | (unavailable) i payload e where "admit G gw R l i payload s = (Inl e, s')" "code = 503"
      "e \<noteq> ErrConflict"
    | (admitted) body event a where "input = Body body" "signature_valid G (secret gw) body sig"
      "decode body = Some (Inr event)"
      "admit G gw R l (event_id event) (marshal event) s = (Inr a, s')" "code = 202" "dup = is_duplicate a"
proof (cases input)
  case (Body body)
  show thesis
  proof (cases "signature_valid G (secret gw) body sig")
    case sig: True
    show thesis
    proof (cases "\<exists>event. decode body = Some (Inr event)")
      case True
      then obtain event where dec: "decode body = Some (Inr event)" by blast
      obtain x t where adm: "admit G gw R l (event_id event) (marshal event) s = (x, t)"
        by (cases "admit G gw R l (event_id event) (marshal event) s")
      have run: "(case x of Inl ErrConflict \<Rightarrow> ((409, False), t) | Inl e \<Rightarrow> ((503, False), t)
          | Inr a \<Rightarrow> ((202, is_duplicate a), t)) = ((code, dup), s')"
        using assms Body sig dec adm by (simp add: handle_event_def)
      show thesis
      proof (cases x)
        case (Inl e)
        then show thesis
          using run adm conflict [of "event_id event" "marshal event"] unavailable [of "event_id event" "marshal event" e]
          by (cases e) simp_all
      next
        case (Inr a)
        then show thesis using run adm admitted [OF Body sig dec] by auto
      qed
    next
      case False
      then show thesis
        using assms Body sig rejected by (auto simp: handle_event_def split: option.splits sum.splits)
    qed
  qed (use assms Body rejected in \<open>simp add: handle_event_def\<close>)
qed (use assms rejected in \<open>simp_all add: handle_event_def\<close>)

text \<open>
  C10. A 202 is a promise kept: the gateway answers it only for a body with a valid signature that holds a
  valid event, and then the event's marker binds the digest of exactly these canonical bytes; unless it
  was a repetition, the stream holds an entry with them.
\<close>

theorem accepted_is_durable:
  assumes "redis_ok R" "handle_event G gw R l input sig s = ((202, dup), s')"
  shows "\<exists>body event. input = Body body \<and> signature_valid G (secret gw) body sig \<and>
     decode body = Some (Inr event) \<and> valid event \<and>
     view R s' (g_stream gw @ '':idempotency:'' @ event_id event) = Some (VStr (sha256_hex G (marshal event))) \<and>
     (if dup then view R s' = view R s
      else \<exists>x. queued (view R s') (g_stream gw) (x, [(''event_id'', event_id event), (''payload'', marshal event)]))"
proof (cases rule: handle_event_cases [OF assms(2), case_names rejected conflict unavailable admitted])
  case (admitted body event a)
  note rep = admit_reply [OF assms(1) admitted(4)]
  have marker: "view R s' (g_stream gw @ '':idempotency:'' @ event_id event) = Some (VStr (sha256_hex G (marshal event)))"
    using rep(1) admitted_state(1) by blast
  have "is_accepted a \<or> is_duplicate a"
    using admitted(4) by (auto simp: admit_def read_admission_def Let_def split: prod.splits link.splits answer.splits
        reply.splits list.splits if_splits)
  then have "if dup then view R s' = view R s
      else \<exists>x. queued (view R s') (g_stream gw) (x, [(''event_id'', event_id event), (''payload'', marshal event)])"
  proof (cases dup)
    case False
    with admitted(6) \<open>is_accepted a \<or> is_duplicate a\<close> have "is_accepted a" by simp
    from admitted_state(2) [OF rep(2) [OF this]] False show ?thesis by auto
  qed (use rep(3) admitted(6) in simp)
  with admitted marker decode_valid show ?thesis by blast
qed simp_all

text \<open>
  C17. A request that is turned away leaves nothing behind: with any other status than 202 the data set is
  as before, except that a 503 after a failed connection may hide a script that ran; without a valid
  signature not even Redis is asked.
\<close>

theorem rejection_changes_nothing:
  assumes "redis_ok R" "handle_event G gw R l input sig s = ((code, dup), s')"
  shows "(code \<noteq> 202 \<longrightarrow> code = 503 \<and> l \<noteq> Up \<or> view R s' = view R s) \<and>
     ((\<forall>body. input = Body body \<longrightarrow> \<not> signature_valid G (secret gw) body sig) \<longrightarrow> s' = s \<and> code \<noteq> 202)"
proof -
  have same: "view R s' = view R s" if adm: "admit G gw R l i p s = (Inl e, s')" and "l = Up" for i p e
  proof -
    obtain r t where x: "run_admit R (admit_call G gw i p) s = (r, t)" by (cases "run_admit R (admit_call G gw i p) s")
    with that have run: "run_admit R (admit_call G gw i p) s = (r, s')" and r: "read_admission (Got r) = Inl e"
      by (simp_all add: admit_def)
    show ?thesis
      by (cases rule: run_admit_cases [OF assms(1) run, case_names prior full accepted failed])
        (use r in \<open>auto simp: read_admission_def\<close>)
  qed
  have conflict: "view R s' = view R s" if adm: "admit G gw R l i p s = (Inl ErrConflict, s')" for i p
  proof -
    have "l = Up" using adm by (auto simp: admit_def read_admission_def Let_def split: prod.splits link.splits)
    with same [OF adm] show ?thesis .
  qed
  have "code \<noteq> 202 \<longrightarrow> code = 503 \<and> l \<noteq> Up \<or> view R s' = view R s"
    by (cases rule: handle_event_cases [OF assms(2), case_names rejected conflict unavailable admitted])
      (use same conflict in auto)
  moreover have "s' = s \<and> code \<noteq> 202" if "\<forall>body. input = Body body \<longrightarrow> \<not> signature_valid G (secret gw) body sig"
    using assms(2) that by (auto simp: handle_event_def split: body_read.splits)
  ultimately show ?thesis by blast
qed

text \<open>
  C16. Retries are safe and identifiers are bound to their payload: while the marker of an identifier is
  kept, a request with the same canonical bytes is answered as a duplicate, one with another digest as a
  conflict, and neither changes anything. So a client that lost the answer can send the event again.
\<close>

theorem retry_or_conflict:
  assumes "redis_ok R" "runs_scripts R"
    and "view R s (g_stream gw @ '':idempotency:'' @ i) = Some (VStr (sha256_hex G p))"
  shows "fst (admit G gw R Up i q s) =
       (if sha256_hex G q = sha256_hex G p
        then Inr \<lparr>is_accepted = False, is_duplicate = True, stream_id = ''''\<rparr> else Inl ErrConflict) \<and>
     view R (snd (admit G gw R Up i q s)) = view R s"
proof -
  obtain r s' where run: "run_admit R (admit_call G gw i q) s = (r, s')" by (cases "run_admit R (admit_call G gw i q) s")
  then have script: "admit_script R (admit_call G gw i q) s = (r, s')"
    using assms(2) by (simp add: run_admit_def runs_scripts_def)
  have key: "fst (admit_call G gw i q) ! 0 = g_stream gw @ '':idempotency:'' @ i"
    "snd (admit_call G gw i q) ! 3 = sha256_hex G q" by (simp_all add: admit_call_def)
  obtain s1 where get: "redis_call R [''GET'', g_stream gw @ '':idempotency:'' @ i] s =
      (Inr (RBulk (sha256_hex G p)), s1)" "view R s1 = view R s"
    by (rule call_get [OF assms(1), of "g_stream gw @ '':idempotency:'' @ i" s])
      (use assms(3) in \<open>auto simp: is_marked_def\<close>)
  have "admit_script R (admit_call G gw i q) s =
      (RArr [RInt (if sha256_hex G q = sha256_hex G p then 0 else - 1), RBulk ''''], s1)"
    using get(1) by (simp add: admit_script_def admit_body_def key lua_bind_def lua_return_def truthy_def)
  with script have "r = RArr [RInt (if sha256_hex G q = sha256_hex G p then 0 else - 1), RBulk '''']" "s' = s1" by simp_all
  with run get(2) show ?thesis by (simp add: admit_def read_admission_def)
qed

text \<open>
  C18. The queue stays bounded: as long as nothing but admissions makes the stream longer, it never holds
  more than \<open>MaxQueue\<close> entries, however many gateways admit at the same time.
\<close>

theorem queue_stays_bounded:
  assumes "redis_ok R"
    and "\<forall>(env, c) \<in> set steps. (\<exists>i p. c = admit_call G gw i p) \<and>
      (\<forall>t. queue_length (view R (env t)) (g_stream gw) \<le> max (max_queue gw) (queue_length (view R t) (g_stream gw)))"
    and "queue_length (view R s) (g_stream gw) \<le> max_queue gw"
  shows "queue_length (view R (snd (interleave (run_admit R) steps s))) (g_stream gw) \<le> max_queue gw"
proof (rule interleave_invariant [where I = "\<lambda>t. queue_length (view R t) (g_stream gw) \<le> max_queue gw"])
  let ?I = "\<lambda>t. queue_length (view R t) (g_stream gw) \<le> max_queue gw"
  have "?I (snd (run_admit R (admit_call G gw i p) t))" if t: "?I t" for i p t
  proof -
    obtain r t' where run: "run_admit R (admit_call G gw i p) t = (r, t')" by (cases "run_admit R (admit_call G gw i p) t")
    show ?thesis
      by (cases rule: run_admit_cases [OF assms(1) run, case_names prior full accepted failed])
        (use t run admitted_state(4) in auto)
  qed
  note call = this
  show "\<forall>(env, c) \<in> set steps. \<forall>t. ?I t \<longrightarrow> ?I (env t) \<and> ?I (snd (run_admit R c t))"
  proof (intro ballI, clarify)
    fix env a b t
    assume mem: "(env, a, b) \<in> set steps" and t: "?I t"
    from bspec [OF assms(2) mem] obtain i p where c: "(a, b) = admit_call G gw i p"
      and env: "queue_length (view R (env t)) (g_stream gw) \<le> max (max_queue gw) (queue_length (view R t) (g_stream gw))"
      by auto
    show "?I (env t) \<and> ?I (snd (run_admit R (a, b) t))"
      using env call [OF t, of i p] t unfolding c by (simp add: max_absorb1)
  qed
qed (rule assms(3))

section \<open>Requests on the reference server\<close>

definition demo_go :: go_libs where
  "demo_go = \<lparr>sha256_hex = id, hmac_sha256 = (\<lambda>k b. k)\<rparr>"

text \<open>A request with the sample event, signed with the code \<open>K\<close>.\<close>

abbreviation demo_payload :: string where
  "demo_payload \<equiv> marshal sample_event"

definition demo_gateway :: gateway where
  "demo_gateway = \<lparr>g_stream = ''payment_events'', g_ttl = 86400, max_queue = 1000000, secret = ''K''\<rparr>"

lemma demo_hex: "hex_decode ''4b'' = Some ''K''" "hex_decode ''wrong'' = None"
  by code_simp+

lemma demo_admit_run:
  obtains d' where "run_admit mem (admit_call demo_go demo_gateway ''test'' demo_payload) Map.empty =
      (RArr [RInt 1, RBulk (mem_id {})], d')"
proof -
  have "fst (run_admit mem (admit_call demo_go demo_gateway ''test'' demo_payload) Map.empty) = RArr [RInt 1, RBulk (mem_id {})]"
    by (simp add: run_admit_def admit_script_def admit_body_def admit_call_def demo_go_def demo_gateway_def
        lua_bind_def lua_return_def redis_call_def redis_pcall_def mem_exec_def mem_xadd_def truthy_def
        stream_at_def empty_stream_def ttl_ok_dec Let_def)
  then show thesis using that by (metis prod.collapse)
qed

lemma demo_handle:
  obtains d' where "handle_event demo_go demo_gateway mem Up (Body demo_payload) ''4b'' Map.empty = ((202, False), d')"
proof -
  obtain d' where "run_admit mem (admit_call demo_go demo_gateway ''test'' demo_payload) Map.empty =
      (RArr [RInt 1, RBulk (mem_id {})], d')" by (rule demo_admit_run)
  then have "admit demo_go demo_gateway mem Up (event_id sample_event) demo_payload Map.empty =
      (Inr \<lparr>is_accepted = True, is_duplicate = False, stream_id = mem_id {}\<rparr>, d')"
    by (simp add: admit_def read_admission_def sample_event_def)
  moreover have "decode demo_payload = Some (Inr sample_event)" by (rule marshal_decodes [OF sample_event_valid])
  moreover have "signature_valid demo_go (secret demo_gateway) demo_payload ''4b''"
    unfolding signature_valid_def demo_hex by (simp add: demo_go_def demo_gateway_def)
  ultimately have "handle_event demo_go demo_gateway mem Up (Body demo_payload) ''4b'' Map.empty = ((202, False), d')"
    by (simp add: handle_event_def)
  then show thesis using that by blast
qed


theorem accepted_is_durable_witness:
  "\<exists>s' event x.
     handle_event demo_go demo_gateway mem Up (Body demo_payload) ''4b'' Map.empty = ((202, False), s') \<and>
     decode demo_payload = Some (Inr event) \<and>
     queued s' ''payment_events'' (x, [(''event_id'', event_id event), (''payload'', marshal event)])"
proof -
  obtain s' where run: "handle_event demo_go demo_gateway mem Up (Body demo_payload) ''4b'' Map.empty = ((202, False), s')"
    by (rule demo_handle)
  from accepted_is_durable [OF mem_ok run] obtain body event x where
    "Body demo_payload = Body body" "decode body = Some (Inr event)"
    "queued (view mem s') (g_stream demo_gateway) (x, [(''event_id'', event_id event), (''payload'', marshal event)])"
    by auto
  with run show ?thesis by (auto simp: demo_gateway_def)
qed

theorem rejection_changes_nothing_witness:
  "handle_event demo_go demo_gateway mem Up (Body demo_payload) ''wrong'' Map.empty = ((401, False), Map.empty) \<and>
   view mem (Map.empty :: db) = Map.empty"
proof -
  have bad: "\<not> signature_valid demo_go (secret demo_gateway) demo_payload ''wrong''"
    unfolding signature_valid_def demo_hex by simp
  then have run: "handle_event demo_go demo_gateway mem Up (Body demo_payload) ''wrong'' Map.empty = ((401, False), Map.empty)"
    by (simp add: handle_event_def)
  from rejection_changes_nothing [OF mem_ok run] bad run show ?thesis by simp
qed

theorem retry_or_conflict_witness:
  "fst (admit demo_go demo_gateway mem Up ''test'' ''other'' [''payment_events:idempotency:test'' \<mapsto> VStr demo_payload]) =
     Inl ErrConflict"
proof -
  let ?d = "[''payment_events:idempotency:test'' \<mapsto> VStr demo_payload]"
  have "view mem ?d (g_stream demo_gateway @ '':idempotency:'' @ ''test'') = Some (VStr (sha256_hex demo_go demo_payload))"
    by (simp add: demo_gateway_def demo_go_def)
  from retry_or_conflict [OF mem_ok mem_runs_scripts this, of "''other''"] show ?thesis by (simp add: demo_go_def marshal_def)
qed

theorem queue_stays_bounded_witness:
  "queue_length (snd (interleave (run_admit mem)
     [(id, admit_call demo_go demo_gateway ''test'' demo_payload), (id, admit_call demo_go demo_gateway ''next'' demo_payload)]
     Map.empty)) ''payment_events'' \<le> 1000000"
proof -
  let ?steps = "[(id :: db \<Rightarrow> db, admit_call demo_go demo_gateway ''test'' demo_payload), (id, admit_call demo_go demo_gateway ''next'' demo_payload)]"
  have "\<forall>(env, c) \<in> set ?steps. (\<exists>i p. c = admit_call demo_go demo_gateway i p) \<and>
      (\<forall>t. queue_length (view mem (env t)) (g_stream demo_gateway) \<le>
         max (max_queue demo_gateway) (queue_length (view mem t) (g_stream demo_gateway)))"
    by auto
  moreover have "queue_length (view mem Map.empty) (g_stream demo_gateway) \<le> max_queue demo_gateway"
    by (simp add: queue_length_def stream_at_def empty_stream_def)
  ultimately show ?thesis
    using queue_stays_bounded [OF mem_ok, of ?steps demo_go demo_gateway Map.empty] by (simp add: demo_gateway_def)
qed

end
