(* ===== verification/Operator.thy ===== *)
theory Operator
  imports Admission
begin

text \<open>
  The gateway around the admission: the counters of \<open>internal/telemetry/metrics.go\<close> as \<open>handleEvent\<close> and
  \<open>respond\<close> drive them, \<open>handleReady\<close> (\<open>internal/server/server.go\<close>), and the read-only operator interface
  (\<open>internal/server/operator.go\<close>).
\<close>

section \<open>Counters\<close>

text \<open>Requests by status code, observed durations, suppressed duplicates, failed admissions.\<close>

record telemetry =
  by_code :: "nat \<Rightarrow> nat"
  observed :: nat
  suppressed :: nat
  admission_errors :: nat

definition no_telemetry :: telemetry where
  "no_telemetry = \<lparr>by_code = (\<lambda>_. 0), observed = 0, suppressed = 0, admission_errors = 0\<rparr>"

definition respond :: "nat \<Rightarrow> telemetry \<Rightarrow> telemetry" where
  "respond code t = t\<lparr>by_code := (by_code t)(code := by_code t code + 1)\<rparr>"

text \<open>
  \<open>handleEvent\<close> with its counters: every request is observed and counted by its code; a duplicate and a
  failed admission, whose answer is the 503, are counted on their own.
\<close>

definition count_event :: "nat \<times> bool \<Rightarrow> telemetry \<Rightarrow> telemetry" where
  "count_event answer t =
     (case answer of
        (code, dup) \<Rightarrow>
          let t1 = (if code = 503 then t\<lparr>admission_errors := admission_errors t + 1\<rparr> else t);
              t2 = (if dup then t1\<lparr>suppressed := suppressed t1 + 1\<rparr> else t1);
              t3 = respond code t2
          in t3\<lparr>observed := observed t3 + 1\<rparr>)"

record request =
  body :: body_read
  signature :: string
  connection :: link

fun serve_events ::
  "go_libs \<Rightarrow> gateway \<Rightarrow> 's server \<Rightarrow> (('s \<Rightarrow> 's) \<times> request) list \<Rightarrow> telemetry \<times> 's \<Rightarrow> telemetry \<times> 's" where
  "serve_events G gw R [] (t, s) = (t, s)"
| "serve_events G gw R ((env, q) # qs) (t, s) =
     (case handle_event G gw R (connection q) (body q) (signature q) (env s) of
        (answer, s') \<Rightarrow> serve_events G gw R qs (count_event answer t, s'))"

definition answer_codes :: "nat set" where
  "answer_codes = {202, 400, 401, 409, 413, 503}"

section \<open>Readiness\<close>

text \<open>\<open>pinged\<close> tells whether Redis answered the \<open>PING\<close> within its deadline.\<close>

definition handle_ready :: "bool \<Rightarrow> telemetry \<Rightarrow> nat \<times> telemetry" where
  "handle_ready pinged t = (if pinged then (200, t) else (503, respond 503 t))"

section \<open>The operator interface\<close>

definition authorized_read :: "go_libs \<Rightarrow> gateway \<Rightarrow> string \<Rightarrow> string \<Rightarrow> telemetry \<Rightarrow> bool \<times> telemetry" where
  "authorized_read G gw path sig t =
     (if signature_valid G (secret gw) path sig then (True, t) else (False, respond 401 t))"

definition json_valid :: "string \<Rightarrow> bool" where
  "json_valid raw =
     (case read_value BeginValue [] raw of None \<Rightarrow> False | Some n \<Rightarrow> spaces (drop n raw))"

text \<open>
  The Redis client reads an integer and a list of entries, each with its fields as a map; \<open>None\<close> is an error.
\<close>

record read_libs =
  int_reply :: "reply \<Rightarrow> int option"
  rows_reply :: "reply \<Rightarrow> (string \<times> (string \<rightharpoonup> string)) list option"

datatype page = Refused_read nat | Outstanding int | Decisions "string list"

definition ask :: "'s server \<Rightarrow> link \<Rightarrow> string list \<Rightarrow> 's \<Rightarrow> reply option \<times> 's" where
  "ask R l argv s =
     (case request R l id argv s of
        (Got r, s') \<Rightarrow> (Some r, s')
      | (_, s') \<Rightarrow> (None, s'))"

definition handle_status ::
  "go_libs \<Rightarrow> read_libs \<Rightarrow> gateway \<Rightarrow> 's server \<Rightarrow> link \<Rightarrow> string \<Rightarrow> string \<Rightarrow> telemetry \<times> 's \<Rightarrow>
   page \<times> telemetry \<times> 's" where
  "handle_status G P gw R l path sig w =
     (case w of (t, s) \<Rightarrow>
      case authorized_read G gw path sig t of
        (False, t') \<Rightarrow> (Refused_read 401, t', s)
      | (True, t') \<Rightarrow>
      case ask R l [''XLEN'', g_stream gw] s of
        (r, s') \<Rightarrow>
          (case Option.bind r (int_reply P) of
             None \<Rightarrow> (Refused_read 503, respond 503 t', s')
           | Some n \<Rightarrow> (Outstanding n, t', s')))"

definition decision_rows :: "(string \<times> (string \<rightharpoonup> string)) list \<Rightarrow> string list" where
  "decision_rows rows = concat (map (\<lambda>row.
     case snd row ''decision'' of Some raw \<Rightarrow> if json_valid raw then [raw] else [] | None \<Rightarrow> []) rows)"

definition handle_decisions ::
  "go_libs \<Rightarrow> read_libs \<Rightarrow> gateway \<Rightarrow> string \<Rightarrow> 's server \<Rightarrow> link \<Rightarrow> string \<Rightarrow> string \<Rightarrow> telemetry \<times> 's \<Rightarrow>
   page \<times> telemetry \<times> 's" where
  "handle_decisions G P gw results R l path sig w =
     (case w of (t, s) \<Rightarrow>
      case authorized_read G gw path sig t of
        (False, t') \<Rightarrow> (Refused_read 401, t', s)
      | (True, t') \<Rightarrow>
      case ask R l [''XREVRANGE'', results, ''+'', ''-'', ''COUNT'', ''50''] s of
        (r, s') \<Rightarrow>
          (case Option.bind r (rows_reply P) of
             None \<Rightarrow> (Refused_read 503, respond 503 t', s')
           | Some rows \<Rightarrow> (Decisions (decision_rows rows), t', s')))"

section \<open>What the requests leave behind\<close>

lemma count_event_simps:
  "observed (count_event (code, dup) t) = Suc (observed t)"
  "by_code (count_event (code, dup) t) = (by_code t)(code := Suc (by_code t code))"
  "suppressed (count_event (code, dup) t) = (if dup then Suc (suppressed t) else suppressed t)"
  "admission_errors (count_event (code, dup) t) = (if code = 503 then Suc (admission_errors t) else admission_errors t)"
  by (simp_all add: count_event_def respond_def Let_def)

lemma handle_event_codes:
  assumes "handle_event G gw R l input sig s = ((code, dup), s')"
  shows "code \<in> answer_codes" "dup \<Longrightarrow> code = 202"
proof -
  have "code \<in> answer_codes \<and> (dup \<longrightarrow> code = 202)"
    using assms
    by (auto simp: handle_event_def answer_codes_def Let_def
        split: body_read.splits if_splits option.splits sum.splits prod.splits admit_error.splits)
  then show "code \<in> answer_codes" "dup \<Longrightarrow> code = 202" by blast+
qed

definition telemetry_ok :: "telemetry \<Rightarrow> bool" where
  "telemetry_ok t \<longleftrightarrow> observed t = sum (by_code t) answer_codes \<and> admission_errors t = by_code t 503 \<and>
     suppressed t \<le> by_code t 202"

lemma telemetry_step:
  assumes "telemetry_ok t" "code \<in> answer_codes" "dup \<Longrightarrow> code = 202"
  shows "telemetry_ok (count_event (code, dup) t)"
proof -
  have fin: "finite answer_codes" by (simp add: answer_codes_def)
  have "sum ((by_code t)(code := Suc (by_code t code))) answer_codes = Suc (sum (by_code t) answer_codes)"
    using sum.remove [OF fin assms(2), of "by_code t"] sum.remove [OF fin assms(2), of "(by_code t)(code := Suc (by_code t code))"]
    by simp
  with assms show ?thesis by (auto simp: telemetry_ok_def count_event_simps)
qed

lemma serve_events_ok:
  "telemetry_ok t \<Longrightarrow> serve_events G gw R qs (t, s) = (t', s') \<Longrightarrow>
   telemetry_ok t' \<and> observed t' = observed t + length qs"
proof (induction qs arbitrary: t s)
  case (Cons step qs)
  obtain env q where step: "step = (env, q)" by (cases step)
  obtain code dup s1 where h: "handle_event G gw R (connection q) (body q) (signature q) (env s) = ((code, dup), s1)"
    by (metis prod_cases3 prod.collapse)
  have "telemetry_ok (count_event (code, dup) t)"
    using telemetry_step [OF Cons.prems(1)] handle_event_codes [OF h] by blast
  with Cons.IH [of "count_event (code, dup) t" s1] Cons.prems(2) show ?case
    by (simp add: step h count_event_simps)
qed simp

text \<open>
  The gateway's counters tell the truth: after any number of event requests, with anything else
  happening on the server in between, every request was observed once and counted under one of the six
  answers, the failed admissions are the requests answered 503, and every suppressed duplicate is among
  those answered 202.
\<close>

theorem counters_account:
  "let (t, s') = serve_events G gw R qs (no_telemetry, s) in
     observed t = length qs \<and> sum (by_code t) answer_codes = length qs \<and>
     admission_errors t = by_code t 503 \<and> suppressed t \<le> by_code t 202"
proof -
  obtain t s' where run: "serve_events G gw R qs (no_telemetry, s) = (t, s')" by fastforce
  from serve_events_ok [OF _ run] have "telemetry_ok t \<and> observed t = length qs"
    by (simp add: telemetry_ok_def no_telemetry_def)
  then show ?thesis by (simp add: run telemetry_ok_def)
qed

section \<open>What an operator sees\<close>

text \<open>
  The documented behaviour of \<open>XREVRANGE\<close> over a whole stream, and of the client on the replies of the
  two queries: the fields of an entry become a map, in which a later field wins.
\<close>

definition window_law :: "'s server \<Rightarrow> bool" where
  "window_law R \<longleftrightarrow> (\<forall>s k n. view R (snd (exec R [''XREVRANGE'', k, ''+'', ''-'', ''COUNT'', dec n] s)) = view R s \<and>
     fst (exec R [''XREVRANGE'', k, ''+'', ''-'', ''COUNT'', dec n] s) =
       (case stream_at (view R s) k of None \<Rightarrow> RErr wrongtype
        | Some st \<Rightarrow> RArr (map enc_entry (take n (rev (entries st))))))"

definition row_of :: "stream_entry \<Rightarrow> string \<times> (string \<rightharpoonup> string)" where
  "row_of e = (fst e, map_of (rev (snd e)))"

definition read_ok :: "read_libs \<Rightarrow> bool" where
  "read_ok P \<longleftrightarrow> (\<forall>n. int_reply P (RInt n) = Some n) \<and> (\<forall>e. int_reply P (RErr e) = None) \<and>
     (\<forall>es. rows_reply P (RArr (map enc_entry es)) = Some (map row_of es)) \<and> (\<forall>e. rows_reply P (RErr e) = None)"

text \<open>The decisions among the last fifty entries of a stream, the newest first.\<close>

definition window :: "stream_state \<Rightarrow> string list" where
  "window st = decision_rows (map row_of (take 50 (rev (entries st))))"

lemma decision_rows_Cons:
  "decision_rows (row # rows) =
     (case snd row ''decision'' of Some raw \<Rightarrow> if json_valid raw then [raw] else [] | None \<Rightarrow> []) @ decision_rows rows"
  by (simp add: decision_rows_def)

lemma decision_rows_length: "length (decision_rows rows) \<le> length rows"
  by (induction rows) (auto simp: decision_rows_Cons decision_rows_def split: option.splits)

lemma window_bounded: "length (window st) \<le> 50"
  unfolding window_def by (rule order_trans [OF decision_rows_length]) simp

lemma window_entry:
  assumes "raw \<in> set (window st)"
  shows "json_valid raw" "\<exists>e \<in> set (entries st). (''decision'', raw) \<in> set (snd e)"
proof -
  from assms obtain e where e: "e \<in> set (take 50 (rev (entries st)))"
    "map_of (rev (snd e)) ''decision'' = Some raw" "json_valid raw"
    by (auto simp: window_def decision_rows_def row_of_def split: option.splits if_splits)
  from map_of_SomeD [OF e(2)] have "(''decision'', raw) \<in> set (snd e)" by simp
  moreover have "e \<in> set (entries st)" using in_set_takeD [OF e(1)] by simp
  ultimately show "json_valid raw" "\<exists>e \<in> set (entries st). (''decision'', raw) \<in> set (snd e)"
    using e(3) by blast+
qed

lemma dec_50: "dec 50 = ''50''"
  by code_simp

lemma ask_window:
  assumes "window_law R" "ask R l [''XREVRANGE'', k, ''+'', ''-'', ''COUNT'', ''50''] s = (r, s')"
  shows "view R s' = view R s"
    "r = (if l = Up then Some (case stream_at (view R s) k of None \<Rightarrow> RErr wrongtype
        | Some st \<Rightarrow> RArr (map enc_entry (take 50 (rev (entries st))))) else None)"
  using assms(1) [unfolded window_law_def, rule_format, of k 50 s] assms(2)
  by (auto simp: dec_50 ask_def request_def Let_def split: prod.splits link.splits if_splits)

lemma ask_length:
  assumes "redis_ok R" "ask R l [''XLEN'', k] s = (r, s')"
  shows "view R s' = view R s"
    "r = (if l = Up then Some (case stream_at (view R s) k of None \<Rightarrow> RErr wrongtype
        | Some st \<Rightarrow> RInt (int (length (entries st)))) else None)"
proof -
  have law: "xlen_law R" using assms(1) by (simp add: redis_ok_def)
  show "view R s' = view R s"
    "r = (if l = Up then Some (case stream_at (view R s) k of None \<Rightarrow> RErr wrongtype
        | Some st \<Rightarrow> RInt (int (length (entries st)))) else None)"
    using law [unfolded xlen_law_def, rule_format, of k s] assms(2)
    by (auto simp: ask_def request_def Let_def split: prod.splits link.splits if_splits)
qed

lemma decisions_page:
  assumes "window_law R" "read_ok P" "signature_valid G (secret gw) path sig"
    and "handle_decisions G P gw results R l path sig (t, s) = (page, t', s')"
  shows "view R s' = view R s"
    "page = (case (l, stream_at (view R s) results) of (Up, Some st) \<Rightarrow> Decisions (window st) | _ \<Rightarrow> Refused_read 503)"
proof -
  obtain r s1 where a: "ask R l [''XREVRANGE'', results, ''+'', ''-'', ''COUNT'', ''50''] s = (r, s1)" by fastforce
  note w = ask_window [OF assms(1) a]
  have "s' = s1" using assms(3,4) a by (auto simp: handle_decisions_def authorized_read_def split: option.splits)
  then show "view R s' = view R s" by (simp add: w)
  show "page = (case (l, stream_at (view R s) results) of (Up, Some st) \<Rightarrow> Decisions (window st) | _ \<Rightarrow> Refused_read 503)"
    using assms(2-4) a
    by (auto simp: handle_decisions_def authorized_read_def w(2) read_ok_def window_def
        split: option.splits link.splits if_splits)
qed

lemma status_page:
  assumes "redis_ok R" "read_ok P" "signature_valid G (secret gw) path sig"
    and "handle_status G P gw R l path sig (t, s) = (page, t', s')"
  shows "view R s' = view R s"
    "page = (case (l, stream_at (view R s) (g_stream gw)) of
       (Up, Some st) \<Rightarrow> Outstanding (int (length (entries st))) | _ \<Rightarrow> Refused_read 503)"
proof -
  obtain r s1 where a: "ask R l [''XLEN'', g_stream gw] s = (r, s1)" by fastforce
  note w = ask_length [OF assms(1) a]
  have "s' = s1" using assms(3,4) a by (auto simp: handle_status_def authorized_read_def split: option.splits)
  then show "view R s' = view R s" by (simp add: w)
  show "page = (case (l, stream_at (view R s) (g_stream gw)) of
       (Up, Some st) \<Rightarrow> Outstanding (int (length (entries st))) | _ \<Rightarrow> Refused_read 503)"
    using assms(2-4) a
    by (auto simp: handle_status_def authorized_read_def w(2) read_ok_def split: option.splits link.splits if_splits)
qed

text \<open>
  C21. The operator interface is read-only and guarded: whatever the path, the signature and the
  connection, both queries leave the data set as it was; without the signature of the path they answer
  401 and do not ask Redis. With it they show the length of the input stream and the decisions among the
  fifty newest results: never more than fifty, each of them well-formed JSON and the \<open>decision\<close> field
  of an entry.
\<close>

theorem operator_reads:
  assumes "redis_ok R" "window_law R" "read_ok P"
    and "handle_status G P gw R l path sig (t, s) = (answer, t1, s1)"
    and "handle_decisions G P gw results R l path sig (t, s) = (page, t2, s2)"
  shows "view R s1 = view R s \<and> view R s2 = view R s \<and>
     (if signature_valid G (secret gw) path sig then
        answer = (case (l, stream_at (view R s) (g_stream gw)) of
          (Up, Some st) \<Rightarrow> Outstanding (int (length (entries st))) | _ \<Rightarrow> Refused_read 503) \<and>
        page = (case (l, stream_at (view R s) results) of (Up, Some st) \<Rightarrow> Decisions (window st) | _ \<Rightarrow> Refused_read 503)
      else answer = Refused_read 401 \<and> page = Refused_read 401 \<and> s1 = s \<and> s2 = s) \<and>
     (\<forall>ds. page = Decisions ds \<longrightarrow> length ds \<le> 50 \<and> (\<forall>raw \<in> set ds. json_valid raw \<and>
        (\<exists>st e. stream_at (view R s) results = Some st \<and> e \<in> set (entries st) \<and> (''decision'', raw) \<in> set (snd e))))"
proof (cases "signature_valid G (secret gw) path sig")
  case True
  note status = status_page [OF assms(1,3) True assms(4)] and decisions = decisions_page [OF assms(2,3) True assms(5)]
  have "length ds \<le> 50 \<and> (\<forall>raw \<in> set ds. json_valid raw \<and>
        (\<exists>st e. stream_at (view R s) results = Some st \<and> e \<in> set (entries st) \<and> (''decision'', raw) \<in> set (snd e)))"
    if "page = Decisions ds" for ds
  proof -
    from that decisions(2) obtain st where "stream_at (view R s) results = Some st" "ds = window st"
      by (auto split: link.splits option.splits)
    then show ?thesis using window_bounded [of st] window_entry [of _ st] by blast
  qed
  with status decisions True show ?thesis by simp
next
  case False
  then show ?thesis using assms(4,5) by (auto simp: handle_status_def handle_decisions_def authorized_read_def)
qed

lemma published_newest:
  assumes "published KEYS ARGV d d'" "KEYS ! 1 \<noteq> KEYS ! 0"
  shows "\<exists>st i es. stream_at (removed KEYS ARGV d') (KEYS ! 1) = Some st \<and>
     entries st = es @ [(i, [(''event_id'', ARGV ! 2), (''decision'', ARGV ! 4)])]"
proof -
  from assms(1) obtain i st n where "n \<le> length (entries st)"
    and d': "d' = db_xadd (KEYS ! 1) i [(''event_id'', ARGV ! 2), (''decision'', ARGV ! 4)] n st (d(KEYS ! 2 \<mapsto> VStr ''1''))"
  proof -
    obtain i st n where n: "n = 0 \<or> n + 1000000 \<le> Suc (length (entries st))"
      and d': "d' = db_xadd (KEYS ! 1) i [(''event_id'', ARGV ! 2), (''decision'', ARGV ! 4)] n st (d(KEYS ! 2 \<mapsto> VStr ''1''))"
      using assms(1) unfolding published_def by blast
    from n have "n \<le> length (entries st)" by linarith
    with d' show thesis using that by blast
  qed
  then show ?thesis
    using assms(2) by (auto simp: removed_def stream_at_def db_simps db_xadd_def)
qed

text \<open>
  C20. A decision reaches the operator: right after the completion script published the decision of an
  entry, the operator's page of the same result stream begins with it, provided that the encoder wrote
  well-formed JSON.
\<close>

theorem decision_reaches_operator:
  assumes "redis_ok R" "window_law R" "read_ok P" "stream cfg \<noteq> result cfg"
    and "entry_event L entry = Some event" "decision_to_json L (score (exp64 L) m event) = Some decision"
    and "json_valid decision" "entry_command L m cfg entry = Some (c, flag)"
    and "run_finish R c s = (RArr [RInt 1, RBulk ''''], s1)"
    and "signature_valid G (secret gw) path sig"
    and "handle_decisions G P gw (result cfg) R Up path sig (t, s1) = (page, t2, s2)"
  shows "\<exists>earlier. page = Decisions (decision # earlier)"
proof -
  have c: "fst c ! 0 = stream cfg" "fst c ! 1 = result cfg" "snd c ! 4 = decision"
    using entry_command_event [OF assms(5,6), of cfg] assms(8) by auto
  have apart: "fst c ! 1 \<noteq> fst c ! 0" using c assms(4) by simp
  have run: "finish R (fst c) (snd c) s = (RArr [RInt 1, RBulk ''''], s1)" using assms(9) by (simp add: run_finish_def)
  obtain d where "published (fst c) (snd c) (view R s) d" and v: "view R s1 = removed (fst c) (snd c) d"
    by (rule finish_cases [OF assms(1) run]) auto
  from published_newest [OF this(1) apart] obtain st i es where
    st: "stream_at (view R s1) (result cfg) = Some st"
    and es: "entries st = es @ [(i, [(''event_id'', snd c ! 2), (''decision'', decision)])]"
    unfolding v c by blast
  have "\<exists>earlier. window st = decision # earlier"
    using assms(7) by (simp add: window_def es row_of_def decision_rows_Cons)
  with decisions_page(2) [OF assms(2,3,10,11)] st show ?thesis by auto
qed

section \<open>Queries on the reference server\<close>

lemma mem_window: "window_law mem"
  by (auto simp: window_law_def mem_exec_def split: option.splits)

definition demo_reads :: read_libs where
  "demo_reads =
     \<lparr>int_reply = (\<lambda>r. case r of RInt n \<Rightarrow> Some n | _ \<Rightarrow> None),
      rows_reply = (\<lambda>r. case r of RArr es \<Rightarrow> map_option (map row_of) (those (map dec_entry es)) | _ \<Rightarrow> None)\<rparr>"

lemma demo_reads_ok: "read_ok demo_reads"
proof -
  have "those (map (dec_entry \<circ> enc_entry) es) = Some es" for es by (induction es) simp_all
  then show ?thesis by (simp add: read_ok_def demo_reads_def)
qed

text \<open>The sample decision, published from the sample entry, and the page that shows it.\<close>

definition plain_libs :: libs where
  "plain_libs = demo_libs\<lparr>decision_to_json := (\<lambda>_. Some ''{}'')\<rparr>"

abbreviation plain_call :: finish_call where
  "plain_call \<equiv> (demo_keys, [''risk-workers'', ''1-0'', ''test'', dec 86400, ''{}''])"

lemma plain_event: "entry_event plain_libs demo_entry = Some sample_event"
  by (simp add: entry_event_def plain_libs_def demo_libs_def demo_entry_def sample_event_valid)

lemma plain_command: "entry_command plain_libs artifact demo_config demo_entry = Some (plain_call, False)"
  using entry_command_event [OF plain_event, of artifact "''{}''" demo_config]
  by (simp add: plain_libs_def demo_libs_def demo_config_def demo_entry_def demo_keys_def sample_event_def)

lemma plain_run: "fst (run_finish mem plain_call demo_db) = RArr [RInt 1, RBulk '''']"
  by (simp add: run_finish_def run_script demo_keys_def demo_db_def ttl_ok_dec [unfolded ttl_ok_def] ttl_ok_def db_xadd_def
      db_xack_def db_xdel_def empty_stream_def mem_id_def Let_def)

theorem decision_reaches_operator_witness:
  "\<exists>earlier. fst (handle_decisions demo_go demo_reads demo_gateway (result demo_config) mem Up ''/v1/decisions'' ''4b''
     (no_telemetry, snd (run_finish mem plain_call demo_db))) = Decisions (''{}'' # earlier)"
proof -
  have run: "run_finish mem plain_call demo_db =
      (RArr [RInt 1, RBulk ''''], snd (run_finish mem plain_call demo_db))"
    using plain_run by (metis prod.collapse)
  have sig: "signature_valid demo_go (secret demo_gateway) ''/v1/decisions'' ''4b''"
    unfolding signature_valid_def demo_hex by (simp add: demo_go_def demo_gateway_def)
  obtain page t2 s2 where h: "handle_decisions demo_go demo_reads demo_gateway (result demo_config) mem Up
      ''/v1/decisions'' ''4b'' (no_telemetry, snd (run_finish mem plain_call demo_db)) = (page, t2, s2)"
    by (metis prod_cases3)
  have "decision_to_json plain_libs (score (exp64 plain_libs) artifact sample_event) = Some ''{}''"
    by (simp add: plain_libs_def)
  moreover have "json_valid ''{}''" by code_simp
  moreover have "stream demo_config \<noteq> result demo_config" by (simp add: demo_config_def)
  ultimately show ?thesis
    using decision_reaches_operator [OF mem_ok mem_window demo_reads_ok _ plain_event _ _ plain_command run sig h]
    unfolding h by simp
qed

theorem operator_reads_witness:
  "fst (handle_decisions demo_go demo_reads demo_gateway ''risk_decisions'' mem Up ''/v1/decisions'' ''wrong''
       (no_telemetry, demo_db)) = Refused_read 401 \<and>
   fst (handle_status demo_go demo_reads demo_gateway mem Up ''/v1/status'' ''4b'' (no_telemetry, demo_db)) = Outstanding 1"
proof -
  have bad: "\<not> signature_valid demo_go (secret demo_gateway) ''/v1/decisions'' ''wrong''"
    and good: "signature_valid demo_go (secret demo_gateway) ''/v1/status'' ''4b''"
    unfolding signature_valid_def demo_hex by (simp_all add: demo_go_def demo_gateway_def)
  obtain a1 t1 s1 p1 t2 s2 where
    h: "handle_status demo_go demo_reads demo_gateway mem Up ''/v1/decisions'' ''wrong'' (no_telemetry, demo_db) = (a1, t1, s1)"
       "handle_decisions demo_go demo_reads demo_gateway ''risk_decisions'' mem Up ''/v1/decisions'' ''wrong''
          (no_telemetry, demo_db) = (p1, t2, s2)"
    by (metis prod_cases3)
  obtain a3 t3 s3 p3 t4 s4 where
    g: "handle_status demo_go demo_reads demo_gateway mem Up ''/v1/status'' ''4b'' (no_telemetry, demo_db) = (a3, t3, s3)"
       "handle_decisions demo_go demo_reads demo_gateway ''risk_decisions'' mem Up ''/v1/status'' ''4b''
          (no_telemetry, demo_db) = (p3, t4, s4)"
    by (metis prod_cases3)
  have "p1 = Refused_read 401" using operator_reads [OF mem_ok mem_window demo_reads_ok h] bad by simp
  moreover have "a3 = Outstanding 1"
    using operator_reads [OF mem_ok mem_window demo_reads_ok g] good
    by (simp add: demo_gateway_def demo_db_def stream_at_def)
  ultimately show ?thesis by (simp add: h g)
qed

end
