(* ===== verification/Serve.thy ===== *)
theory Serve
  imports Operator
begin

text \<open>
  The gateway as a whole (\<open>routes\<close> of \<open>internal/server/server.go\<close> and \<open>handleHome\<close> of \<open>operator.go\<close>): which
  handler a request reaches, and what one request does to the counters and to the server.
\<close>

section \<open>Routes\<close>

datatype endpoint = Home | StatusQuery | DecisionsQuery | Events | Healthz | Readyz | MetricsText | MethodNotAllowed

text \<open>
  The patterns of \<open>routes\<close> under the rules of \<open>http.ServeMux\<close>: \<open>GET\<close> also matches \<open>HEAD\<close>, the pattern \<open>/\<close> matches
  every path, the more specific pattern wins, and a path that matches under another method only is answered
  405. Paths are in the canonical form to which the library redirects all others.
\<close>

definition route :: "string \<Rightarrow> string \<Rightarrow> endpoint" where
  "route meth path =
     (if meth = ''GET'' \<or> meth = ''HEAD'' then
        if path = ''/v1/status'' then StatusQuery
        else if path = ''/v1/decisions'' then DecisionsQuery
        else if path = ''/healthz'' then Healthz
        else if path = ''/readyz'' then Readyz
        else if path = ''/metrics'' then MetricsText
        else Home
      else if meth = ''POST'' \<and> path = ''/v1/events'' then Events
      else MethodNotAllowed)"

record http_request =
  meth :: string
  url_path :: string
  content :: request

section \<open>One request\<close>

definition page_code :: "page \<Rightarrow> nat" where
  "page_code p = (case p of Refused_read code \<Rightarrow> code | _ \<Rightarrow> 200)"

definition handle_home :: "string \<Rightarrow> nat" where
  "handle_home path = (if path = ''/'' then 200 else 404)"

definition pinged :: "reply option \<Rightarrow> bool" where
  "pinged r = (case r of None \<Rightarrow> False | Some (RErr e) \<Rightarrow> False | Some _ \<Rightarrow> True)"

definition serve ::
  "go_libs \<Rightarrow> read_libs \<Rightarrow> gateway \<Rightarrow> string \<Rightarrow> 's server \<Rightarrow> http_request \<Rightarrow> telemetry \<times> 's \<Rightarrow>
   nat \<times> telemetry \<times> 's" where
  "serve G P gw results R q w =
     (let c = content q; path = url_path q in
      case route (meth q) path of
        Home \<Rightarrow> (handle_home path, w)
      | StatusQuery \<Rightarrow>
          (case handle_status G P gw R (connection c) path (signature c) w of (p, w') \<Rightarrow> (page_code p, w'))
      | DecisionsQuery \<Rightarrow>
          (case handle_decisions G P gw results R (connection c) path (signature c) w of (p, w') \<Rightarrow> (page_code p, w'))
      | Events \<Rightarrow>
          (case handle_event G gw R (connection c) (body c) (signature c) (snd w) of
             (answer, s') \<Rightarrow> (fst answer, count_event answer (fst w), s'))
      | Healthz \<Rightarrow> (200, w)
      | Readyz \<Rightarrow>
          (case ask R (connection c) [''PING''] (snd w) of
             (r, s') \<Rightarrow> (case handle_ready (pinged r) (fst w) of (code, t') \<Rightarrow> (code, t', s')))
      | MetricsText \<Rightarrow> (200, w)
      | MethodNotAllowed \<Rightarrow> (405, w))"

text \<open>\<open>PING\<close> leaves the data set alone.\<close>

definition ping_law :: "'s server \<Rightarrow> bool" where
  "ping_law R \<longleftrightarrow> (\<forall>s. view R (snd (exec R [''PING''] s)) = view R s)"

section \<open>What writes\<close>

lemma admit_writes:
  assumes "redis_ok R" "admit G gw R l i p s = (out, s')" "view R s' \<noteq> view R s"
  shows "\<exists>x. admitted (admit_call G gw i p) (view R s) x (view R s')"
proof -
  obtain r t where run: "run_admit R (admit_call G gw i p) s = (r, t)" by (cases "run_admit R (admit_call G gw i p) s")
  then have "s' = t" using assms(2,3) by (auto simp: admit_def split: link.splits if_splits)
  with run assms(3) show ?thesis
    by (cases rule: run_admit_cases [OF assms(1) run, case_names prior full accepted failed]) auto
qed

lemma event_writes:
  assumes "redis_ok R" "handle_event G gw R l input sig s = (answer, s')" "view R s' \<noteq> view R s"
  shows "\<exists>bytes event x. input = Body bytes \<and> signature_valid G (secret gw) bytes sig \<and>
     decode bytes = Some (Inr event) \<and> admitted (admit_call G gw (event_id event) (marshal event)) (view R s) x (view R s')"
proof (cases "\<exists>bytes event. input = Body bytes \<and> signature_valid G (secret gw) bytes sig \<and> decode bytes = Some (Inr event)")
  case True
  then obtain bytes event where ev: "input = Body bytes" "signature_valid G (secret gw) bytes sig"
    "decode bytes = Some (Inr event)" by blast
  obtain out t where adm: "admit G gw R l (event_id event) (marshal event) s = (out, t)" by fastforce
  then have "s' = t" using assms(2) ev
    by (auto simp: handle_event_def split: sum.splits admit_error.splits)
  with admit_writes [OF assms(1) adm] assms(3) ev show ?thesis by blast
next
  case False
  then have "s' = s" using assms(2)
    by (auto simp: handle_event_def split: body_read.splits if_splits option.splits sum.splits)
  with assms(3) show ?thesis by simp
qed

lemma status_keeps:
  assumes "redis_ok R" "handle_status G P gw R l path sig (t, s) = (p, t', s')"
  shows "view R s' = view R s"
proof -
  obtain r s1 where a: "ask R l [''XLEN'', g_stream gw] s = (r, s1)" by fastforce
  then have "s' = s \<or> s' = s1"
    using assms(2) by (auto simp: handle_status_def authorized_read_def split: option.splits if_splits)
  with ask_length(1) [OF assms(1) a] show ?thesis by auto
qed

lemma decisions_keep:
  assumes "window_law R" "handle_decisions G P gw results R l path sig (t, s) = (p, t', s')"
  shows "view R s' = view R s"
proof -
  obtain r s1 where a: "ask R l [''XREVRANGE'', results, ''+'', ''-'', ''COUNT'', ''50''] s = (r, s1)" by fastforce
  then have "s' = s \<or> s' = s1"
    using assms(2) by (auto simp: handle_decisions_def authorized_read_def split: option.splits if_splits)
  with ask_window(1) [OF assms(1) a] show ?thesis by auto
qed

lemma ping_keeps:
  assumes "ping_law R"
  shows "view R (snd (ask R l [''PING''] s)) = view R s"
  using assms [unfolded ping_law_def, rule_format, of s]
  by (auto simp: ask_def request_def Let_def split: prod.splits link.splits if_splits)

text \<open>
  C11. Only admission writes: when any request at all, with any method, path, body and signature, changes
  the data set, it is a \<open>POST\<close> to \<open>/v1/events\<close> whose body carries a valid signature and a valid event, and the
  change is exactly the admission of this event: its marker and one new entry of the input stream.
\<close>

theorem only_admission_writes:
  assumes "redis_ok R" "window_law R" "ping_law R"
    and "serve G P gw results R q (t, s) = (code, t', s')" "view R s' \<noteq> view R s"
  shows "meth q = ''POST'' \<and> url_path q = ''/v1/events'' \<and>
     (\<exists>bytes event x. body (content q) = Body bytes \<and> signature_valid G (secret gw) bytes (signature (content q)) \<and>
        decode bytes = Some (Inr event) \<and> valid event \<and>
        admitted (admit_call G gw (event_id event) (marshal event)) (view R s) x (view R s'))"
proof (cases "route (meth q) (url_path q)")
  case Events
  then obtain answer where "handle_event G gw R (connection (content q)) (body (content q)) (signature (content q)) s = (answer, s')"
    using assms(4) by (auto simp: serve_def Let_def split: prod.splits)
  from event_writes [OF assms(1) this assms(5)] decode_valid have
    "\<exists>bytes event x. body (content q) = Body bytes \<and> signature_valid G (secret gw) bytes (signature (content q)) \<and>
        decode bytes = Some (Inr event) \<and> valid event \<and>
        admitted (admit_call G gw (event_id event) (marshal event)) (view R s) x (view R s')"
    by blast
  with Events show ?thesis by (auto simp: route_def split: if_splits)
next
  case StatusQuery
  then show ?thesis using assms(4,5) status_keeps [OF assms(1)] by (auto simp: serve_def Let_def split: prod.splits)
next
  case DecisionsQuery
  then show ?thesis using assms(4,5) decisions_keep [OF assms(2)] by (auto simp: serve_def Let_def split: prod.splits)
next
  case Readyz
  then have "s' = snd (ask R (connection (content q)) [''PING''] s)"
    using assms(4) by (auto simp: serve_def Let_def split: prod.splits)
  then show ?thesis using ping_keeps [OF assms(3)] assms(5) by simp
qed (use assms(4,5) in \<open>auto simp: serve_def Let_def\<close>)

section \<open>A request on the reference server\<close>

definition demo_post :: http_request where
  "demo_post = \<lparr>meth = ''POST'', url_path = ''/v1/events'',
     content = \<lparr>body = Body demo_payload, signature = ''4b'', connection = Up\<rparr>\<rparr>"

lemma accepted_marked:
  assumes "redis_ok R" "handle_event G gw R l input sig s = ((202, dup), s')"
  shows "\<exists>k. view R s' k \<noteq> None"
proof (cases rule: handle_event_cases [OF assms(2), case_names rejected conflict unavailable admitted])
  case (admitted bytes event a)
  then have "view R s' (g_stream gw @ '':idempotency:'' @ event_id event) = Some (VStr (sha256_hex G (marshal event)))"
    using admit_reply(1) [OF assms(1) admitted(4)] admitted_state(1) by blast
  then show ?thesis by blast
qed simp_all

lemma mem_ping: "ping_law mem"
  by (simp add: ping_law_def mem_exec_def)

theorem only_admission_writes_witness:
  "\<exists>code t s' event x.
     serve demo_go demo_reads demo_gateway ''risk_decisions'' mem demo_post (no_telemetry, Map.empty) = (code, t, s') \<and>
     s' \<noteq> Map.empty \<and> decode demo_payload = Some (Inr event) \<and>
     admitted (admit_call demo_go demo_gateway (event_id event) (marshal event)) Map.empty x s'"
proof -
  obtain d where h: "handle_event demo_go demo_gateway mem Up (Body demo_payload) ''4b'' Map.empty = ((202, False), d)"
    by (rule demo_handle)
  have run: "serve demo_go demo_reads demo_gateway ''risk_decisions'' mem demo_post (no_telemetry, Map.empty) =
      (202, count_event (202, False) no_telemetry, d)"
    by (simp add: serve_def demo_post_def route_def h Let_def)
  have "d \<noteq> Map.empty" using accepted_marked [OF mem_ok h] by auto
  then have change: "view mem d \<noteq> view mem Map.empty" by simp
  from only_admission_writes [OF mem_ok mem_window mem_ping run change]
  obtain event x where "decode demo_payload = Some (Inr event)"
    "admitted (admit_call demo_go demo_gateway (event_id event) (marshal event)) (view mem Map.empty) x (view mem d)"
    by (auto simp: demo_post_def)
  with run change show ?thesis unfolding mem_view by blast
qed

end
