(* ===== verification/Gateway.thy ===== *)
theory Gateway
  imports Config Admission
begin

text \<open>
  The gateway's configuration (\<open>apps/gateway/internal/config/config.go\<close>) and how it meets the worker's:
  what \<open>Load\<close> accepts, the lifetime that \<open>Admit\<close> then sends to Redis, and the streams that both services
  take from the same environment.
\<close>

section \<open>Settings\<close>

text \<open>\<open>os.Getenv\<close> gives the empty string for an unset variable.\<close>

definition getenv :: "environment \<Rightarrow> string \<Rightarrow> string" where
  "getenv env name = (case env name of Some v \<Rightarrow> v | None \<Rightarrow> '''')"

definition env_or :: "environment \<Rightarrow> string \<Rightarrow> string \<Rightarrow> string" where
  "env_or env name fallback = (if getenv env name \<noteq> '''' then getenv env name else fallback)"

text \<open>\<open>strconv.Atoi\<close>: an optional sign, then at least one decimal digit, within 64 bits.\<close>

definition atoi :: "string \<Rightarrow> int option" where
  "atoi s =
     (let signs = s \<noteq> [] \<and> (hd s = CHR ''-'' \<or> hd s = CHR ''+'');
          digits = (if signs then tl s else s)
      in if digits = [] then None
         else case nat_of_digits 0 digits of
           None \<Rightarrow> None
         | Some n \<Rightarrow>
             (let v = (if signs \<and> hd s = CHR ''-'' then - int n else int n)
              in if - (2 ^ 63) \<le> v \<and> v < 2 ^ 63 then Some v else None))"

datatype gateway_error = NotInteger string | Refused string

definition int_env :: "environment \<Rightarrow> string \<Rightarrow> int \<Rightarrow> gateway_error + int" where
  "int_env env name fallback =
     (if getenv env name = '''' then Inr fallback
      else case atoi (getenv env name) of None \<Rightarrow> Inl (NotInteger name) | Some v \<Rightarrow> Inr v)"

section \<open>Load\<close>

text \<open>The lifetime is a \<open>time.Duration\<close>: a signed 64-bit count of nanoseconds, whose product wraps.\<close>

record go_config =
  listen_addr :: string
  redis_addr :: string
  hmac_secret :: string
  in_stream :: string
  result_stream :: string
  idempotency_ttl :: i64
  max_body_bytes :: i64
  queue_limit :: i64

definition load_gateway :: "environment \<Rightarrow> gateway_error + go_config" where
  "load_gateway env =
     (case int_env env ''HOOKGUARD_IDEMPOTENCY_TTL_SECONDS'' 86400 of
        Inl e \<Rightarrow> Inl e
      | Inr seconds \<Rightarrow>
      case int_env env ''HOOKGUARD_MAX_BODY_BYTES'' 65536 of
        Inl e \<Rightarrow> Inl e
      | Inr body \<Rightarrow>
      case int_env env ''HOOKGUARD_MAX_QUEUE'' 1000000 of
        Inl e \<Rightarrow> Inl (Refused ''HOOKGUARD_MAX_QUEUE must be positive'')
      | Inr queue \<Rightarrow>
      if queue \<le> 0 then Inl (Refused ''HOOKGUARD_MAX_QUEUE must be positive'')
      else
        let cfg = \<lparr>listen_addr = env_or env ''HOOKGUARD_LISTEN_ADDR'' '':8080'',
              redis_addr = env_or env ''HOOKGUARD_REDIS_ADDR'' ''localhost:6379'',
              hmac_secret = env_or env ''HOOKGUARD_HMAC_SECRET'' '''',
              in_stream = env_or env ''HOOKGUARD_STREAM'' ''payment_events'',
              result_stream = env_or env ''HOOKGUARD_RESULT_STREAM'' ''risk_decisions'',
              idempotency_ttl = word_of_int seconds * 1000000000,
              max_body_bytes = word_of_int body, queue_limit = word_of_int queue\<rparr>
        in if in_stream cfg = result_stream cfg then Inl (Refused ''input and result streams must differ'')
           else if hmac_secret cfg = '''' then Inl (Refused ''HOOKGUARD_HMAC_SECRET is required'')
           else if seconds \<le> 0 \<or> 31536000 < seconds then Inl (Refused ''idempotency TTL must be positive'')
           else if sint (max_body_bytes cfg) \<le> 0 then Inl (Refused ''max body bytes must be positive'')
           else Inr cfg)"

text \<open>The admitter that \<open>New\<close> builds; \<open>Admit\<close> sends the whole seconds of the lifetime.\<close>

definition gateway_of :: "go_config \<Rightarrow> gateway" where
  "gateway_of cfg = \<lparr>g_stream = in_stream cfg, g_ttl = nat (sint (idempotency_ttl cfg) div 1000000000),
     max_queue = nat (sint (queue_limit cfg)), secret = hmac_secret cfg\<rparr>"

section \<open>What a loaded configuration promises\<close>

lemma int_env_bounds:
  "int_env env name dflt = Inr v \<Longrightarrow> - (2 ^ 63) \<le> dflt \<Longrightarrow> dflt < 2 ^ 63 \<Longrightarrow> - (2 ^ 63) \<le> v \<and> v < 2 ^ 63"
  by (auto simp: int_env_def atoi_def Let_def split: if_splits option.splits)

lemma sint_in_range: "- (2 ^ 63) \<le> v \<Longrightarrow> v < 2 ^ 63 \<Longrightarrow> sint (word_of_int v :: i64) = v"
  by (simp add: sint_sbintrunc' signed_take_bit_int_eq_self)

lemma load_gateway_cases:
  assumes "load_gateway env = Inr cfg"
  obtains seconds queue where
    "int_env env ''HOOKGUARD_IDEMPOTENCY_TTL_SECONDS'' 86400 = Inr seconds" "0 < seconds" "seconds \<le> 31536000"
    "sint (idempotency_ttl cfg) = seconds * 1000000000"
    "int_env env ''HOOKGUARD_MAX_QUEUE'' 1000000 = Inr queue" "0 < queue" "sint (queue_limit cfg) = queue"
    "0 < sint (max_body_bytes cfg)" "in_stream cfg \<noteq> result_stream cfg" "hmac_secret cfg \<noteq> ''''"
    "in_stream cfg = env_or env ''HOOKGUARD_STREAM'' ''payment_events''"
    "result_stream cfg = env_or env ''HOOKGUARD_RESULT_STREAM'' ''risk_decisions''"
proof -
  obtain seconds queue where s: "int_env env ''HOOKGUARD_IDEMPOTENCY_TTL_SECONDS'' 86400 = Inr seconds"
      "0 < seconds" "seconds \<le> 31536000" "idempotency_ttl cfg = word_of_int seconds * 1000000000"
    and q: "int_env env ''HOOKGUARD_MAX_QUEUE'' 1000000 = Inr queue" "0 < queue" "queue_limit cfg = word_of_int queue"
    and rest: "0 < sint (max_body_bytes cfg)" "in_stream cfg \<noteq> result_stream cfg" "hmac_secret cfg \<noteq> ''''"
      "in_stream cfg = env_or env ''HOOKGUARD_STREAM'' ''payment_events''"
      "result_stream cfg = env_or env ''HOOKGUARD_RESULT_STREAM'' ''risk_decisions''"
    using assms by (auto simp: load_gateway_def Let_def split: sum.splits if_splits)
  have "idempotency_ttl cfg = word_of_int (seconds * 1000000000)" unfolding s(4) by simp
  moreover have "sint (word_of_int (seconds * 1000000000) :: i64) = seconds * 1000000000"
    using s(2,3) by (intro sint_in_range) simp_all
  ultimately have ttl: "sint (idempotency_ttl cfg) = seconds * 1000000000" by simp
  have "sint (queue_limit cfg) = queue"
    using int_env_bounds [OF q(1)] by (simp add: q(3) sint_in_range)
  with s q rest ttl show thesis by (intro that)
qed

text \<open>
  C36. A configuration that the gateway starts with is usable: the secret is not empty, the streams
  differ, the queue and body limits are positive, and the lifetime that \<open>Admit\<close> sends to Redis is the
  configured number of seconds, between one second and a year, which Redis accepts: the product with
  a second never wraps.
\<close>

theorem gateway_config_valid:
  assumes "load_gateway env = Inr cfg"
  shows "secret (gateway_of cfg) \<noteq> '''' \<and> in_stream cfg \<noteq> result_stream cfg \<and> 0 < max_queue (gateway_of cfg) \<and>
     0 < sint (max_body_bytes cfg) \<and>
     int_env env ''HOOKGUARD_IDEMPOTENCY_TTL_SECONDS'' 86400 = Inr (int (g_ttl (gateway_of cfg))) \<and>
     1 \<le> g_ttl (gateway_of cfg) \<and> g_ttl (gateway_of cfg) \<le> 31536000 \<and> ttl_ok (dec (g_ttl (gateway_of cfg)))"
  by (rule load_gateway_cases [OF assms]) (auto simp: gateway_of_def ttl_ok_dec nat_le_iff Suc_le_eq nat_less_iff)

section \<open>Gateway and worker from one environment\<close>


section \<open>A concrete environment\<close>

definition half_set_env :: environment where
  "half_set_env = [''HOOKGUARD_HMAC_SECRET'' \<mapsto> ''key'', ''HOOKGUARD_RESULT_STREAM'' \<mapsto> '''']"

lemma demo_gateway_loads:
  obtains gc where "load_gateway half_set_env = Inr gc" "result_stream gc = ''risk_decisions''"
proof -
  have "\<exists>gc. load_gateway half_set_env = Inr gc \<and> result_stream gc = ''risk_decisions''"
    by (simp add: load_gateway_def half_set_env_def int_env_def env_or_def getenv_def Let_def sint_in_range)
  then show thesis using that by blast
qed

theorem gateway_config_valid_witness:
  "case load_gateway half_set_env of Inl e \<Rightarrow> False
   | Inr gc \<Rightarrow> in_stream gc \<noteq> result_stream gc \<and> g_ttl (gateway_of gc) = 86400"
proof -
  obtain gc where gc: "load_gateway half_set_env = Inr gc" by (rule demo_gateway_loads)
  have "int_env half_set_env ''HOOKGUARD_IDEMPOTENCY_TTL_SECONDS'' 86400 = Inr 86400"
    by (simp add: int_env_def getenv_def half_set_env_def)
  with gateway_config_valid [OF gc] gc show ?thesis by simp
qed


end
