(* ===== verification/System.thy ===== *)
theory System
  imports Startup Admission
begin

text \<open>
  Gateways and workers together over one Redis server: any number of gateways admit events, any number
  of workers are handed entries and complete them, entries are redelivered, scripts run late, answers are
  lost, and other clients act as long as they leave the pipeline's keys alone. Within the retention time
  of the markers every admitted event gets exactly one decision.
\<close>

section \<open>The world\<close>

text \<open>
  Besides the server, the history: admissions (event, canonical bytes, entry), the entries that were ever
  handed to a worker, and the completion scripts that ran with their replies.
\<close>

record 's world =
  srv :: 's
  admissions :: "(string \<times> string \<times> string) list"
  handed :: "stream_entry set"
  completions :: "(stream_entry \<times> reply) list"

definition event_fields :: "string \<Rightarrow> string \<Rightarrow> (string \<times> string) list" where
  "event_fields i p = [(''event_id'', i), (''payload'', p)]"

definition admitted_entry :: "string \<Rightarrow> reply \<Rightarrow> string" where
  "admitted_entry dflt r = (case r of RArr [RInt n, RBulk x] \<Rightarrow> x | _ \<Rightarrow> dflt)"

text \<open>Other clients leave the input stream and every key below it alone.\<close>

definition untouched :: "config \<Rightarrow> db \<Rightarrow> db \<Rightarrow> bool" where
  "untouched cfg d d' \<longleftrightarrow> d' (stream cfg) = d (stream cfg) \<and> (\<forall>k \<in> all_markers cfg. d' k = d k)"

inductive world_step ::
  "'s server \<Rightarrow> libs \<Rightarrow> model \<Rightarrow> config \<Rightarrow> go_libs \<Rightarrow> gateway \<Rightarrow> 's world \<Rightarrow> 's world \<Rightarrow> bool"
  for R L m cfg G gw where
  admit: "decode body = Some (Inr e) \<Longrightarrow>
     run_admit R (admit_call G gw (event_id e) (marshal e)) (srv w) = (r, s') \<Longrightarrow>
     world_step R L m cfg G gw w
       (w\<lparr>srv := s',
          admissions := (if first_admission r then (event_id e, marshal e, admitted_entry '''' r) # admissions w
                         else admissions w)\<rparr>)"
| hand_out: "argv = read_argv cfg \<or> argv = group_argv cfg \<or> (\<exists>cur. argv = claim_argv cfg cur) \<Longrightarrow>
     es \<subseteq> {e. queued (view R (srv w)) (stream cfg) e} \<Longrightarrow>
     world_step R L m cfg G gw w (w\<lparr>srv := snd (exec R argv (srv w)), handed := handed w \<union> es\<rparr>)"
| complete: "entry \<in> handed w \<Longrightarrow> entry_command L m cfg entry = Some (c, flag) \<Longrightarrow>
     run_eval R c (srv w) = (r, s') \<Longrightarrow>
     world_step R L m cfg G gw w (w\<lparr>srv := s', completions := (entry, r) # completions w\<rparr>)"
| others: "untouched cfg (view R (srv w)) (view R s') \<Longrightarrow> world_step R L m cfg G gw w (w\<lparr>srv := s'\<rparr>)"

definition initial_world :: "'s server \<Rightarrow> config \<Rightarrow> 's world \<Rightarrow> bool" where
  "initial_world R cfg w \<longleftrightarrow>
     (\<exists>st. stream_at (view R (srv w)) (stream cfg) = Some st \<and> entries st = []) \<and>
     (\<forall>k \<in> all_markers cfg. view R (srv w) k = None) \<and>
     admissions w = [] \<and> handed w = {} \<and> completions w = []"

inductive reachable ::
  "'s server \<Rightarrow> libs \<Rightarrow> model \<Rightarrow> config \<Rightarrow> go_libs \<Rightarrow> gateway \<Rightarrow> 's world \<Rightarrow> bool"
  for R L m cfg G gw where
  start: "initial_world R cfg w \<Longrightarrow> reachable R L m cfg G gw w"
| step: "reachable R L m cfg G gw w \<Longrightarrow> world_step R L m cfg G gw w w' \<Longrightarrow> reachable R L m cfg G gw w'"

text \<open>
  What the deployment relies on: the documented server, one stream name on both sides, output streams
  that are neither the input nor below it, and canonical bytes that the worker's JSON library reads as the
  event they were written for.
\<close>

definition deployment_ok :: "'s server \<Rightarrow> libs \<Rightarrow> config \<Rightarrow> go_libs \<Rightarrow> gateway \<Rightarrow> bool" where
  "deployment_ok R L cfg G gw \<longleftrightarrow>
     redis_ok R \<and> delivery_ok R cfg \<and> g_stream gw = stream cfg \<and> streams_apart cfg \<and>
     result cfg \<notin> all_markers cfg \<and> result cfg @ '':dead'' \<notin> all_markers cfg \<and>
     (\<forall>x i p. entry_get L (x, event_fields i p) ''payload'' = Some p) \<and>
     (\<forall>e. valid e \<longrightarrow> event_of_json L (marshal e) = Some e)"

section \<open>The data set between the steps\<close>

definition completed_key :: "config \<Rightarrow> string \<Rightarrow> string" where
  "completed_key cfg i = stream cfg @ '':completed:'' @ i"

definition admission_key :: "config \<Rightarrow> string \<Rightarrow> string" where
  "admission_key cfg i = stream cfg @ '':idempotency:'' @ i"

lemma keys_below [simp]: "completed_key cfg i \<in> all_markers cfg" "admission_key cfg i \<in> all_markers cfg"
  and keys_differ [simp]: "completed_key cfg i \<noteq> admission_key cfg j" "admission_key cfg j \<noteq> completed_key cfg i"
  and keys_inject [simp]: "completed_key cfg i = completed_key cfg j \<longleftrightarrow> i = j"
    "admission_key cfg i = admission_key cfg j \<longleftrightarrow> i = j"
  by (auto simp: completed_key_def admission_key_def all_markers_def)

text \<open>The decisions published for an event.\<close>

definition published_for :: "libs \<Rightarrow> string \<Rightarrow> (stream_entry \<times> reply) list \<Rightarrow> nat" where
  "published_for L i cs = length (filter (\<lambda>(entry, r). r = RArr [RInt 1, RBulk ''''] \<and>
     (case entry_event L entry of Some e \<Rightarrow> event_id e = i | None \<Rightarrow> False)) cs)"

lemma published_for_Cons:
  "published_for L i ((entry, r) # cs) =
     (if r = RArr [RInt 1, RBulk ''''] \<and> (case entry_event L entry of Some e \<Rightarrow> event_id e = i | None \<Rightarrow> False)
      then Suc (published_for L i cs) else published_for L i cs)"
  by (simp add: published_for_def)

text \<open>The invariant.\<close>

definition world_inv ::
  "libs \<Rightarrow> config \<Rightarrow> go_libs \<Rightarrow> stream_state \<Rightarrow> db \<Rightarrow> (string \<times> string \<times> string) list \<Rightarrow> stream_entry set \<Rightarrow>
   (stream_entry \<times> reply) list \<Rightarrow> bool" where
  "world_inv L cfg G st d as hs cs \<longleftrightarrow>
     stream_at d (stream cfg) = Some st \<and>
     (\<forall>entry \<in> set (entries st) \<union> hs. \<exists>(i, p, x) \<in> set as. entry = (x, event_fields i p)) \<and>
     (\<forall>(i, p, x) \<in> set as. x \<in> used st \<and> is_marked d (admission_key cfg i) \<and>
        (\<exists>e. valid e \<and> p = marshal e \<and> event_id e = i)) \<and>
     distinct (map fst as) \<and> distinct (map (snd \<circ> snd) as) \<and>
     (\<forall>i. published_for L i cs = (if is_marked d (completed_key cfg i) then 1 else 0)) \<and>
     (\<forall>i. is_marked d (completed_key cfg i) \<longrightarrow> i \<in> fst ` set as) \<and>
     (\<forall>(i, p, x) \<in> set as. is_marked d (completed_key cfg i) \<longleftrightarrow> (x, event_fields i p) \<notin> set (entries st))"

section \<open>Each step keeps the invariant\<close>

lemma world_inv_start: "initial_world R cfg w \<Longrightarrow>
   \<exists>st. world_inv L cfg G st (view R (srv w)) (admissions w) (handed w) (completions w)"
  by (fastforce simp: initial_world_def world_inv_def is_marked_def published_for_def)

text \<open>Only the groups of the stream and keys that are not below it changed.\<close>

lemma world_inv_cong:
  assumes inv: "world_inv L cfg G st d as hs cs"
    and "stream_at d' (stream cfg) = Some st'" "entries st' = entries st" "used st' = used st"
    and marks: "\<And>k. k \<in> all_markers cfg \<Longrightarrow> is_marked d' k = is_marked d k"
    and "hs' \<subseteq> hs \<union> set (entries st)" "\<And>i. published_for L i cs' = published_for L i cs"
  shows "world_inv L cfg G st' d' as hs' cs'"
proof -
  have "is_marked d' (completed_key cfg i) = is_marked d (completed_key cfg i)"
    "is_marked d' (admission_key cfg i) = is_marked d (admission_key cfg i)" for i
    by (rule marks, simp)+
  then show ?thesis using inv assms(2-4,6,7) unfolding world_inv_def by (simp add: subset_eq) blast
qed

lemma world_inv_admit:
  assumes inv: "world_inv L cfg G st d as hs cs" and gw: "g_stream gw = stream cfg"
    and ev: "valid e" "p = marshal e"
    and free: "d (admission_key cfg (event_id e)) = None"
    and adm: "admitted (admit_call G gw (event_id e) p) d x d'"
  shows "\<exists>st'. world_inv L cfg G st' d' ((event_id e, p, x) # as) hs cs"
proof -
  let ?i = "event_id e"
  let ?st = "st\<lparr>entries := entries st @ [(x, event_fields ?i p)], used := insert x (used st)\<rparr>"
  have st: "stream_at d (stream cfg) = Some st" using inv by (simp add: world_inv_def)
  have key: "stream_at (d(admission_key cfg ?i \<mapsto> v)) (stream cfg) = Some st" for v
    using st by (simp add: stream_at_def admission_key_def)
  then have x: "x \<notin> used st"
    and d': "d' = db_xadd (stream cfg) x (event_fields ?i p) 0 st (d(admission_key cfg ?i \<mapsto> VStr (sha256_hex G p)))"
    using adm by (auto simp: admitted_def admit_call_def gw event_fields_def admission_key_def)
  have marks: "is_marked d' k \<longleftrightarrow> k = admission_key cfg ?i \<or> is_marked d k" for k
    unfolding d' by (simp add: is_marked_xadd [OF key])
  have at: "stream_at d' (stream cfg) = Some ?st" by (simp add: d' db_xadd_def stream_at_def)
  have fresh: "?i \<notin> fst ` set as"
    using inv free by (force simp: world_inv_def is_marked_def)
  have used: "x \<noteq> y" if "(j, q, y) \<in> set as" for j q y
    using inv that x by (fastforce simp: world_inv_def)
  have unmarked: "\<not> is_marked d (completed_key cfg ?i)" using inv fresh by (auto simp: world_inv_def)
  have "world_inv L cfg G ?st d' ((?i, p, x) # as) hs cs"
    using inv fresh used unmarked ev unfolding world_inv_def
    by (simp add: at marks) fastforce
  then show ?thesis by blast
qed

text \<open>The completion of an entry: whether it published or was a repetition, its marker is set and it is gone.\<close>

lemma world_inv_complete:
  assumes inv: "world_inv L cfg G st d as hs cs" and a: "(i, p, x) \<in> set as"
    and st': "stream_at d' (stream cfg) = Some st'" "entries st' = filter (\<lambda>e. fst e \<noteq> x) (entries st)" "used st' = used st"
    and marks: "\<And>k. is_marked d' k \<longleftrightarrow> k = completed_key cfg i \<or> is_marked d k"
    and count: "\<And>j. published_for L j cs' =
      (if j = i \<and> \<not> is_marked d (completed_key cfg i) then 1 else published_for L j cs)"
  shows "world_inv L cfg G st' d' as hs cs'"
proof -
  have same: "j = i \<and> q = p" if "(j, q, x) \<in> set as" for j q
    using distinct_map_eq [of "snd \<circ> snd" as "(j, q, x)" "(i, p, x)"] inv a that by (simp add: world_inv_def)
  have gone: "(y, event_fields j q) \<notin> set (entries st') \<longleftrightarrow> j = i \<or> (y, event_fields j q) \<notin> set (entries st)"
    if "(j, q, y) \<in> set as" for j q y
  proof -
    have "j = i \<longleftrightarrow> y = x"
    proof
      assume "j = i"
      then show "y = x"
        using distinct_map_eq [of fst as "(j, q, y)" "(i, p, x)"] inv a that by (simp add: world_inv_def)
    qed (use same that in blast)
    then show ?thesis by (auto simp: st'(2))
  qed
  have counts: "published_for L j cs' = (if is_marked d' (completed_key cfg j) then 1 else 0)" for j
    using inv by (simp add: count marks world_inv_def)
  have own: "is_marked d' (completed_key cfg j) \<longleftrightarrow> (y, event_fields j q) \<notin> set (entries st')"
    if "(j, q, y) \<in> set as" for j q y
    using inv that gone [OF that] by (auto simp: marks world_inv_def)
  have "\<forall>entry \<in> set (entries st') \<union> hs. \<exists>(i, p, x) \<in> set as. entry = (x, event_fields i p)"
  proof -
    have "set (entries st') \<union> hs \<subseteq> set (entries st) \<union> hs" by (auto simp: st'(2))
    then show ?thesis using inv unfolding world_inv_def by blast
  qed
  moreover have "\<forall>(i, p, x) \<in> set as. x \<in> used st' \<and> is_marked d' (admission_key cfg i) \<and>
        (\<exists>e. valid e \<and> p = marshal e \<and> event_id e = i)"
    using inv by (auto simp: world_inv_def st'(3) marks)
  moreover have "\<forall>j. is_marked d' (completed_key cfg j) \<longrightarrow> j \<in> fst ` set as"
  proof (intro allI impI)
    fix j assume "is_marked d' (completed_key cfg j)"
    then have "j = i \<or> is_marked d (completed_key cfg j)" by (simp add: marks)
    moreover have "i \<in> fst ` set as" using a by force
    ultimately show "j \<in> fst ` set as" using inv by (auto simp: world_inv_def)
  qed
  moreover have "distinct (map fst as)" "distinct (map (snd \<circ> snd) as)" using inv by (simp_all add: world_inv_def)
  moreover have "\<forall>(j, q, y) \<in> set as. is_marked d' (completed_key cfg j) \<longleftrightarrow> (y, event_fields j q) \<notin> set (entries st')"
    using own by fast
  ultimately show ?thesis
    unfolding world_inv_def using counts st'(1) by (intro conjI allI) simp_all
qed

lemma xack_stream:
  assumes "stream_at d k = Some st"
  obtains st' where "stream_at (db_xack k g i d) k = Some st'" "entries st' = entries st" "used st' = used st"
proof (cases "\<exists>gr. d k = Some (VStream st) \<and> groups st g = Some gr")
  case True
  then obtain gr where "d k = Some (VStream st)" "groups st g = Some gr" by blast
  then show thesis
    by (intro that [of "st\<lparr>groups := (groups st)(g \<mapsto> gr\<lparr>pending := (pending gr)(i := None)\<rparr>)\<rparr>"])
      (auto simp: db_xack_def stream_at_def)
next
  case False
  then have "db_xack k g i d = d"
    using assms by (auto simp: db_xack_def stream_at_def split: option.splits rval.splits)
  with assms that show thesis by simp
qed

lemma xdel_stream:
  assumes "stream_at d k = Some st"
  obtains st' where "stream_at (db_xdel k i d) k = Some st'"
    "entries st' = filter (\<lambda>e. fst e \<noteq> i) (entries st)" "used st' = used st"
proof (cases "d k")
  case None
  then have "stream_at (db_xdel k i d) k = Some st" "entries st = []"
    using assms by (auto simp: db_xdel_def stream_at_def empty_stream_def)
  then show thesis by (intro that [of st]) auto
next
  case (Some v)
  then have "v = VStream st" using assms by (auto simp: stream_at_def split: rval.splits)
  with Some show thesis
    by (intro that [of "st\<lparr>entries := filter (\<lambda>e. fst e \<noteq> i) (entries st)\<rparr>"]) (auto simp: db_xdel_def stream_at_def)
qed

lemma removed_stream:
  assumes "stream_at d (KEYS ! 0) = Some st"
  obtains st' where "stream_at (removed KEYS ARGV d) (KEYS ! 0) = Some st'"
    "entries st' = filter (\<lambda>e. fst e \<noteq> ARGV ! 1) (entries st)" "used st' = used st"
proof -
  obtain st1 where 1: "stream_at (db_xack (KEYS ! 0) (ARGV ! 0) (ARGV ! 1) d) (KEYS ! 0) = Some st1"
    "entries st1 = entries st" "used st1 = used st" by (rule xack_stream [OF assms])
  obtain st2 where 2: "stream_at (db_xdel (KEYS ! 0) (ARGV ! 1) (db_xack (KEYS ! 0) (ARGV ! 0) (ARGV ! 1) d)) (KEYS ! 0) = Some st2"
    "entries st2 = filter (\<lambda>e. fst e \<noteq> ARGV ! 1) (entries st1)" "used st2 = used st1" by (rule xdel_stream [OF 1(1)])
  show thesis by (rule that [of st2]) (simp_all only: removed_def 1 2)
qed

text \<open>What one completion script does to the stream and to the markers below it.\<close>

lemma completion_effect:
  assumes ok: "redis_ok R" "streams_apart cfg" "result cfg \<notin> all_markers cfg"
    and run: "run_eval R c s = (r, s')"
    and c: "c = ([stream cfg, result cfg, completed_key cfg i], [g, x, i', t, enc])"
    and st: "stream_at (view R s) (stream cfg) = Some st"
  obtains (same) "view R s' = view R s" "r \<noteq> RArr [RInt 1, RBulk '''']"
    | (over) st' where "stream_at (view R s') (stream cfg) = Some st'"
      "entries st' = filter (\<lambda>e. fst e \<noteq> x) (entries st)" "used st' = used st"
      "\<And>k. is_marked (view R s') k \<longleftrightarrow> k = completed_key cfg i \<or> is_marked (view R s) k"
      "r = RArr [RInt 1, RBulk ''''] \<longleftrightarrow> \<not> is_marked (view R s) (completed_key cfg i)"
proof (cases rule: run_eval_cases [OF run, case_names refused ran])
  case ran
  have fin: "finish R (fst c) (snd c) s = (r, s')" using ran by (simp add: run_finish_def)
  have k: "fst c ! 0 = stream cfg" "fst c ! 1 = result cfg" "fst c ! 2 = completed_key cfg i" "snd c ! 1 = x"
    by (simp_all add: c)
  have "completed_key cfg i \<noteq> stream cfg" by (simp add: completed_key_def)
  then have outcome: "(r = RArr [RInt 1, RBulk ''''] \<and> view R s (fst c ! 2) = None \<and>
            (\<exists>d. published (fst c) (snd c) (view R s) d \<and> view R s' = removed (fst c) (snd c) d)) \<or>
         (r = RArr [RInt 0, RBulk ''''] \<and> is_marked (view R s) (fst c ! 2) \<and>
            view R s' = removed (fst c) (snd c) (view R s)) \<or>
         ((\<exists>m. r = RArr [RInt (- 1), RBulk m]) \<and> view R s' = view R s)"
    using finish_on_stream [OF ok(1) fin] st k by simp
  then consider (first) d where "r = RArr [RInt 1, RBulk '''']" "view R s (fst c ! 2) = None"
      "published (fst c) (snd c) (view R s) d" "view R s' = removed (fst c) (snd c) d"
    | (again) "r = RArr [RInt 0, RBulk '''']" "is_marked (view R s) (fst c ! 2)"
      "view R s' = removed (fst c) (snd c) (view R s)"
    | (kept) m where "r = RArr [RInt (- 1), RBulk m]" "view R s' = view R s" by blast
  then show thesis
  proof cases
    case first
    from first(3) obtain n y su where out: "stream_at ((view R s)(completed_key cfg i \<mapsto> VStr ''1'')) (result cfg) = Some su"
      and d: "d = db_xadd (result cfg) y [(''event_id'', i'), (''decision'', enc)] n su
                    ((view R s)(completed_key cfg i \<mapsto> VStr ''1''))"
      by (auto simp: published_def c)
    have marks: "is_marked d k \<longleftrightarrow> k = completed_key cfg i \<or> is_marked (view R s) k" for k
      unfolding d by (simp add: is_marked_xadd [OF out])
    have "stream_at d (fst c ! 0) = Some st"
      using st ok(2) by (simp add: d k(1) db_xadd_def stream_at_def streams_apart_def completed_key_def)
    then obtain st' where "stream_at (view R s') (stream cfg) = Some st'"
        "entries st' = filter (\<lambda>e. fst e \<noteq> x) (entries st)" "used st' = used st"
      using removed_stream [of d "fst c" st "snd c"] k first(4) by metis
    moreover have "\<not> is_marked (view R s) (completed_key cfg i)" using first(2) k(3) by (simp add: is_marked_def)
    ultimately show thesis using first(1,4) marks by (intro over [of st']) (simp_all add: removed_marked)
  next
    case again
    obtain st' where "stream_at (view R s') (stream cfg) = Some st'"
        "entries st' = filter (\<lambda>e. fst e \<noteq> x) (entries st)" "used st' = used st"
      using removed_stream [of "view R s" "fst c" st "snd c"] st k again(3) by metis
    then show thesis using again k(3) by (intro over [of st']) (auto simp: removed_marked)
  qed (use same in simp)
qed (use same in simp)

lemma delivery_stream:
  assumes "delivery_ok R cfg" "argv = read_argv cfg \<or> argv = group_argv cfg \<or> (\<exists>cur. argv = claim_argv cfg cur)"
    and "stream_at (view R s) (stream cfg) = Some st"
  obtains st' where "stream_at (view R (snd (exec R argv s))) (stream cfg) = Some st'"
    "entries st' = entries st" "used st' = used st"
proof -
  let ?d = "view R s" and ?d' = "view R (snd (exec R argv s))"
  have law: "case ?d (stream cfg) of
           Some (VStream st) \<Rightarrow> (\<exists>g. dom (groups st) \<subseteq> dom g \<and> ?d' (stream cfg) = Some (VStream (st\<lparr>groups := g\<rparr>)))
         | None \<Rightarrow> ?d' (stream cfg) = None \<or> (\<exists>g. ?d' (stream cfg) = Some (VStream (empty_stream\<lparr>groups := g\<rparr>)))
         | Some v \<Rightarrow> ?d' (stream cfg) = Some v"
    using assms(1,2) unfolding delivery_ok_def by blast
  show thesis
  proof (cases "?d (stream cfg)")
    case None
    then have "st = empty_stream" using assms(3) by (simp add: stream_at_def)
    then show thesis using None law that by (auto simp: stream_at_def empty_stream_def)
  next
    case (Some v)
    then have "v = VStream st" using assms(3) by (simp add: stream_at_def split: rval.splits)
    then show thesis using Some law that by (auto simp: stream_at_def)
  qed
qed

lemma admitted_event:
  assumes "deployment_ok R L cfg G gw" "valid e"
  shows "entry_event L (x, event_fields (event_id e) (marshal e)) = Some e"
  using assms by (simp add: deployment_ok_def entry_event_def)

lemma world_inv_step:
  assumes dep: "deployment_ok R L cfg G gw" and step: "world_step R L m cfg G gw w w'"
    and inv: "world_inv L cfg G st (view R (srv w)) (admissions w) (handed w) (completions w)"
  shows "\<exists>st'. world_inv L cfg G st' (view R (srv w')) (admissions w') (handed w') (completions w')"
  using step
proof cases
  case (admit body e r s')
  have "fst (admit_call G gw (event_id e) (marshal e)) ! 0 = admission_key cfg (event_id e)"
    using dep by (simp add: admit_call_def admission_key_def deployment_ok_def)
  note key = this
  have ok: "redis_ok R" and gw: "g_stream gw = stream cfg" using dep by (simp_all add: deployment_ok_def)
  show ?thesis
  proof (cases rule: run_admit_cases [OF ok admit(3), case_names prior full accepted failed])
    case (accepted x)
    from world_inv_admit [OF inv gw decode_valid [OF admit(2)] refl accepted(1) [unfolded key] accepted(2)] accepted(3) show ?thesis
      by (simp add: admit(1) first_admission_def admitted_entry_def)
  qed (use inv in \<open>auto simp: admit(1) first_admission_def split: if_splits\<close>)
next
  case (hand_out argv es)
  have del: "delivery_ok R cfg" using dep by (simp add: deployment_ok_def)
  have st: "stream_at (view R (srv w)) (stream cfg) = Some st" using inv by (simp add: world_inv_def)
  obtain st' where st': "stream_at (view R (snd (exec R argv (srv w)))) (stream cfg) = Some st'"
    "entries st' = entries st" "used st' = used st" by (rule delivery_stream [OF del hand_out(2) st])
  have "k \<noteq> stream cfg" if "k \<in> all_markers cfg" for k using that by (auto simp: all_markers_def)
  moreover have "view R (snd (exec R argv (srv w))) k = view R (srv w) k" if "k \<noteq> stream cfg" for k
    using del hand_out(2) that unfolding delivery_ok_def by blast
  ultimately have "is_marked (view R (snd (exec R argv (srv w)))) k = is_marked (view R (srv w)) k"
    if "k \<in> all_markers cfg" for k
    using that by (simp add: is_marked_def)
  moreover have "handed w \<union> es \<subseteq> handed w \<union> set (entries st)" using hand_out(3) st by (auto simp: queued_def)
  ultimately have "world_inv L cfg G st' (view R (snd (exec R argv (srv w)))) (admissions w) (handed w \<union> es) (completions w)"
    by (intro world_inv_cong [OF inv st']) simp_all
  then show ?thesis by (auto simp: hand_out(1))
next
  case (complete entry c flag r s')
  have ok: "redis_ok R" "streams_apart cfg" "result cfg \<notin> all_markers cfg" using dep by (simp_all add: deployment_ok_def)
  obtain i p x where a: "(i, p, x) \<in> set (admissions w)" and entry: "entry = (x, event_fields i p)"
    using inv complete(2) unfolding world_inv_def by blast
  obtain e where e: "valid e" "p = marshal e" "event_id e = i"
    using inv a unfolding world_inv_def by blast
  have ev: "entry_event L entry = Some e" using admitted_event [OF dep e(1), of x] by (simp add: entry e(2,3))
  obtain enc where c: "c = ([stream cfg, result cfg, completed_key cfg i],
      [group cfg, x, i, dec (unat (ttl cfg)), enc])"
    by (cases rule: entry_command_cases [OF complete(3), case_names event rejected])
      (use ev e(3) that in \<open>auto simp: completed_key_def entry\<close>)
  have st: "stream_at (view R (srv w)) (stream cfg) = Some st" using inv by (simp add: world_inv_def)
  note count = published_for_Cons [of L _ entry r "completions w"]
  show ?thesis
  proof (cases rule: completion_effect [OF ok complete(4) c st, case_names same over])
    case same
    then have "world_inv L cfg G st (view R s') (admissions w) (handed w) ((entry, r) # completions w)"
      by (intro world_inv_cong [OF inv]) (use st same in \<open>simp_all add: count\<close>)
    then show ?thesis by (auto simp: complete(1))
  next
    case (over st')
    have pub: "published_for L j (completions w) = (if is_marked (view R (srv w)) (completed_key cfg j) then 1 else 0)"
      for j using inv by (simp add: world_inv_def)
    have "published_for L j ((entry, r) # completions w) =
        (if j = i \<and> \<not> is_marked (view R (srv w)) (completed_key cfg i) then 1 else published_for L j (completions w))" for j
      by (auto simp: count over(5) ev e(3) pub)
    from world_inv_complete [OF inv a over(1-4) this] show ?thesis by (auto simp: complete(1))
  qed
next
  case (others s')
  have st: "stream_at (view R (srv w)) (stream cfg) = Some st" using inv by (simp add: world_inv_def)
  then have "stream_at (view R s') (stream cfg) = Some st" using others(2) by (simp add: untouched_def stream_at_def)
  then have "world_inv L cfg G st (view R s') (admissions w) (handed w) (completions w)"
    by (intro world_inv_cong [OF inv]) (use others(2) in \<open>simp_all add: untouched_def is_marked_def\<close>)
  then show ?thesis by (auto simp: others(1))
qed

lemma reachable_inv:
  assumes "deployment_ok R L cfg G gw" "reachable R L m cfg G gw w"
  shows "\<exists>st. world_inv L cfg G st (view R (srv w)) (admissions w) (handed w) (completions w)"
  using assms(2)
proof induction
  case (start w)
  then show ?case by (rule world_inv_start)
next
  case (step w w')
  then show ?case using world_inv_step [OF assms(1)] by blast
qed

section \<open>A decision is always possible\<close>

text \<open>The result stream can take an entry and no marker key is taken by other data.\<close>

definition writable :: "config \<Rightarrow> db \<Rightarrow> bool" where
  "writable cfg d \<longleftrightarrow> (\<exists>su. stream_at d (result cfg) = Some su \<and> finite (used su)) \<and>
     (\<forall>k \<in> all_markers cfg. d k = None \<or> is_marked d k)"

lemma reachable_steps:
  assumes "reachable R L m cfg G gw w" "(world_step R L m cfg G gw)\<^sup>*\<^sup>* w w'"
  shows "reachable R L m cfg G gw w'"
  using assms(2,1) by (induction rule: rtranclp_induct) (auto intro: reachable.step)

text \<open>Handing the entry out and completing it is enough.\<close>

lemma completing_run:
  assumes dep: "deployment_ok R L cfg G gw" and inv: "reachable R L m cfg G gw w"
    and server: "accepting R" "runs_scripts R" "ttl_ok (dec (unat (ttl cfg)))" "\<forall>d. decision_to_json L d \<noteq> None"
    and free: "writable cfg (view R (srv w))"
    and a: "(i, p, x) \<in> set (admissions w)" and q: "queued (view R (srv w)) (stream cfg) (x, event_fields i p)"
  shows "\<exists>w'. (world_step R L m cfg G gw)\<^sup>*\<^sup>* w w' \<and> admissions w' = admissions w \<and>
     \<not> queued (view R (srv w')) (stream cfg) (x, event_fields i p)"
proof -
  let ?entry = "(x, event_fields i p)" and ?argv = "read_argv cfg"
  let ?w1 = "w\<lparr>srv := snd (exec R ?argv (srv w)), handed := handed w \<union> {?entry}\<rparr>"
  have ok: "redis_ok R" "delivery_ok R cfg" "result cfg \<notin> all_markers cfg" "result cfg \<noteq> stream cfg"
    using dep by (auto simp: deployment_ok_def streams_apart_def)
  have hand: "world_step R L m cfg G gw w ?w1" by (rule world_step.hand_out) (use q in simp_all)
  obtain st where st: "stream_at (view R (srv w)) (stream cfg) = Some st"
    using q by (auto simp: queued_def split: option.splits)
  have some: "stream_at (view R (srv ?w1)) (stream cfg) \<noteq> None"
    by (rule delivery_stream [OF ok(2) _ st, of ?argv]) simp_all
  have other: "view R (srv ?w1) k = view R (srv w) k" if "k \<noteq> stream cfg" for k
    using ok(2) that unfolding delivery_ok_def by simp
  obtain e where e: "valid e" "p = marshal e" "event_id e = i"
    using reachable_inv [OF dep inv] a unfolding world_inv_def by blast
  obtain enc where enc: "decision_to_json L (score (exp64 L) m e) = Some enc" using server(4) by blast
  let ?KEYS = "[stream cfg, result cfg, completed_key cfg i]"
  let ?ARGV = "[group cfg, x, i, dec (unat (ttl cfg)), enc]"
  have cmd: "entry_command L m cfg ?entry = Some ((?KEYS, ?ARGV), False)"
    using entry_command_event [OF admitted_event [OF dep e(1)] enc, of cfg x]
    by (simp add: e(2,3) completed_key_def)
  have key: "completed_key cfg i \<in> all_markers cfg" "completed_key cfg i \<noteq> stream cfg"
    by (simp_all add: completed_key_def all_markers_def)
  have differ: "completed_key cfg i \<noteq> result cfg" using ok(3) key(1) by metis
  obtain su where su: "stream_at (view R (srv w)) (result cfg) = Some su" "finite (used su)"
    using free by (auto simp: writable_def)
  have "view R (srv w) (completed_key cfg i) = None \<or> is_marked (view R (srv w)) (completed_key cfg i)"
    using free key(1) by (auto simp: writable_def)
  then have "\<exists>n s'. finish R ?KEYS ?ARGV (srv ?w1) = (RArr [RInt n, RBulk ''''], s') \<and> n \<in> {0, 1} \<and>
           is_marked (view R s') (?KEYS ! 2) \<and> ?ARGV ! 1 \<notin> entry_ids (view R s') (?KEYS ! 0)"
    by (intro finish_serves [OF ok(1) server(1), where st = su])
      (use some other su ok(4) key differ server(3) in \<open>simp_all add: stream_at_def is_marked_def\<close>)
  then obtain n s' where fin: "finish R ?KEYS ?ARGV (srv ?w1) = (RArr [RInt n, RBulk ''''], s')"
    and gone: "x \<notin> entry_ids (view R s') (stream cfg)" by auto
  let ?w2 = "?w1\<lparr>srv := s', completions := (?entry, RArr [RInt n, RBulk '''']) # completions ?w1\<rparr>"
  have eval: "run_eval R (?KEYS, ?ARGV) (srv ?w1) = (RArr [RInt n, RBulk ''''], s')"
    using fin server(2) by (simp add: run_eval_def run_finish_def runs_scripts_def)
  have "world_step R L m cfg G gw ?w1 ?w2" by (rule world_step.complete [OF _ cmd eval]) simp
  with hand have run: "(world_step R L m cfg G gw)\<^sup>*\<^sup>* w ?w2" by simp
  have "\<not> queued (view R s') (stream cfg) ?entry"
    using gone by (force simp: queued_def entry_ids_def stream_at_def empty_stream_def split: option.splits rval.splits)
  with run show ?thesis by (intro exI [of _ ?w2]) simp
qed

section \<open>Exactly one decision\<close>

lemma one_decision:
  assumes "deployment_ok R L cfg G gw" "reachable R L m cfg G gw w" "(i, p, x) \<in> set (admissions w)"
  shows "published_for L i (completions w) =
    (if queued (view R (srv w)) (stream cfg) (x, event_fields i p) then 0 else 1)"
proof -
  obtain st where inv: "world_inv L cfg G st (view R (srv w)) (admissions w) (handed w) (completions w)"
    using reachable_inv [OF assms(1,2)] by blast
  then have "stream_at (view R (srv w)) (stream cfg) = Some st" by (simp add: world_inv_def)
  with inv assms(3) show ?thesis by (auto simp: queued_def world_inv_def)
qed



section \<open>An event on the reference server\<close>

lemma demo_deployment: "deployment_ok mem demo_libs demo_config demo_go demo_gateway"
proof -
  have "g_stream demo_gateway = stream demo_config" by (simp add: demo_gateway_def demo_config_def)
  moreover have "result demo_config \<notin> all_markers demo_config" "result demo_config @ '':dead'' \<notin> all_markers demo_config"
    by (simp_all add: all_markers_def demo_config_def)
  moreover have "entry_get demo_libs (x, event_fields i p) ''payload'' = Some p" for x i p
    by (simp add: demo_libs_def event_fields_def)
  moreover have "event_of_json demo_libs (marshal e) = Some e" if "valid e" for e
    by (simp add: demo_libs_def marshal_decodes [OF that]) (simp add: marshal_def members_Cons event_fields_text_def)
  ultimately show ?thesis by (simp add: deployment_ok_def mem_ok mem_delivery demo_apart)
qed

definition demo_world :: "db \<Rightarrow> db world" where
  "demo_world d = \<lparr>srv = d, admissions = [], handed = {}, completions = []\<rparr>"

lemma demo_admitted:
  obtains w where "reachable mem demo_libs artifact demo_config demo_go demo_gateway w"
    "admissions w = [(''test'', demo_payload, mem_id {})]" "completions w = []"
    "\<And>k. k \<noteq> ''payment_events'' \<Longrightarrow> k \<noteq> ''payment_events:idempotency:test'' \<Longrightarrow> srv w k = None"
    "is_marked (srv w) ''payment_events:idempotency:test''"
    "queued (srv w) ''payment_events'' (mem_id {}, event_fields ''test'' demo_payload)"
proof -
  let ?call = "admit_call demo_go demo_gateway ''test'' demo_payload"
  obtain d' where run: "run_admit mem ?call Map.empty = (RArr [RInt 1, RBulk (mem_id {})], d')"
    by (rule demo_admit_run)
  have adm: "admitted ?call Map.empty (mem_id {}) d'"
    by (cases rule: run_admit_cases [OF mem_ok run, case_names prior full accepted failed]) auto
  let ?w = "demo_world d'\<lparr>admissions := [(''test'', demo_payload, mem_id {})]\<rparr>"
  have "initial_world mem demo_config (demo_world Map.empty)"
    by (simp add: initial_world_def demo_world_def stream_at_def empty_stream_def)
  then have r0: "reachable mem demo_libs artifact demo_config demo_go demo_gateway (demo_world Map.empty)"
    by (rule reachable.start)
  have "decode demo_payload = Some (Inr sample_event)" by (rule marshal_decodes [OF sample_event_valid])
  moreover have "run_admit mem (admit_call demo_go demo_gateway (event_id sample_event) demo_payload) (srv (demo_world Map.empty)) =
      (RArr [RInt 1, RBulk (mem_id {})], d')" using run by (simp add: sample_event_def demo_world_def)
  ultimately have "world_step mem demo_libs artifact demo_config demo_go demo_gateway (demo_world Map.empty)
      ((demo_world Map.empty)\<lparr>srv := d', admissions :=
         (if first_admission (RArr [RInt 1, RBulk (mem_id {})])
          then (event_id sample_event, demo_payload, admitted_entry '''' (RArr [RInt 1, RBulk (mem_id {})])) #
            admissions (demo_world Map.empty)
          else admissions (demo_world Map.empty))\<rparr>)" by (rule world_step.admit)
  then have "world_step mem demo_libs artifact demo_config demo_go demo_gateway (demo_world Map.empty) ?w"
    by (simp add: first_admission_def admitted_entry_def demo_world_def sample_event_def)
  with r0 have "reachable mem demo_libs artifact demo_config demo_go demo_gateway ?w" by (rule reachable.step)
  moreover have "d' k = None" if "k \<noteq> ''payment_events''" "k \<noteq> ''payment_events:idempotency:test''" for k
    using adm that by (auto simp: admitted_def admit_call_def demo_gateway_def db_xadd_def)
  moreover have "queued d' ''payment_events'' (mem_id {}, event_fields ''test'' demo_payload)"
    using admitted_state(2) [OF adm] by (simp add: demo_gateway_def event_fields_def)
  moreover have "is_marked d' ''payment_events:idempotency:test''"
    using admitted_marks [OF adm] by (simp add: admit_call_def demo_gateway_def)
  ultimately show thesis by (intro that [of ?w]) (simp_all add: demo_world_def)
qed

lemma demo_writable:
  assumes "\<And>k. k \<noteq> ''payment_events'' \<Longrightarrow> k \<noteq> ''payment_events:idempotency:test'' \<Longrightarrow> d k = None"
    and "is_marked d ''payment_events:idempotency:test''"
  shows "writable demo_config d"
proof -
  have "d ''risk_decisions'' = None" by (rule assms(1)) simp_all
  moreover have "d k = None \<or> is_marked d k" if k: "k \<in> all_markers demo_config" for k
  proof (cases "k = ''payment_events:idempotency:test''")
    case False
    moreover have "k \<noteq> ''payment_events''" using k by (auto simp: all_markers_def demo_config_def)
    ultimately show ?thesis using assms(1) by blast
  qed (simp add: assms(2))
  ultimately show ?thesis
    by (simp add: writable_def) (simp add: demo_config_def stream_at_def empty_stream_def)
qed

lemma demo_ready:
  "accepting mem" "runs_scripts mem" "ttl_ok (dec (unat (ttl demo_config)))" "\<forall>d. decision_to_json demo_libs d \<noteq> None"
  by (simp_all add: mem_accepting mem_runs_scripts) (simp_all add: demo_config_def ttl_ok_dec demo_libs_def)



end
