(* ===== verification/Registry.thy ===== *)
theory Registry
  imports System
begin

text \<open>
  What the pipeline promises, as an abstract machine: a registry that binds every accepted event
  identifier to its canonical bytes for good, and decides every accepted event at most once. The steps
  of the gateways, workers and other clients in \<open>System\<close> are steps of this machine.
\<close>

section \<open>The abstract machine\<close>

record registry =
  accepted :: "string \<rightharpoonup> string"
  decided :: "string set"

inductive registry_step :: "registry \<Rightarrow> registry \<Rightarrow> bool" where
  stutter: "registry_step g g"
| accept: "accepted g i = None \<Longrightarrow> registry_step g (g\<lparr>accepted := (accepted g)(i \<mapsto> p)\<rparr>)"
| decide: "accepted g i \<noteq> None \<Longrightarrow> i \<notin> decided g \<Longrightarrow> registry_step g (g\<lparr>decided := insert i (decided g)\<rparr>)"

definition empty_registry :: registry where
  "empty_registry = \<lparr>accepted = Map.empty, decided = {}\<rparr>"

definition registry_of :: "libs \<Rightarrow> 's world \<Rightarrow> registry" where
  "registry_of L w = \<lparr>accepted = map_of (map (\<lambda>(i, p, x). (i, p)) (admissions w)),
     decided = {i. published_for L i (completions w) \<noteq> 0}\<rparr>"

inductive_simps registry_step_iff: "registry_step g g'"

section \<open>Simulation\<close>

lemma accepted_registry: "accepted (registry_of L w) i = None \<longleftrightarrow> i \<notin> fst ` set (admissions w)"
  by (auto simp: registry_of_def map_of_eq_None_iff case_prod_unfold image_image)

lemma registry_same:
  assumes "admissions w' = admissions w" "completions w' = completions w"
  shows "registry_step (registry_of L w) (registry_of L w')"
  using assms by (simp add: registry_of_def registry_step.stutter)

text \<open>A published completion decides an event that was accepted and had no decision.\<close>

lemma completion_registry:
  assumes "admissions w' = admissions w" "completions w' = (entry, r) # completions w"
    and inv: "world_inv L cfg G st d (admissions w') hs (completions w')"
  shows "registry_step (registry_of L w) (registry_of L w')"
proof (cases "\<exists>e. r = RArr [RInt 1, RBulk ''''] \<and> entry_event L entry = Some e")
  case True
  then obtain e where e: "r = RArr [RInt 1, RBulk '''']" "entry_event L entry = Some e" by blast
  have count: "published_for L j (completions w') =
      (if j = event_id e then Suc (published_for L j (completions w)) else published_for L j (completions w))" for j
    by (auto simp: assms(2) published_for_Cons e)
  have marked: "published_for L j (completions w') = (if is_marked d (completed_key cfg j) then 1 else 0)" for j
    using inv by (simp add: world_inv_def)
  have new: "published_for L (event_id e) (completions w) = 0" "is_marked d (completed_key cfg (event_id e))"
    using count [of "event_id e"] marked [of "event_id e"] by (simp_all split: if_splits)
  then have "event_id e \<in> fst ` set (admissions w)" using inv assms(1) by (auto simp: world_inv_def)
  then have "accepted (registry_of L w) (event_id e) \<noteq> None" by (simp add: accepted_registry)
  moreover have "event_id e \<notin> decided (registry_of L w)" by (simp add: registry_of_def new(1))
  moreover have "registry_of L w' = (registry_of L w)\<lparr>decided := insert (event_id e) (decided (registry_of L w))\<rparr>"
    by (auto simp: registry_of_def assms(1) count)
  ultimately show ?thesis by (simp add: registry_step.decide)
next
  case False
  then have "published_for L j (completions w') = published_for L j (completions w)" for j
    by (auto simp: assms(2) published_for_Cons split: option.splits)
  then show ?thesis by (simp add: registry_of_def assms(1) registry_step.stutter)
qed

lemma step_registry:
  assumes "deployment_ok R L cfg G gw" "reachable R L m cfg G gw w" "world_step R L m cfg G gw w w'"
  shows "registry_step (registry_of L w) (registry_of L w')"
proof -
  obtain st where inv: "world_inv L cfg G st (view R (srv w')) (admissions w') (handed w') (completions w')"
    using reachable_inv [OF assms(1) reachable.step [OF assms(2,3)]] by blast
  from assms(3) show ?thesis
  proof cases
    case (admit body e r s')
    show ?thesis
    proof (cases "first_admission r")
      case True
      then have "event_id e \<notin> fst ` set (admissions w)" using inv by (simp add: admit(1) world_inv_def)
      then have "accepted (registry_of L w) (event_id e) = None" by (simp add: accepted_registry)
      moreover have "registry_of L w' = (registry_of L w)\<lparr>accepted := (accepted (registry_of L w))(event_id e \<mapsto> marshal e)\<rparr>"
        by (simp add: registry_of_def admit(1) True)
      ultimately show ?thesis by (simp add: registry_step.accept)
    qed (simp add: admit(1) registry_same)
  next
    case (complete entry c flag r s')
    show ?thesis by (rule completion_registry [OF _ _ inv]) (simp_all add: complete(1))
  qed (simp_all add: registry_same)
qed

lemma initial_registry: "initial_world R cfg w \<Longrightarrow> registry_of L w = empty_registry"
  by (simp add: initial_world_def registry_of_def empty_registry_def published_for_def)



end
